(* ===== verification/Js_Prelude.thy ===== *)
theory Js_Prelude
  imports Complex_Main "HOL-Library.Word" "HOL-Library.AList" "HOL-Library.List_Lexorder"
begin

text \<open>
  The part of the JavaScript runtime that the modelled packages use, and the lemmas the
  component theories share:

  \<^item> \<open>jsstr\<close>: a JavaScript string, the list of its UTF-16 code units. The library order on
    lists of words is the order of \<open>Array.prototype.sort\<close> without a comparator.
  \<^item> \<open>js_number\<close>: a Number. Finite numbers are exact rationals: the rounding of IEEE
    arithmetic is not modelled, the special values and the safe-integer checks are.
  \<^item> \<open>thrown\<close> and \<open>'a res\<close>: an operation that may throw returns \<open>Inl\<close> of the thrown value
    or \<open>Inr\<close> of its result; \<open>bindE\<close> sequences such operations.
  \<^item> \<open>Map\<close>: an association list. \<open>AList.update\<close> keeps the position of an existing key and
    appends a new one, \<open>AList.delete\<close> removes a key, as \<open>Map.set\<close> and \<open>Map.delete\<close> do.
\<close>

section \<open>Collections of facts\<close>

named_theorems js_defs "definitions that evaluate closed terms"
named_theorems js_res "simplification of results and their sequencing"

section \<open>Strings\<close>

type_synonym jsstr = "16 word list"
type_synonym byte = "8 word"

definition js :: "string \<Rightarrow> jsstr" where
  "js s = map of_char s"

definition is_high :: "16 word \<Rightarrow> bool" where
  "is_high u \<longleftrightarrow> 0xD800 \<le> u \<and> u \<le> 0xDBFF"

definition is_low :: "16 word \<Rightarrow> bool" where
  "is_low u \<longleftrightarrow> 0xDC00 \<le> u \<and> u \<le> 0xDFFF"

text \<open>\<open>String.prototype.isWellFormed\<close>: every surrogate belongs to a high-low pair.\<close>

fun isWellFormed :: "jsstr \<Rightarrow> bool" where
  "isWellFormed [] = True"
| "isWellFormed (u # s) =
     (if is_high u then (case s of [] \<Rightarrow> False | v # s' \<Rightarrow> is_low v \<and> isWellFormed s')
      else \<not> is_low u \<and> isWellFormed s)"

text \<open>The code point of a surrogate pair, and the code points of a string.\<close>

definition pair_point :: "16 word \<Rightarrow> 16 word \<Rightarrow> nat" where
  "pair_point u v = 0x10000 + (unat u - 0xD800) * 0x400 + (unat v - 0xDC00)"

fun code_points :: "jsstr \<Rightarrow> nat list" where
  "code_points [] = []"
| "code_points (u # s) =
     (case s of [] \<Rightarrow> [unat u]
      | v # s' \<Rightarrow> if is_high u \<and> is_low v then pair_point u v # code_points s'
                  else unat u # code_points s)"

text \<open>\<open>String(n)\<close> for a non-negative integer.\<close>

fun decimal :: "nat \<Rightarrow> jsstr" where
  "decimal n = (if n < 10 then [of_nat (48 + n)] else decimal (n div 10) @ [of_nat (48 + n mod 10)])"

declare decimal.simps [simp del]

section \<open>Numbers\<close>

datatype js_number = NaN | PosInf | NegInf | Fin rat

definition max_safe :: int where
  "max_safe = 9007199254740991"

fun isFinite :: "js_number \<Rightarrow> bool" where
  "isFinite (Fin _) = True"
| "isFinite _ = False"

fun isInteger :: "js_number \<Rightarrow> bool" where
  "isInteger (Fin r) = (of_int \<lfloor>r\<rfloor> = r)"
| "isInteger _ = False"

fun isSafeInteger :: "js_number \<Rightarrow> bool" where
  "isSafeInteger (Fin r) = (of_int \<lfloor>r\<rfloor> = r \<and> \<bar>\<lfloor>r\<rfloor>\<bar> \<le> max_safe)"
| "isSafeInteger _ = False"

text \<open>The relational operator \<open><\<close>: false when an operand is \<open>NaN\<close>.\<close>

fun num_less :: "js_number \<Rightarrow> js_number \<Rightarrow> bool" where
  "num_less NaN _ = False"
| "num_less _ NaN = False"
| "num_less (Fin a) (Fin b) = (a < b)"
| "num_less NegInf b = (b \<noteq> NegInf)"
| "num_less a PosInf = (a \<noteq> PosInf)"
| "num_less _ _ = False"

text \<open>The mathematical value of a number that a check has admitted as finite.\<close>

fun rat_of :: "js_number \<Rightarrow> rat" where
  "rat_of (Fin r) = r"
| "rat_of _ = 0"

definition int_of :: "js_number \<Rightarrow> int" where
  "int_of n = \<lfloor>rat_of n\<rfloor>"

lemma isSafeInteger_int_of:
  "isSafeInteger n \<Longrightarrow> n = Fin (of_int (int_of n)) \<and> \<bar>int_of n\<bar> \<le> max_safe"
  by (cases n) (auto simp: int_of_def)

lemma isSafeInteger_Fin_int [simp]: "isSafeInteger (Fin (of_int i)) = (\<bar>i\<bar> \<le> max_safe)"
  by simp

lemma int_of_Fin_int [simp]: "int_of (Fin (of_int i)) = i"
  by (simp add: int_of_def)

lemma num_less_Fin: "num_less (Fin a) (Fin b) \<longleftrightarrow> a < b"
  by simp

lemma num_less_safe:
  "isSafeInteger n \<Longrightarrow> num_less n (Fin r) \<longleftrightarrow> of_int (int_of n) < r"
  "isSafeInteger n \<Longrightarrow> num_less (Fin r) n \<longleftrightarrow> r < of_int (int_of n)"
  by (metis isSafeInteger_int_of num_less_Fin)+

section \<open>Thrown values and results\<close>

datatype thrown =
    TypeError string
  | RangeError string
  | Canceled
  | DeadlineExceeded
  | CircuitOpen
  | StoreConflict jsstr "jsstr option" "jsstr option"
  | ProtocolError string
  | RegistryProtocolError string
  | SSEParserLimitError
  | SyntaxError
  | URIError
  | NoAvailableEndpoint
  | PlainError jsstr
  | AggregateError string "thrown list"
  | UserError nat

text \<open>A value that user code throws or rejects with: an \<open>Error\<close>, or anything else.\<close>

datatype raised = R_Error thrown | R_Other

type_synonym 'a res = "thrown + 'a"

definition bindE :: "'a res \<Rightarrow> ('a \<Rightarrow> 'b res) \<Rightarrow> 'b res" where
  "bindE m f = (case m of Inl e \<Rightarrow> Inl e | Inr x \<Rightarrow> f x)"

definition check :: "bool \<Rightarrow> thrown \<Rightarrow> unit res" where
  "check b e = (if b then Inr () else Inl e)"

lemma bindE_simps [simp]:
  "bindE (Inl e) f = Inl e"
  "bindE (Inr x) f = f x"
  by (simp_all add: bindE_def)

lemma bindE_Inr_iff [js_res]: "bindE m f = Inr y \<longleftrightarrow> (\<exists>x. m = Inr x \<and> f x = Inr y)"
  by (cases m) auto

lemma bindE_Inl_iff [js_res]:
  "bindE m f = Inl e \<longleftrightarrow> m = Inl e \<or> (\<exists>x. m = Inr x \<and> f x = Inl e)"
  by (cases m) auto

lemma bindE_assoc: "bindE (bindE m f) g = bindE m (\<lambda>x. bindE (f x) g)"
  by (cases m) auto

lemma check_Inr [simp]: "check b e = Inr u \<longleftrightarrow> b"
  by (simp add: check_def)

lemma check_Inl [simp]: "check b e = Inl e' \<longleftrightarrow> \<not> b \<and> e' = e"
  by (auto simp: check_def)

lemma check_True [simp]: "check True e = Inr ()"
  and check_False [simp]: "check False e = Inl e"
  by (simp_all add: check_def)

text \<open>The loop \<open>for (const x of xs) out.push(f(x))\<close>: stops at the first throw.\<close>

fun mapE :: "('a \<Rightarrow> 'b res) \<Rightarrow> 'a list \<Rightarrow> 'b list res" where
  "mapE f [] = Inr []"
| "mapE f (x # xs) = bindE (f x) (\<lambda>y. bindE (mapE f xs) (\<lambda>ys. Inr (y # ys)))"

lemma mapE_Inr_iff: "mapE f xs = Inr ys \<longleftrightarrow> list_all2 (\<lambda>x y. f x = Inr y) xs ys"
  by (induction xs arbitrary: ys) (auto simp: js_res list_all2_Cons1)

lemma mapE_all_Inr: "(\<And>x. x \<in> set xs \<Longrightarrow> f x = Inr (g x)) \<Longrightarrow> mapE f xs = Inr (map g xs)"
  by (induction xs) auto

section \<open>Maps in insertion order\<close>

type_synonym ('k, 'v) jsmap = "('k \<times> 'v) list"

abbreviation map_get :: "('k, 'v) jsmap \<Rightarrow> 'k \<Rightarrow> 'v option" where
  "map_get m k \<equiv> map_of m k"

abbreviation map_set :: "'k \<Rightarrow> 'v \<Rightarrow> ('k, 'v) jsmap \<Rightarrow> ('k, 'v) jsmap" where
  "map_set k v m \<equiv> AList.update k v m"

abbreviation map_delete :: "'k \<Rightarrow> ('k, 'v) jsmap \<Rightarrow> ('k, 'v) jsmap" where
  "map_delete k m \<equiv> AList.delete k m"

abbreviation map_keys :: "('k, 'v) jsmap \<Rightarrow> 'k list" where
  "map_keys m \<equiv> map fst m"

lemma map_get_set [simp]: "map_get (map_set k v m) = (map_get m)(k \<mapsto> v)"
  by (rule update_conv')

lemma map_get_delete [simp]: "map_get (map_delete k m) = (map_get m)(k := None)"
  by (rule delete_conv')

section \<open>Arrays\<close>

lemma nth_update_if: "j < length xs \<Longrightarrow> xs[i := x] ! j = (if i = j then x else xs ! j)"
  by auto

lemma filter_update:
  "i < length xs \<Longrightarrow> P (xs ! i) \<Longrightarrow> \<not> P y \<Longrightarrow> Suc (length (filter P (xs[i := y]))) = length (filter P xs)"
proof (induction xs arbitrary: i)
  case (Cons x xs)
  then show ?case by (cases i) auto
qed simp

lemma filter_update_same:
  "P y = P (xs ! i) \<Longrightarrow> length (filter P (xs[i := y])) = length (filter P xs)"
proof (induction xs arbitrary: i)
  case (Cons x xs)
  then show ?case by (cases i) auto
qed simp

lemma sum_update:
  "i < length xs \<Longrightarrow> sum_list (map f (xs[i := y])) + f (xs ! i) = sum_list (map f xs) + (f y :: nat)"
proof (induction xs arbitrary: i)
  case (Cons x xs)
  then show ?case by (cases i) (auto simp: add.assoc add.commute)
qed simp

end
