(* ===== verification/Context.thy ===== *)
theory Context
  imports Js_Prelude
begin

text \<open>
  \<open>packages/context/src\<close>: derived contexts, cancellation, deadlines and after-functions.

  Contexts are frozen objects with a parent, so a context is a value of the datatype \<open>ctx\<close>; what
  changes is in the state \<open>world\<close>: the \<open>cells\<close> hold the variables of each \<open>newCancelContext\<close> closure,
  \<open>signals\<close> the abort signals with their listeners, \<open>regs\<close> the variables of each \<open>signalAfterFunc\<close>
  closure, \<open>timers\<close> those of each \<open>startDeadlineTimer\<close> closure, \<open>microtasks\<close> the queued user callbacks.
  \<open>Root n\<close> is a context of another implementation (\<open>background\<close> and \<open>todo\<close> too): its methods return
  what the record \<open>foreigns ! n\<close> says.

  An operation that may throw returns the new state with the result, because the source may have
  changed the state before it throws. Listeners that client code attaches directly to a Done
  signal, and \<open>afterFunc\<close> hooks of foreign contexts, are outside this theory. The methods of a
  foreign context return the same values throughout; its signal may be aborted from the start.
\<close>

section \<open>Contexts\<close>

datatype ctx_key = K_Null | K_Undefined | K_Cancel | K_User nat

datatype 'v ctx =
    Root nat
  | CancelCtx nat "'v ctx" "js_number option"
  | ValueCtx "'v ctx" ctx_key "'v ctx_val"
  | WithoutCancelCtx "'v ctx"
and 'v ctx_val = V_Null | V_Ctx "'v ctx" | V_User 'v

datatype sig_id = S_Cell nat | S_Foreign nat

record 'v foreign =
  f_deadline :: "js_number \<times> bool"
  f_done :: "sig_id option"
  f_err :: "thrown option"
  f_value :: "ctx_key \<Rightarrow> 'v ctx_val"

section \<open>State\<close>

datatype once_state = Pending | Admitted | Stopped | Invalid

datatype reg_fn = Propagate nat | Queued nat

record reg =
  r_state :: once_state
  r_listening :: bool
  r_signal :: "sig_id option"
  r_fn :: reg_fn

record signal =
  aborted :: bool
  listeners :: "nat list"

datatype cleanup = StopParent nat | ClearTimer nat

record 'v cell =
  c_parent :: "'v ctx"
  observedErr :: "thrown option"
  observedCause :: "thrown option"
  cleanups :: "cleanup list"

record timer =
  t_cell :: nat
  t_target :: rat
  t_cause :: thrown
  t_active :: bool
  t_delay :: "rat option"

record 'v world =
  foreigns :: "'v foreign list"
  cells :: "'v cell list"
  signals :: "sig_id \<Rightarrow> signal"
  regs :: "reg list"
  timers :: "timer list"
  microtasks :: "nat list"

definition goZeroTimeEpoch :: js_number where
  "goZeroTimeEpoch = Fin (-62135596800000)"

definition noDeadline :: "js_number \<times> bool" where
  "noDeadline = (goZeroTimeEpoch, False)"

definition newEmptyContext :: "'v foreign" where
  "newEmptyContext = \<lparr>f_deadline = noDeadline, f_done = None, f_err = None, f_value = (\<lambda>_. V_Null)\<rparr>"

definition initial_world :: "'v world" where
  "initial_world = \<lparr>foreigns = [newEmptyContext, newEmptyContext], cells = [],
     signals = (\<lambda>_. \<lparr>aborted = False, listeners = []\<rparr>), regs = [], timers = [], microtasks = []\<rparr>"

definition background :: "'v ctx" where
  "background = Root 0"

definition todo :: "'v ctx" where
  "todo = Root 1"

abbreviation err_of :: "'v world \<Rightarrow> nat \<Rightarrow> thrown option" where
  "err_of w c \<equiv> observedErr (cells w ! c)"

abbreviation cause_of :: "'v world \<Rightarrow> nat \<Rightarrow> thrown option" where
  "cause_of w c \<equiv> observedCause (cells w ! c)"

abbreviation set_cell :: "nat \<Rightarrow> 'v cell \<Rightarrow> 'v world \<Rightarrow> 'v world" where
  "set_cell c x w \<equiv> w\<lparr>cells := (cells w)[c := x]\<rparr>"

abbreviation set_reg :: "nat \<Rightarrow> reg \<Rightarrow> 'v world \<Rightarrow> 'v world" where
  "set_reg r x w \<equiv> w\<lparr>regs := (regs w)[r := x]\<rparr>"

abbreviation set_signal :: "sig_id \<Rightarrow> signal \<Rightarrow> 'v world \<Rightarrow> 'v world" where
  "set_signal s x w \<equiv> w\<lparr>signals := (signals w)(s := x)\<rparr>"

abbreviation set_timer :: "nat \<Rightarrow> timer \<Rightarrow> 'v world \<Rightarrow> 'v world" where
  "set_timer t x w \<equiv> w\<lparr>timers := (timers w)[t := x]\<rparr>"

section \<open>Delegation through parents\<close>

fun resolveDeadline :: "'v world \<Rightarrow> 'v ctx \<Rightarrow> js_number \<times> bool" where
  "resolveDeadline w (Root n) = f_deadline (foreigns w ! n)"
| "resolveDeadline w (WithoutCancelCtx p) = noDeadline"
| "resolveDeadline w (CancelCtx c p (Some epoch)) = (epoch, True)"
| "resolveDeadline w (CancelCtx c p None) = resolveDeadline w p"
| "resolveDeadline w (ValueCtx p k v) = resolveDeadline w p"

fun resolveDone :: "'v world \<Rightarrow> 'v ctx \<Rightarrow> sig_id option" where
  "resolveDone w (Root n) = f_done (foreigns w ! n)"
| "resolveDone w (WithoutCancelCtx p) = None"
| "resolveDone w (CancelCtx c p d) = Some (S_Cell c)"
| "resolveDone w (ValueCtx p k v) = resolveDone w p"

fun resolveErr :: "'v world \<Rightarrow> 'v ctx \<Rightarrow> thrown option" where
  "resolveErr w (Root n) = f_err (foreigns w ! n)"
| "resolveErr w (WithoutCancelCtx p) = None"
| "resolveErr w (CancelCtx c p d) = err_of w c"
| "resolveErr w (ValueCtx p k v) = resolveErr w p"

fun resolveValue :: "'v world \<Rightarrow> 'v ctx \<Rightarrow> ctx_key \<Rightarrow> 'v ctx_val" where
  "resolveValue w (Root n) key = f_value (foreigns w ! n) key"
| "resolveValue w (ValueCtx p k v) key = (if k = key then v else resolveValue w p key)"
| "resolveValue w (CancelCtx c p d) key =
     (if key = K_Cancel then V_Ctx (CancelCtx c p d) else resolveValue w p key)"
| "resolveValue w (WithoutCancelCtx p) key =
     (if key = K_Cancel then V_Null else resolveValue w p key)"

definition snapshotDeadline :: "'v world \<Rightarrow> 'v ctx \<Rightarrow> js_number option res" where
  "snapshotDeadline w c =
     (let (epoch, present) = resolveDeadline w c in
      if \<not> present then Inr None
      else if \<not> isFinite epoch then Inl (RangeError ''parent deadline must be a valid finite Date'')
      else Inr (Some epoch))"

text \<open>The cause reader registered for a context, if the value is a local cancel context.\<close>

fun causeFromObservedError :: "'v world \<Rightarrow> 'v ctx \<Rightarrow> thrown \<Rightarrow> thrown" where
  "causeFromObservedError w c observed =
     (case resolveValue w c K_Cancel of
        V_Ctx (CancelCtx n p d) \<Rightarrow> (case cause_of w n of Some k \<Rightarrow> k | None \<Rightarrow> observed)
      | _ \<Rightarrow> observed)"

definition readCause :: "'v world \<Rightarrow> 'v ctx \<Rightarrow> thrown option" where
  "readCause w c =
     (case resolveErr w c of None \<Rightarrow> None | Some observed \<Rightarrow> Some (causeFromObservedError w c observed))"

definition readParentFailure :: "'v world \<Rightarrow> 'v ctx \<Rightarrow> thrown \<times> thrown" where
  "readParentFailure w p =
     (let observed = resolveErr w p;
          err = (if observed = Some DeadlineExceeded then DeadlineExceeded else Canceled)
      in (err, case observed of None \<Rightarrow> err | Some e \<Rightarrow> causeFromObservedError w p e))"

section \<open>Registrations\<close>

definition removeListener :: "nat \<Rightarrow> 'v world \<Rightarrow> 'v world" where
  "removeListener r w =
     (let reg = regs w ! r in
      case r_signal reg of
        None \<Rightarrow> w
      | Some s \<Rightarrow>
          if \<not> r_listening reg then w
          else set_signal s ((signals w s)\<lparr>listeners := filter (\<lambda>l. l \<noteq> r) (listeners (signals w s))\<rparr>)
                 (set_reg r (reg\<lparr>r_listening := False\<rparr>) w))"

text \<open>
  \<open>admit\<close>: a queued user callback goes to the microtasks; a propagation is returned to the caller,
  which runs \<open>cancelFromParent\<close>.
\<close>

definition pending :: "'v world \<Rightarrow> nat \<Rightarrow> bool" where
  "pending w r \<longleftrightarrow> r < length (regs w) \<and> r_state (regs w ! r) = Pending"

definition admit :: "nat \<Rightarrow> 'v world \<Rightarrow> 'v world \<times> nat option" where
  "admit r w =
     (if \<not> pending w r then (w, None)
      else
        let w1 = removeListener r (set_reg r ((regs w ! r)\<lparr>r_state := Admitted\<rparr>) w) in
        case r_fn (regs w ! r) of
          Queued fn \<Rightarrow> (w1\<lparr>microtasks := microtasks w1 @ [fn]\<rparr>, None)
        | Propagate c \<Rightarrow> (w1, Some c))"

definition stopReg :: "nat \<Rightarrow> 'v world \<Rightarrow> 'v world \<times> bool" where
  "stopReg r w =
     (if \<not> pending w r then (w, False)
      else (removeListener r (set_reg r ((regs w ! r)\<lparr>r_state := Stopped\<rparr>) w), True))"

section \<open>Cancellation waves\<close>

datatype task = T_Settle nat thrown thrown | T_FromParent nat

record wave =
  tasks :: "task list"
  cleanupFrames :: "cleanup list list"

text \<open>
  \<open>AbortController.abort\<close>: the listeners registered at that moment run in order, unless one was
  removed before its turn; each is removed before it runs. The admitted propagations become tasks of
  the active wave.
\<close>

fun dispatch :: "sig_id \<Rightarrow> nat list \<Rightarrow> 'v world \<Rightarrow> wave \<Rightarrow> 'v world \<times> wave" where
  "dispatch s [] w wv = (w, wv)"
| "dispatch s (r # rs) w wv =
     (if r \<notin> set (listeners (signals w s)) then dispatch s rs w wv
      else
        let w1 = set_signal s ((signals w s)\<lparr>listeners := filter (\<lambda>l. l \<noteq> r) (listeners (signals w s))\<rparr>) w
        in case admit r w1 of
             (w2, None) \<Rightarrow> dispatch s rs w2 wv
           | (w2, Some c) \<Rightarrow> dispatch s rs w2 (wv\<lparr>tasks := tasks wv @ [T_FromParent c]\<rparr>))"

definition abort :: "sig_id \<Rightarrow> 'v world \<Rightarrow> wave \<Rightarrow> 'v world \<times> wave" where
  "abort s w wv =
     (if aborted (signals w s) then (w, wv)
      else dispatch s (listeners (signals w s)) (set_signal s ((signals w s)\<lparr>aborted := True\<rparr>) w) wv)"

definition live :: "'v world \<Rightarrow> nat \<Rightarrow> bool" where
  "live w c \<longleftrightarrow> c < length (cells w) \<and> err_of w c = None"

definition settle :: "nat \<Rightarrow> thrown \<Rightarrow> thrown \<Rightarrow> 'v world \<Rightarrow> wave \<Rightarrow> 'v world \<times> wave" where
  "settle c err cancellationCause w wv =
     (if \<not> live w c then (w, wv)
      else
        let cell = cells w ! c;
            pendingCleanups = cleanups cell;
            w1 = set_cell c (cell\<lparr>observedErr := Some err, observedCause := Some cancellationCause,
                                  cleanups := []\<rparr>) w;
            (w2, wv2) = abort (S_Cell c) w1 wv
        in (w2, if pendingCleanups \<noteq> []
                then wv2\<lparr>cleanupFrames := cleanupFrames wv2 @ [pendingCleanups]\<rparr> else wv2))"

definition run_task :: "task \<Rightarrow> 'v world \<Rightarrow> wave \<Rightarrow> 'v world \<times> wave" where
  "run_task t w wv =
     (case t of
        T_Settle c err k \<Rightarrow> settle c err k w wv
      | T_FromParent c \<Rightarrow>
          let (err, k) = readParentFailure w (c_parent (cells w ! c)) in settle c err k w wv)"

definition clearTimer :: "nat \<Rightarrow> 'v world \<Rightarrow> 'v world" where
  "clearTimer t w = set_timer t ((timers w ! t)\<lparr>t_active := False, t_delay := None\<rparr>) w"

definition run_cleanup :: "cleanup \<Rightarrow> 'v world \<Rightarrow> 'v world" where
  "run_cleanup cl w = (case cl of StopParent r \<Rightarrow> fst (stopReg r w) | ClearTimer t \<Rightarrow> clearTimer t w)"

text \<open>
  The measure of the loop: every task and every cleanup is consumed once; a registration is admitted
  at most once, and only an admission adds a task.
\<close>

definition pending_count :: "'v world \<Rightarrow> nat" where
  "pending_count w = length (filter (\<lambda>r. r_state r = Pending) (regs w))"

definition cleanup_count :: "'v world \<Rightarrow> nat" where
  "cleanup_count w = sum_list (map (\<lambda>c. length (cleanups c)) (cells w))"

definition wave_measure :: "'v world \<times> wave \<Rightarrow> nat" where
  "wave_measure = (\<lambda>(w, wv). 3 * pending_count w + 2 * length (tasks wv) + cleanup_count w +
     sum_list (map length (cleanupFrames wv)) + length (cleanupFrames wv))"

lemma removeListener_same [simp]:
  "cells (removeListener r w) = cells w" "timers (removeListener r w) = timers w"
  "microtasks (removeListener r w) = microtasks w" "foreigns (removeListener r w) = foreigns w"
  "length (regs (removeListener r w)) = length (regs w)"
  by (auto simp: removeListener_def Let_def split: option.splits)

lemma removeListener_reg:
  "q < length (regs w) \<Longrightarrow> r_state (regs (removeListener r w) ! q) = r_state (regs w ! q)"
  "q < length (regs w) \<Longrightarrow> r_fn (regs (removeListener r w) ! q) = r_fn (regs w ! q)"
  by (auto simp: removeListener_def Let_def nth_update_if split: option.splits)

lemma pending_count_same [simp]:
  "pending_count (w\<lparr>microtasks := m\<rparr>) = pending_count w"
  "pending_count (w\<lparr>signals := sg\<rparr>) = pending_count w"
  "pending_count (w\<lparr>cells := cs\<rparr>) = pending_count w"
  "pending_count (w\<lparr>timers := ts\<rparr>) = pending_count w"
  by (simp_all add: pending_count_def)

lemma pending_removeListener [simp]: "pending_count (removeListener r w) = pending_count w"
  by (auto simp: removeListener_def Let_def filter_update_same pending_count_def split: option.splits)

lemma pending_set_reg:
  "pending w r \<Longrightarrow> x \<noteq> Pending \<Longrightarrow>
    Suc (pending_count (set_reg r ((regs w ! r)\<lparr>r_state := x\<rparr>) w)) = pending_count w"
  by (simp add: pending_count_def pending_def filter_update)

lemma admit_count:
  assumes "admit r w = (w', x)"
  shows "cells w' = cells w" "pending_count w' + (if x = None then 0 else 1) \<le> pending_count w"
  using assms pending_set_reg [of w r Admitted]
  by (auto simp: admit_def Let_def split: if_splits reg_fn.splits)

lemma dispatch_count:
  "dispatch s rs w wv = (w', wv') \<Longrightarrow>
    cells w' = cells w \<and> cleanupFrames wv' = cleanupFrames wv \<and>
    pending_count w' \<le> pending_count w \<and>
    pending_count w' + length (tasks wv') \<le> pending_count w + length (tasks wv)"
proof (induction rs arbitrary: w wv)
  case (Cons r rs)
  show ?case
  proof (cases "r \<in> set (listeners (signals w s))")
    case True
    let ?w1 = "set_signal s ((signals w s)\<lparr>listeners := filter (\<lambda>l. l \<noteq> r) (listeners (signals w s))\<rparr>) w"
    obtain w2 x where a: "admit r ?w1 = (w2, x)" by fastforce
    have c: "cells w2 = cells w" "pending_count w2 + (if x = None then 0 else 1) \<le> pending_count w"
      using admit_count [OF a] by simp_all
    show ?thesis
    proof (cases x)
      case None
      then have "dispatch s rs w2 wv = (w', wv')" using Cons.prems True a by (simp add: Let_def)
      then show ?thesis using Cons.IH [of w2 wv] c None by auto
    next
      case (Some d)
      then have "dispatch s rs w2 (wv\<lparr>tasks := tasks wv @ [T_FromParent d]\<rparr>) = (w', wv')"
        using Cons.prems True a by (simp add: Let_def)
      then show ?thesis
        using Cons.IH [of w2 "wv\<lparr>tasks := tasks wv @ [T_FromParent d]\<rparr>"] c Some by auto
    qed
  next
    case False
    then show ?thesis using Cons by simp
  qed
qed simp

lemma abort_count:
  assumes "abort s w wv = (w', wv')"
  shows "cells w' = cells w \<and> cleanupFrames wv' = cleanupFrames wv \<and>
    pending_count w' \<le> pending_count w \<and>
    pending_count w' + length (tasks wv') \<le> pending_count w + length (tasks wv)"
proof (cases "aborted (signals w s)")
  case False
  then show ?thesis
    using assms dispatch_count [of s "listeners (signals w s)"
        "set_signal s ((signals w s)\<lparr>aborted := True\<rparr>) w" wv w' wv']
    by (simp add: abort_def)
qed (use assms in \<open>simp add: abort_def\<close>)

lemma settle_count:
  assumes "settle c e k w wv = (w', wv')"
  shows "wave_measure (w', wv') \<le> wave_measure (w, wv) + 1"
proof (cases "live w c")
  case True
  let ?cell = "cells w ! c"
  let ?w1 = "set_cell c (?cell\<lparr>observedErr := Some e, observedCause := Some k, cleanups := []\<rparr>) w"
  obtain w2 wv2 where ab: "abort (S_Cell c) ?w1 wv = (w2, wv2)" by fastforce
  have "cells w2 = cells ?w1 \<and> cleanupFrames wv2 = cleanupFrames wv \<and>
      pending_count w2 \<le> pending_count w \<and>
      pending_count w2 + length (tasks wv2) \<le> pending_count w + length (tasks wv)"
    using abort_count [OF ab] by simp
  moreover have "cleanup_count ?w1 + length (cleanups ?cell) = cleanup_count w"
    using True sum_update [of c "cells w" "\<lambda>c. length (cleanups c)"]
    by (simp add: cleanup_count_def live_def)
  ultimately show ?thesis
    using assms True ab
    by (auto simp: settle_def wave_measure_def cleanup_count_def Let_def)
next
  case False
  then show ?thesis using assms by (simp add: settle_def)
qed

lemma run_task_count: "run_task t w wv = (w', wv') \<Longrightarrow> wave_measure (w', wv') \<le> wave_measure (w, wv) + 1"
  by (auto simp: run_task_def split: task.splits prod.splits dest: settle_count)

lemma run_cleanup_count:
  "pending_count (run_cleanup cl w) \<le> pending_count w \<and> cells (run_cleanup cl w) = cells w"
proof (cases cl)
  case (StopParent r)
  then show ?thesis
    using pending_set_reg [of w r Stopped] by (auto simp: run_cleanup_def stopReg_def)
qed (simp add: run_cleanup_def clearTimer_def)

lemma wave_task:
  "tasks wv = t # ts \<Longrightarrow> wave_measure (run_task t w (wv\<lparr>tasks := ts\<rparr>)) < wave_measure (w, wv)"
  using run_task_count [of t w "wv\<lparr>tasks := ts\<rparr>"]
  by (cases "run_task t w (wv\<lparr>tasks := ts\<rparr>)") (fastforce simp: wave_measure_def)

lemma wave_pop:
  "tasks wv = [] \<Longrightarrow> cleanupFrames wv \<noteq> [] \<Longrightarrow> last (cleanupFrames wv) = [] \<Longrightarrow>
    wave_measure (w, wv\<lparr>cleanupFrames := butlast (cleanupFrames wv)\<rparr>) < wave_measure (w, wv)"
  by (cases "cleanupFrames wv" rule: rev_cases) (auto simp: wave_measure_def)

lemma wave_cleanup:
  "tasks wv = [] \<Longrightarrow> cleanupFrames wv \<noteq> [] \<Longrightarrow> last (cleanupFrames wv) = cl # cls \<Longrightarrow>
    wave_measure (run_cleanup cl w, wv\<lparr>cleanupFrames := butlast (cleanupFrames wv) @ [cls]\<rparr>) <
    wave_measure (w, wv)"
  using run_cleanup_count [of cl w]
  by (cases "cleanupFrames wv" rule: rev_cases) (auto simp: wave_measure_def cleanup_count_def)

function drainCancellationWave :: "'v world \<Rightarrow> wave \<Rightarrow> 'v world" where
  "drainCancellationWave w wv =
     (case tasks wv of
        t # ts \<Rightarrow>
          (case run_task t w (wv\<lparr>tasks := ts\<rparr>) of (w', wv') \<Rightarrow> drainCancellationWave w' wv')
      | [] \<Rightarrow>
          if cleanupFrames wv = [] then w
          else (case last (cleanupFrames wv) of
                  [] \<Rightarrow> drainCancellationWave w (wv\<lparr>cleanupFrames := butlast (cleanupFrames wv)\<rparr>)
                | cl # cls \<Rightarrow>
                    drainCancellationWave (run_cleanup cl w)
                      (wv\<lparr>cleanupFrames := butlast (cleanupFrames wv) @ [cls]\<rparr>)))"
  by pat_completeness auto
termination
  by (relation "measure wave_measure")
    (auto intro: wave_task wave_pop wave_cleanup)

declare drainCancellationWave.simps [simp del]

definition runCancellationWave :: "task \<Rightarrow> 'v world \<Rightarrow> 'v world" where
  "runCancellationWave t w = drainCancellationWave w \<lparr>tasks = [t], cleanupFrames = []\<rparr>"

definition cancel :: "nat \<Rightarrow> thrown \<Rightarrow> thrown \<Rightarrow> 'v world \<Rightarrow> 'v world" where
  "cancel c err cancellationCause w =
     (if \<not> live w c then w else runCancellationWave (T_Settle c err cancellationCause) w)"

section \<open>Creating contexts\<close>

definition addCleanup :: "nat \<Rightarrow> cleanup \<Rightarrow> 'v world \<Rightarrow> 'v world" where
  "addCleanup c cl w = set_cell c ((cells w ! c)\<lparr>cleanups := cleanups (cells w ! c) @ [cl]\<rparr>) w"

text \<open>
  \<open>signalAfterFunc\<close>: a new registration, admitted at once when its signal is aborted. It returns the
  registration and the propagation to run, if any.
\<close>

definition signalAfterFunc :: "sig_id option \<Rightarrow> reg_fn \<Rightarrow> 'v world \<Rightarrow> 'v world \<times> nat \<times> nat option" where
  "signalAfterFunc so fn w =
     (let r = length (regs w);
          w1 = w\<lparr>regs := regs w @ [\<lparr>r_state = Pending, r_listening = False, r_signal = so, r_fn = fn\<rparr>]\<rparr>
      in case so of
           None \<Rightarrow> (w1, r, None)
         | Some s \<Rightarrow>
             if aborted (signals w s) then (case admit r w1 of (w2, x) \<Rightarrow> (w2, r, x))
             else (set_signal s ((signals w s)\<lparr>listeners := listeners (signals w s) @ [r]\<rparr>)
                     (set_reg r ((regs w1 ! r)\<lparr>r_listening := True\<rparr>) w1), r, None))"

definition newCancelContext ::
    "'v ctx \<Rightarrow> js_number option \<Rightarrow> sig_id option \<Rightarrow> 'v world \<Rightarrow> 'v world \<times> nat \<times> 'v ctx" where
  "newCancelContext parent deadlineEpoch parentSignal w =
     (let c = length (cells w);
          context = CancelCtx c parent deadlineEpoch;
          w1 = w\<lparr>cells := cells w @ [\<lparr>c_parent = parent, observedErr = None, observedCause = None,
                                      cleanups = []\<rparr>]\<rparr>
      in case parentSignal of
           None \<Rightarrow> (w1, c, context)
         | Some s \<Rightarrow>
             let (w2, r, x) = signalAfterFunc (Some s) (Propagate c) w1;
                 w3 = (case x of
                         None \<Rightarrow> w2
                       | Some _ \<Rightarrow>
                           let (err, k) = readParentFailure w2 parent
                           in runCancellationWave (T_Settle c err k) w2);
                 w4 = (if err_of w3 c = None then addCleanup c (StopParent r) w3
                       else fst (stopReg r w3))
             in (w4, c, context))"

definition withCancel :: "'v ctx \<Rightarrow> 'v world \<Rightarrow> 'v world \<times> nat \<times> 'v ctx" where
  "withCancel parent w = newCancelContext parent None (resolveDone w parent) w"

text \<open>The cancel functions that \<open>withCancel\<close> and \<open>withCancelCause\<close> return.\<close>

definition cancelFunc :: "nat \<Rightarrow> 'v world \<Rightarrow> 'v world" where
  "cancelFunc c w = cancel c Canceled Canceled w"

definition cancelCauseFunc :: "nat \<Rightarrow> thrown option \<Rightarrow> 'v world \<Rightarrow> 'v world" where
  "cancelCauseFunc c k w = cancel c Canceled (case k of None \<Rightarrow> Canceled | Some k \<Rightarrow> k) w"

definition withValue :: "'v ctx \<Rightarrow> ctx_key \<Rightarrow> 'v ctx_val \<Rightarrow> 'v ctx res" where
  "withValue parent key v =
     (if key = K_Null \<or> key = K_Undefined
      then Inl (TypeError ''context value key must not be null or undefined'')
      else Inr (ValueCtx parent key v))"

definition withoutCancel :: "'v ctx \<Rightarrow> 'v ctx" where
  "withoutCancel parent = WithoutCancelCtx parent"

definition afterFunc :: "'v ctx \<Rightarrow> nat \<Rightarrow> 'v world \<Rightarrow> 'v world \<times> nat" where
  "afterFunc context fn w =
     (case signalAfterFunc (resolveDone w context) (Queued fn) w of (w', r, _) \<Rightarrow> (w', r))"

section \<open>Deadlines\<close>

definition maximumTimerDelay :: rat where
  "maximumTimerDelay = 2147483647"

definition maximumTimeClip :: rat where
  "maximumTimeClip = 8640000000000000"

definition outsideTimeClip :: "js_number \<Rightarrow> bool" where
  "outsideTimeClip n \<longleftrightarrow>
     \<not> isFinite n \<or> num_less n (Fin (- maximumTimeClip)) \<or> num_less (Fin maximumTimeClip) n"

definition snapshotWallNow :: "js_number \<Rightarrow> rat res" where
  "snapshotWallNow wallNow =
     (if outsideTimeClip wallNow then Inl (RangeError ''Date.now() must return a valid TimeClip value'')
      else Inr (rat_of wallNow))"

definition arm :: "nat \<Rightarrow> rat \<Rightarrow> 'v world \<Rightarrow> 'v world" where
  "arm t remaining w =
     (let delay = min maximumTimerDelay (max 0 remaining); tm = timers w ! t
      in if t_active tm then set_timer t (tm\<lparr>t_delay := Some delay\<rparr>) w else w)"

definition wake :: "nat \<Rightarrow> rat \<Rightarrow> 'v world \<Rightarrow> 'v world" where
  "wake t current w =
     (let tm = timers w ! t in
      if \<not> t_active tm then w
      else
        let w1 = set_timer t (tm\<lparr>t_delay := None\<rparr>) w in
        if current < t_target tm then arm t (t_target tm - current) w1
        else cancel (t_cell tm) DeadlineExceeded (t_cause tm) w1)"

definition startDeadlineTimer ::
    "nat \<Rightarrow> rat \<Rightarrow> rat \<Rightarrow> js_number \<Rightarrow> thrown \<Rightarrow> 'v world \<Rightarrow> 'v world \<times> unit res" where
  "startDeadlineTimer c requestedEpoch wallNow monotonicNow cause w =
     (if err_of w c \<noteq> None then (w, Inr ())
      else if requestedEpoch \<le> wallNow then (cancel c DeadlineExceeded cause w, Inr ())
      else if \<not> isFinite monotonicNow
      then (cancel c Canceled Canceled w,
            Inl (RangeError ''performance.now() must produce a finite monotonic target''))
      else
        let t = length (timers w);
            w1 = w\<lparr>timers := timers w @ [\<lparr>t_cell = c,
                     t_target = rat_of monotonicNow + (requestedEpoch - wallNow),
                     t_cause = cause, t_active = True, t_delay = None\<rparr>]\<rparr>;
            w2 = addCleanup c (ClearTimer t) w1
        in (arm t (requestedEpoch - wallNow) w2, Inr ()))"

text \<open>The clocks read by one call: \<open>Date.now()\<close> and \<open>performance.now()\<close>.\<close>

definition newTimedContext ::
    "'v ctx \<Rightarrow> rat \<Rightarrow> js_number option \<Rightarrow> thrown option \<Rightarrow> js_number \<Rightarrow> js_number \<Rightarrow> 'v world \<Rightarrow>
     'v world \<times> (nat \<times> 'v ctx) res" where
  "newTimedContext parent requestedEpoch parentEpoch requestedCause dateNow monotonicNow w =
     (let parentSignal = resolveDone w parent in
      if (case parentEpoch of None \<Rightarrow> False | Some e \<Rightarrow> num_less e (Fin requestedEpoch))
      then (case newCancelContext parent None parentSignal w of (w', c, x) \<Rightarrow> (w', Inr (c, x)))
      else
        case newCancelContext parent (Some (Fin requestedEpoch)) parentSignal w of (w1, c, x) \<Rightarrow>
        case snapshotWallNow dateNow of
          Inl e \<Rightarrow> (cancel c Canceled Canceled w1, Inl e)
        | Inr wallNow \<Rightarrow>
            (case startDeadlineTimer c requestedEpoch wallNow monotonicNow
                    (case requestedCause of None \<Rightarrow> DeadlineExceeded | Some k \<Rightarrow> k) w1 of
               (w2, Inl e) \<Rightarrow> (w2, Inl e)
             | (w2, Inr _) \<Rightarrow> (w2, Inr (c, x))))"

definition newDeadlineContext ::
    "'v ctx \<Rightarrow> js_number \<Rightarrow> thrown option \<Rightarrow> js_number \<Rightarrow> js_number \<Rightarrow> 'v world \<Rightarrow>
     'v world \<times> (nat \<times> 'v ctx) res" where
  "newDeadlineContext parent deadline cause dateNow monotonicNow w =
     (if \<not> isFinite deadline then (w, Inl (RangeError ''deadline must be a valid finite Date''))
      else
        case snapshotDeadline w parent of
          Inl e \<Rightarrow> (w, Inl e)
        | Inr parentEpoch \<Rightarrow>
            newTimedContext parent (rat_of deadline) parentEpoch cause dateNow monotonicNow w)"

definition trunc :: "rat \<Rightarrow> rat" where
  "trunc x = (if x < 0 then of_int \<lceil>x\<rceil> else of_int \<lfloor>x\<rfloor>)"

definition newTimeoutContext ::
    "'v ctx \<Rightarrow> js_number \<Rightarrow> thrown option \<Rightarrow> js_number \<Rightarrow> js_number \<Rightarrow> js_number \<Rightarrow> 'v world \<Rightarrow>
     'v world \<times> (nat \<times> 'v ctx) res" where
  "newTimeoutContext parent timeoutMs cause dateNow1 dateNow2 monotonicNow w =
     (if \<not> isFinite timeoutMs then (w, Inl (RangeError ''timeoutMs must be finite''))
      else
        case snapshotWallNow dateNow1 of
          Inl e \<Rightarrow> (w, Inl e)
        | Inr wallNow \<Rightarrow>
            let raw = wallNow + rat_of timeoutMs in
            if outsideTimeClip (Fin raw)
            then (w, Inl (RangeError ''timeout deadline is outside the TimeClip range''))
            else case snapshotDeadline w parent of
                   Inl e \<Rightarrow> (w, Inl e)
                 | Inr parentEpoch \<Rightarrow>
                     newTimedContext parent (trunc raw) parentEpoch cause dateNow2 monotonicNow w)"

end
