(* ===== verification/Context_Wave.thy ===== *)
theory Context_Wave
  imports Context "HOL-Library.Multiset"
begin

text \<open>
  The invariant of the context state and the effect of a cancellation wave. Between two operations
  every live cancel context listens to the Done signal of its parent (\<open>covered\<close>); during a wave it
  may instead be waiting in the queue of tasks. A wave therefore ends with every live descendant of
  the canceled context settled, with the error and the cause of that context, and with nothing
  else changed.
\<close>

section \<open>The invariant\<close>

fun ctx_ok :: "'v world \<Rightarrow> nat \<Rightarrow> 'v ctx \<Rightarrow> bool" where
  "ctx_ok w n (Root m) = (m < length (foreigns w))"
| "ctx_ok w n (CancelCtx c p d) = (c < n \<and> ctx_ok w n p)"
| "ctx_ok w n (ValueCtx p k v) = (k \<noteq> K_Cancel \<and> ctx_ok w n p)"
| "ctx_ok w n (WithoutCancelCtx p) = ctx_ok w n p"

abbreviation parent_signal :: "'v world \<Rightarrow> nat \<Rightarrow> sig_id option" where
  "parent_signal w d \<equiv> resolveDone w (c_parent (cells w ! d))"

text \<open>
  A foreign context has its own signal, and does not answer the private key by which a cancel context
  is found: it does not delegate to a context of this package.
\<close>

definition foreigns_ok :: "'v world \<Rightarrow> bool" where
  "foreigns_ok w \<longleftrightarrow>
     (\<forall>n < length (foreigns w).
        (f_done (foreigns w ! n) = None \<or> f_done (foreigns w ! n) = Some (S_Foreign n)) \<and>
        (\<forall>x. f_value (foreigns w ! n) K_Cancel \<noteq> V_Ctx x))"

definition signal_ok :: "'v world \<Rightarrow> sig_id \<Rightarrow> bool" where
  "signal_ok w s \<longleftrightarrow>
     distinct (listeners (signals w s)) \<and> (aborted (signals w s) \<longrightarrow> listeners (signals w s) = []) \<and>
     (\<forall>r \<in> set (listeners (signals w s)). r < length (regs w) \<and> r_state (regs w ! r) = Pending \<and>
        r_listening (regs w ! r) \<and> r_signal (regs w ! r) = Some s)"

definition reg_ok :: "'v world \<Rightarrow> nat \<Rightarrow> bool" where
  "reg_ok w r \<longleftrightarrow>
     (\<forall>s. r_state (regs w ! r) = Pending \<and> r_signal (regs w ! r) = Some s \<longrightarrow>
        r \<in> set (listeners (signals w s))) \<and>
     (\<forall>c. r_fn (regs w ! r) = Propagate c \<longrightarrow>
        c < length (cells w) \<and> r_signal (regs w ! r) = parent_signal w c \<and> parent_signal w c \<noteq> None)"

definition cell_ok :: "'v world \<Rightarrow> nat \<Rightarrow> bool" where
  "cell_ok w d \<longleftrightarrow>
     ctx_ok w d (c_parent (cells w ! d)) \<and> (err_of w d = None \<longleftrightarrow> cause_of w d = None) \<and>
     err_of w d \<in> {None, Some Canceled, Some DeadlineExceeded} \<and>
     (aborted (signals w (S_Cell d)) \<longleftrightarrow> err_of w d \<noteq> None) \<and>
     (err_of w d \<noteq> None \<longrightarrow> cleanups (cells w ! d) = []) \<and>
     (\<forall>r. StopParent r \<in> set (cleanups (cells w ! d)) \<longrightarrow>
        r < length (regs w) \<and> r_fn (regs w ! r) = Propagate d) \<and>
     (\<forall>t. ClearTimer t \<in> set (cleanups (cells w ! d)) \<longrightarrow> t < length (timers w) \<and> t_cell (timers w ! t) = d)"

definition base :: "'v world \<Rightarrow> bool" where
  "base w \<longleftrightarrow> foreigns_ok w \<and> (\<forall>s. signal_ok w s) \<and> (\<forall>r < length (regs w). reg_ok w r) \<and>
     (\<forall>d < length (cells w). cell_ok w d) \<and>
     (\<forall>d \<ge> length (cells w). \<not> aborted (signals w (S_Cell d)) \<and> listeners (signals w (S_Cell d)) = [])"

definition listens :: "'v world \<Rightarrow> sig_id \<Rightarrow> nat \<Rightarrow> bool" where
  "listens w s d \<longleftrightarrow> (\<exists>r \<in> set (listeners (signals w s)). r_fn (regs w ! r) = Propagate d)"

definition covered :: "'v world \<Rightarrow> task list \<Rightarrow> bool" where
  "covered w ts \<longleftrightarrow>
     (\<forall>d < length (cells w). \<forall>s. parent_signal w d = Some s \<and> err_of w d = None \<longrightarrow>
        listens w s d \<or> T_FromParent d \<in> set ts)"

definition timers_ok :: "'v world \<Rightarrow> cleanup set \<Rightarrow> bool" where
  "timers_ok w fs \<longleftrightarrow>
     (\<forall>t < length (timers w). t_active (timers w ! t) \<longrightarrow>
        t_cell (timers w ! t) < length (cells w) \<and>
        (ClearTimer t \<in> set (cleanups (cells w ! t_cell (timers w ! t))) \<or> ClearTimer t \<in> fs))"

text \<open>\<open>under w c d\<close>: cancellation of cell \<open>c\<close> reaches cell \<open>d\<close>.\<close>

inductive under :: "'v world \<Rightarrow> nat \<Rightarrow> nat \<Rightarrow> bool" for w c where
  under_self: "under w c c"
| under_child: "under w c p \<Longrightarrow> d < length (cells w) \<Longrightarrow> parent_signal w d = Some (S_Cell p) \<Longrightarrow> under w c d"

section \<open>Delegation\<close>

lemma resolveDone_cong: "foreigns w' = foreigns w \<Longrightarrow> resolveDone w' c = resolveDone w c"
  by (induction c) auto

lemma ctx_ok_cong: "foreigns w' = foreigns w \<Longrightarrow> ctx_ok w' n c = ctx_ok w n c"
  by (induction c) auto

lemma ctx_ok_mono: "ctx_ok w m c \<Longrightarrow> m \<le> n \<Longrightarrow> ctx_ok w n c"
  by (induction c) auto

text \<open>The nearest cancel context: where the signal of a context comes from.\<close>

lemma done_cell:
  assumes "foreigns_ok w" "ctx_ok w n c" "resolveDone w c = Some (S_Cell p)"
  shows "p < n \<and> resolveErr w c = err_of w p \<and> (\<exists>q d. resolveValue w c K_Cancel = V_Ctx (CancelCtx p q d))"
  using assms by (induction c) (auto simp: foreigns_ok_def)

lemma parent_failure:
  assumes "foreigns_ok w" "ctx_ok w n c" "resolveDone w c = Some (S_Cell p)"
    and "err_of w p = Some e" "cause_of w p = Some k" "e = Canceled \<or> e = DeadlineExceeded"
  shows "readParentFailure w c = (e, k)"
  using done_cell [OF assms(1-3)] assms(4-6) by (auto simp: readParentFailure_def)

section \<open>Aborting a signal\<close>

definition admit_all :: "nat list \<Rightarrow> reg list \<Rightarrow> reg list" where
  "admit_all rs xs =
     map (\<lambda>i. if i \<in> set rs then (xs ! i)\<lparr>r_state := Admitted, r_listening := False\<rparr> else xs ! i)
       [0..<length xs]"

lemma length_admit_all [simp]: "length (admit_all rs xs) = length xs"
  by (simp add: admit_all_def)

lemma nth_admit_all [simp]:
  "i < length xs \<Longrightarrow> admit_all rs xs ! i =
     (if i \<in> set rs then (xs ! i)\<lparr>r_state := Admitted, r_listening := False\<rparr> else xs ! i)"
  by (simp add: admit_all_def)

lemma admit_all_Cons:
  assumes "r < length xs"
  shows "admit_all (r # rs) xs = admit_all rs (xs[r := (xs ! r)\<lparr>r_state := Admitted, r_listening := False\<rparr>])"
  by (rule nth_equalityI) (use assms in \<open>auto simp: nth_update_if\<close>)

definition propagated :: "reg list \<Rightarrow> nat list \<Rightarrow> task list" where
  "propagated xs rs = concat (map (\<lambda>r. case r_fn (xs ! r) of Propagate c \<Rightarrow> [T_FromParent c] | _ \<Rightarrow> []) rs)"

definition queued :: "reg list \<Rightarrow> nat list \<Rightarrow> nat list" where
  "queued xs rs = concat (map (\<lambda>r. case r_fn (xs ! r) of Queued fn \<Rightarrow> [fn] | _ \<Rightarrow> []) rs)"

lemma queued_Cons: "queued xs (r # rs) = queued xs [r] @ queued xs rs"
  by (simp add: queued_def)

lemma propagated_Cons: "propagated xs (r # rs) = propagated xs [r] @ propagated xs rs"
  by (simp add: propagated_def)

lemma signal_eq: "(sg :: signal)\<lparr>aborted := a, listeners := ls\<rparr> = \<lparr>aborted = a, listeners = ls\<rparr>"
  by (cases sg) simp

lemma filter_out: "r \<notin> set rs \<Longrightarrow> filter (\<lambda>l. l \<noteq> r) rs = rs"
  by (induction rs) auto

lemma admit_step:
  assumes "pending w r" "r_listening (regs w ! r)" "r_signal (regs w ! r) = Some s"
  shows "admit r w =
    (w\<lparr>regs := (regs w)[r := (regs w ! r)\<lparr>r_state := Admitted, r_listening := False\<rparr>],
       signals := (signals w)(s := (signals w s)\<lparr>listeners := filter (\<lambda>l. l \<noteq> r) (listeners (signals w s))\<rparr>),
       microtasks := microtasks w @ queued (regs w) [r]\<rparr>,
     case r_fn (regs w ! r) of Propagate c \<Rightarrow> Some c | _ \<Rightarrow> None)"
  using assms
  by (auto simp: admit_def removeListener_def Let_def pending_def queued_def split: reg_fn.splits)

lemma dispatch_all:
  assumes "listeners (signals w s) = rs" "distinct rs"
    and "\<forall>r \<in> set rs. pending w r \<and> r_listening (regs w ! r) \<and> r_signal (regs w ! r) = Some s"
  shows "dispatch s rs w wv =
    (w\<lparr>regs := admit_all rs (regs w), signals := (signals w)(s := (signals w s)\<lparr>listeners := []\<rparr>),
       microtasks := microtasks w @ queued (regs w) rs\<rparr>,
     wv\<lparr>tasks := tasks wv @ propagated (regs w) rs\<rparr>)"
  using assms
proof (induction rs arbitrary: w wv)
  case Nil
  then show ?case
    by (simp add: admit_all_def queued_def propagated_def map_nth fun_upd_idem)
next
  case (Cons r rs)
  define w2 where "w2 = w\<lparr>regs := (regs w)[r := (regs w ! r)\<lparr>r_state := Admitted, r_listening := False\<rparr>],
       signals := (signals w)(s := (signals w s)\<lparr>listeners := rs\<rparr>),
       microtasks := microtasks w @ queued (regs w) [r]\<rparr>"
  define wv2 where "wv2 = wv\<lparr>tasks := tasks wv @ propagated (regs w) [r]\<rparr>"
  have r: "r \<notin> set rs" "r < length (regs w)" using Cons.prems by (auto simp: pending_def)
  let ?w1 = "set_signal s ((signals w s)\<lparr>listeners := filter (\<lambda>l. l \<noteq> r) (listeners (signals w s))\<rparr>) w"
  have "admit r ?w1 = (w2, case r_fn (regs w ! r) of Propagate c \<Rightarrow> Some c | _ \<Rightarrow> None)"
    using admit_step [of ?w1 r s] Cons.prems r by (simp add: pending_def w2_def filter_out)
  then have step: "dispatch s (r # rs) w wv = dispatch s rs w2 wv2"
    using Cons.prems(1) by (auto simp: wv2_def propagated_def Let_def split: reg_fn.splits)
  have fn: "queued (regs w2) rs = queued (regs w) rs" "propagated (regs w2) rs = propagated (regs w) rs"
    using r by (auto simp: queued_def propagated_def w2_def nth_list_update intro!: arg_cong [of _ _ concat])
  have "dispatch s rs w2 wv2 =
      (w2\<lparr>regs := admit_all rs (regs w2), signals := (signals w2)(s := (signals w2 s)\<lparr>listeners := []\<rparr>),
         microtasks := microtasks w2 @ queued (regs w2) rs\<rparr>,
       wv2\<lparr>tasks := tasks wv2 @ propagated (regs w2) rs\<rparr>)"
  proof (rule Cons.IH)
    show "listeners (signals w2 s) = rs" by (simp add: w2_def)
    show "distinct rs" using Cons.prems by simp
    show "\<forall>q \<in> set rs. pending w2 q \<and> r_listening (regs w2 ! q) \<and> r_signal (regs w2 ! q) = Some s"
      using Cons.prems r by (auto simp: w2_def pending_def nth_list_update)
  qed
  note closed = this
  show ?case
    unfolding step closed fn using r
    by (simp add: w2_def wv2_def admit_all_Cons queued_Cons [of _ r rs] propagated_Cons [of _ r rs]
        fun_upd_def cong: if_cong)
qed

lemma abort_all:
  assumes "signal_ok w s" "\<not> aborted (signals w s)"
  shows "abort s w wv =
    (w\<lparr>regs := admit_all (listeners (signals w s)) (regs w),
       signals := (signals w)(s := \<lparr>aborted = True, listeners = []\<rparr>),
       microtasks := microtasks w @ queued (regs w) (listeners (signals w s))\<rparr>,
     wv\<lparr>tasks := tasks wv @ propagated (regs w) (listeners (signals w s))\<rparr>)"
  using assms dispatch_all [of "set_signal s ((signals w s)\<lparr>aborted := True\<rparr>) w" s "listeners (signals w s)" wv]
  by (simp add: abort_def signal_ok_def pending_def signal_eq)

section \<open>Settling a cell\<close>

definition settled :: "'v world \<Rightarrow> nat \<Rightarrow> thrown \<Rightarrow> thrown \<Rightarrow> 'v world" where
  "settled w c e k =
     (let ls = listeners (signals w (S_Cell c)) in
      w\<lparr>cells := (cells w)[c := (cells w ! c)\<lparr>observedErr := Some e, observedCause := Some k, cleanups := []\<rparr>],
        regs := admit_all ls (regs w),
        signals := (signals w)(S_Cell c := \<lparr>aborted = True, listeners = []\<rparr>),
        microtasks := microtasks w @ queued (regs w) ls\<rparr>)"

definition settle_wave :: "'v world \<Rightarrow> nat \<Rightarrow> wave \<Rightarrow> wave" where
  "settle_wave w c wv =
     \<lparr>tasks = tasks wv @ propagated (regs w) (listeners (signals w (S_Cell c))),
      cleanupFrames = cleanupFrames wv @
        (if cleanups (cells w ! c) \<noteq> [] then [cleanups (cells w ! c)] else [])\<rparr>"

lemma settled_sel [simp]:
  "foreigns (settled w c e k) = foreigns w" "timers (settled w c e k) = timers w"
  "length (cells (settled w c e k)) = length (cells w)"
  "length (regs (settled w c e k)) = length (regs w)"
  by (simp_all add: settled_def Let_def)

lemma settled_cell [simp]:
  "d < length (cells w) \<Longrightarrow> cells (settled w c e k) ! d =
     (if d = c then (cells w ! c)\<lparr>observedErr := Some e, observedCause := Some k, cleanups := []\<rparr>
      else cells w ! d)"
  by (simp add: settled_def Let_def nth_update_if)

lemma settled_reg [simp]:
  "r < length (regs w) \<Longrightarrow> regs (settled w c e k) ! r =
     (if r \<in> set (listeners (signals w (S_Cell c)))
      then (regs w ! r)\<lparr>r_state := Admitted, r_listening := False\<rparr> else regs w ! r)"
  by (simp add: settled_def Let_def)

lemma settled_signal [simp]:
  "signals (settled w c e k) s =
     (if s = S_Cell c then \<lparr>aborted = True, listeners = []\<rparr> else signals w s)"
  by (simp add: settled_def Let_def)

lemma settled_done [simp]: "resolveDone (settled w c e k) x = resolveDone w x"
  and settled_ctx_ok [simp]: "ctx_ok (settled w c e k) n x = ctx_ok w n x"
  by (rule resolveDone_cong ctx_ok_cong, simp)+

lemma settled_c_parent [simp]:
  "d < length (cells w) \<Longrightarrow> c_parent (cells (settled w c e k) ! d) = c_parent (cells w ! d)"
  by simp

lemma baseD:
  assumes "base w"
  shows "foreigns_ok w" "signal_ok w s" "r < length (regs w) \<Longrightarrow> reg_ok w r"
    "d < length (cells w) \<Longrightarrow> cell_ok w d"
  using assms by (auto simp: base_def)

lemma listener_reg:
  assumes "base w" "r \<in> set (listeners (signals w s))"
  shows "r < length (regs w)" "r_signal (regs w ! r) = Some s" "pending w r"
  using baseD(2) [OF assms(1), of s] assms(2) by (auto simp: signal_ok_def pending_def)

lemma settle_live:
  assumes "base w" "live w c"
  shows "settle c e k w wv = (settled w c e k, settle_wave w c wv)"
proof -
  let ?w1 = "set_cell c ((cells w ! c)\<lparr>observedErr := Some e, observedCause := Some k, cleanups := []\<rparr>) w"
  have "signal_ok w (S_Cell c)" "cell_ok w c" "err_of w c = None"
    using baseD [OF assms(1)] assms(2) by (auto simp: live_def)
  then have "signal_ok ?w1 (S_Cell c)" "\<not> aborted (signals ?w1 (S_Cell c))"
    by (auto simp: signal_ok_def cell_ok_def)
  from abort_all [OF this, of wv] show ?thesis
    using assms(2) by (cases wv) (simp add: settle_def settled_def settle_wave_def Let_def)
qed

lemma settled_base:
  assumes "base w" "live w c" "e = Canceled \<or> e = DeadlineExceeded"
  shows "base (settled w c e k)"
  unfolding base_def
proof (intro conjI allI impI)
  let ?w = "settled w c e k" and ?ls = "listeners (signals w (S_Cell c))"
  have c: "c < length (cells w)" using assms(2) by (simp add: live_def)
  show "foreigns_ok ?w" using baseD(1) [OF assms(1)] by (simp add: foreigns_ok_def)
  show "signal_ok ?w s" for s
    using baseD(2) [OF assms(1), of s] baseD(2) [OF assms(1), of "S_Cell c"]
    by (auto simp: signal_ok_def)
  show "reg_ok ?w r" if r: "r < length (regs ?w)" for r
    using baseD(3) [OF assms(1), of r] r by (auto simp: reg_ok_def split: if_splits)
  show "cell_ok ?w d" if d: "d < length (cells ?w)" for d
    using baseD(4) [OF assms(1), of d] d assms(3)
    by (cases "d = c") (auto simp: cell_ok_def split: if_splits)
  fix d
  assume "length (cells ?w) \<le> d"
  then show "\<not> aborted (signals ?w (S_Cell d))" "listeners (signals ?w (S_Cell d)) = []"
    using assms(1) c by (auto simp: base_def)
qed

lemma propagated_mem:
  "T_FromParent d \<in> set (propagated xs rs) \<longleftrightarrow> (\<exists>r \<in> set rs. r_fn (xs ! r) = Propagate d)"
  by (induction rs) (auto simp: propagated_def split: reg_fn.splits)

lemma settled_covered:
  assumes "base w" "live w c" "covered w (T_FromParent c # ts)"
  shows "covered (settled w c e k) (ts @ propagated (regs w) (listeners (signals w (S_Cell c))))"
  unfolding covered_def
proof (intro allI impI)
  fix d s
  assume d: "d < length (cells (settled w c e k))"
    and s: "parent_signal (settled w c e k) d = Some s \<and> err_of (settled w c e k) d = None"
  then have ne: "d \<noteq> c" and s': "parent_signal w d = Some s" "err_of w d = None"
    by (auto split: if_splits)
  then consider "listens w s d" | "T_FromParent d \<in> set ts"
    using assms(3) d by (auto simp: covered_def)
  then show "listens (settled w c e k) s d \<or>
      T_FromParent d \<in> set (ts @ propagated (regs w) (listeners (signals w (S_Cell c))))"
  proof cases
    case 1
    then obtain r where r: "r \<in> set (listeners (signals w s))" "r_fn (regs w ! r) = Propagate d"
      by (auto simp: listens_def)
    show ?thesis
    proof (cases "s = S_Cell c")
      case True
      then show ?thesis using r by (auto simp: propagated_mem)
    next
      case False
      then have "listens (settled w c e k) s d"
        using r listener_reg [OF assms(1) r(1)] by (auto simp: listens_def intro!: bexI [of _ r])
      then show ?thesis by simp
    qed
  qed simp
qed

section \<open>A cleanup\<close>

text \<open>The queue of user callbacks is the log of admitted registrations, one entry for each.\<close>

definition admitted_fn :: "reg \<Rightarrow> nat list" where
  "admitted_fn x = (case r_fn x of Queued fn \<Rightarrow> if r_state x = Admitted then [fn] else [] | _ \<Rightarrow> [])"

definition queue_ok :: "'v world \<Rightarrow> bool" where
  "queue_ok w \<longleftrightarrow> mset (microtasks w) = mset (concat (map admitted_fn (regs w)))"

lemma mset_update:
  "i < length xs \<Longrightarrow> mset (concat (map f (xs[i := y]))) + mset (f (xs ! i)) = mset (concat (map f xs)) + mset (f y)"
proof (induction xs arbitrary: i)
  case (Cons x xs)
  then show ?case by (cases i) (auto simp: ac_simps)
qed simp

lemma queued_admitted:
  assumes "distinct rs" "\<forall>r \<in> set rs. r < length xs \<and> r_state (xs ! r) = Pending"
  shows "mset (concat (map admitted_fn (admit_all rs xs))) =
    mset (concat (map admitted_fn xs)) + mset (queued xs rs)"
  using assms
proof (induction rs arbitrary: xs)
  case Nil
  then show ?case by (simp add: admit_all_def queued_def map_nth)
next
  case (Cons r rs)
  let ?x = "(xs ! r)\<lparr>r_state := Admitted, r_listening := False\<rparr>"
  let ?xs = "xs[r := ?x]"
  have r: "r < length xs" "r_state (xs ! r) = Pending" "r \<notin> set rs" using Cons.prems by auto
  have "queued ?xs rs = queued xs rs"
    using r by (auto simp: queued_def nth_list_update intro!: arg_cong [of _ _ concat])
  moreover have "mset (concat (map admitted_fn (admit_all rs ?xs))) =
      mset (concat (map admitted_fn ?xs)) + mset (queued ?xs rs)"
    using Cons.prems r by (intro Cons.IH) (auto simp: nth_list_update)
  moreover have "mset (concat (map admitted_fn ?xs)) = mset (concat (map admitted_fn xs)) + mset (queued xs [r])"
    using mset_update [OF r(1), of admitted_fn ?x] r(2)
    by (auto simp: admitted_fn_def queued_def split: reg_fn.splits)
  ultimately show ?case
    using r by (simp add: admit_all_Cons queued_Cons [of xs r rs])
qed

lemma settled_queue:
  assumes "base w" "queue_ok w"
  shows "queue_ok (settled w c e k)"
proof -
  let ?ls = "listeners (signals w (S_Cell c))"
  have "distinct ?ls" "\<forall>r \<in> set ?ls. r < length (regs w) \<and> r_state (regs w ! r) = Pending"
    using baseD(2) [OF assms(1), of "S_Cell c"] by (auto simp: signal_ok_def)
  from queued_admitted [OF this] show ?thesis
    using assms(2) by (simp add: queue_ok_def settled_def Let_def)
qed

definition stopped :: "'v world \<Rightarrow> nat \<Rightarrow> sig_id \<Rightarrow> 'v world" where
  "stopped w r s =
     w\<lparr>regs := (regs w)[r := (regs w ! r)\<lparr>r_state := Stopped, r_listening := False\<rparr>],
       signals := (signals w)(s := (signals w s)\<lparr>listeners := filter (\<lambda>l. l \<noteq> r) (listeners (signals w s))\<rparr>)\<rparr>"

lemma stopReg_pending:
  assumes "base w" "pending w r" "r_signal (regs w ! r) = Some s"
  shows "stopReg r w = (stopped w r s, True)"
proof -
  have "r \<in> set (listeners (signals w s))"
    using baseD(3) [OF assms(1), of r] assms(2,3) by (auto simp: reg_ok_def pending_def)
  then have "r_listening (regs w ! r)"
    using baseD(2) [OF assms(1), of s] by (auto simp: signal_ok_def)
  then show ?thesis
    using assms(2,3) by (simp add: stopReg_def removeListener_def Let_def pending_def stopped_def)
qed

lemma stopped_sel [simp]:
  "foreigns (stopped w r s) = foreigns w" "timers (stopped w r s) = timers w"
  "cells (stopped w r s) = cells w" "microtasks (stopped w r s) = microtasks w"
  "length (regs (stopped w r s)) = length (regs w)"
  "q < length (regs w) \<Longrightarrow> regs (stopped w r s) ! q =
     (if q = r then (regs w ! r)\<lparr>r_state := Stopped, r_listening := False\<rparr> else regs w ! q)"
  "aborted (signals (stopped w r s) x) = aborted (signals w x)"
  "listeners (signals (stopped w r s) x) =
     (if x = s then filter (\<lambda>l. l \<noteq> r) (listeners (signals w s)) else listeners (signals w x))"
  by (auto simp: stopped_def nth_update_if)

lemma stopped_done [simp]: "resolveDone (stopped w r s) x = resolveDone w x"
  and stopped_ctx_ok [simp]: "ctx_ok (stopped w r s) n x = ctx_ok w n x"
  by (rule resolveDone_cong ctx_ok_cong, simp)+

lemma stopped_base:
  assumes "base w" "pending w r" "r_signal (regs w ! r) = Some s"
  shows "base (stopped w r s)"
  unfolding base_def
proof (intro conjI allI impI)
  let ?w = "stopped w r s"
  show "foreigns_ok ?w" using baseD(1) [OF assms(1)] by (simp add: foreigns_ok_def)
  show "signal_ok ?w x" for x
    using baseD(2) [OF assms(1), of x] assms(3) by (auto simp: signal_ok_def)
  show "reg_ok ?w q" if q: "q < length (regs ?w)" for q
    using baseD(3) [OF assms(1), of q] q by (auto simp: reg_ok_def)
  show "cell_ok ?w d" if d: "d < length (cells ?w)" for d
    using baseD(4) [OF assms(1), of d] d by (auto simp: cell_ok_def)
  fix d
  assume "length (cells ?w) \<le> d"
  then show "\<not> aborted (signals ?w (S_Cell d))" "listeners (signals ?w (S_Cell d)) = []"
    using assms(1) by (auto simp: base_def)
qed

lemma stopped_covered:
  assumes "base w" "covered w ts" "pending w r"
    and "\<forall>d. r_fn (regs w ! r) = Propagate d \<longrightarrow> err_of w d \<noteq> None"
  shows "covered (stopped w r s) ts"
  unfolding covered_def
proof (intro allI impI)
  fix d x
  assume d: "d < length (cells (stopped w r s))"
    and x: "parent_signal (stopped w r s) d = Some x \<and> err_of (stopped w r s) d = None"
  then consider "T_FromParent d \<in> set ts"
    | q where "q \<in> set (listeners (signals w x))" "r_fn (regs w ! q) = Propagate d"
    using assms(2) by (auto simp: covered_def listens_def)
  then show "listens (stopped w r s) x d \<or> T_FromParent d \<in> set ts"
  proof cases
    case 2
    then have "q \<noteq> r" using assms(4) x by auto
    then show ?thesis
      using 2 listener_reg(1) [OF assms(1) 2(1)] by (auto simp: listens_def intro!: bexI [of _ q])
  qed simp
qed

lemma stopped_queue:
  assumes "queue_ok w" "pending w r"
  shows "queue_ok (stopped w r s)"
proof -
  have r: "r < length (regs w)" "r_state (regs w ! r) = Pending"
    using assms(2) by (auto simp: pending_def)
  then have "mset (concat (map admitted_fn (regs (stopped w r s)))) = mset (concat (map admitted_fn (regs w)))"
    using mset_update [OF r(1), of admitted_fn "(regs w ! r)\<lparr>r_state := Stopped, r_listening := False\<rparr>"]
    by (auto simp: stopped_def admitted_fn_def split: reg_fn.splits)
  then show ?thesis using assms(1) by (simp add: queue_ok_def)
qed

section \<open>The wave\<close>

text \<open>What every operation keeps: terminal states are final and nothing is forgotten.\<close>

definition evolves :: "'v world \<Rightarrow> 'v world \<Rightarrow> bool" where
  "evolves w0 w \<longleftrightarrow>
     (\<forall>d < length (cells w0). d < length (cells w) \<and> c_parent (cells w ! d) = c_parent (cells w0 ! d) \<and>
        (err_of w0 d \<noteq> None \<longrightarrow> err_of w d = err_of w0 d \<and> cause_of w d = cause_of w0 d)) \<and>
     (\<forall>r < length (regs w0). r < length (regs w) \<and> r_fn (regs w ! r) = r_fn (regs w0 ! r) \<and>
        r_signal (regs w ! r) = r_signal (regs w0 ! r) \<and>
        (r_state (regs w0 ! r) \<noteq> Pending \<longrightarrow> r_state (regs w ! r) = r_state (regs w0 ! r))) \<and>
     (\<forall>t < length (timers w0). t < length (timers w) \<and> t_cell (timers w ! t) = t_cell (timers w0 ! t) \<and>
        t_target (timers w ! t) = t_target (timers w0 ! t) \<and> t_cause (timers w ! t) = t_cause (timers w0 ! t) \<and>
        (t_active (timers w ! t) \<longrightarrow> t_active (timers w0 ! t)))"

lemma evolves_refl: "evolves w w"
  by (auto simp: evolves_def)

lemma evolves_trans: "evolves w0 w1 \<Longrightarrow> evolves w1 w2 \<Longrightarrow> evolves w0 w2"
  unfolding evolves_def by (intro conjI allI impI) (metis (no_types, lifting))+

text \<open>The effect of a wave that starts at \<open>a0\<close> with error \<open>e\<close> and cause \<open>k\<close>.\<close>

definition wave_effect :: "'v world \<Rightarrow> nat \<Rightarrow> thrown \<Rightarrow> thrown \<Rightarrow> 'v world \<Rightarrow> bool" where
  "wave_effect w0 a0 e k w \<longleftrightarrow>
     foreigns w = foreigns w0 \<and> length (cells w) = length (cells w0) \<and>
     length (regs w) = length (regs w0) \<and> length (timers w) = length (timers w0) \<and>
     (\<forall>d < length (cells w0). err_of w0 d = None \<and> err_of w d \<noteq> None \<longrightarrow>
        under w0 a0 d \<and> err_of w d = Some e \<and> cause_of w d = Some k)"

definition tasks_ok :: "'v world \<Rightarrow> nat \<Rightarrow> thrown \<Rightarrow> thrown \<Rightarrow> 'v world \<Rightarrow> task list \<Rightarrow> bool" where
  "tasks_ok w0 a0 e k w ts \<longleftrightarrow>
     (\<forall>t \<in> set ts. \<exists>d p. t = T_FromParent d \<and> d < length (cells w) \<and> p < length (cells w) \<and>
        parent_signal w d = Some (S_Cell p) \<and> under w0 a0 p \<and>
        err_of w p = Some e \<and> cause_of w p = Some k)"

definition frames_ok :: "'v world \<Rightarrow> cleanup set \<Rightarrow> bool" where
  "frames_ok w fs \<longleftrightarrow>
     (\<forall>r. StopParent r \<in> fs \<longrightarrow> r < length (regs w) \<and>
        (\<exists>d < length (cells w). r_fn (regs w ! r) = Propagate d \<and> err_of w d \<noteq> None)) \<and>
     (\<forall>t. ClearTimer t \<in> fs \<longrightarrow> t < length (timers w) \<and> t_cell (timers w ! t) < length (cells w) \<and>
        err_of w (t_cell (timers w ! t)) \<noteq> None)"

abbreviation frame_set :: "wave \<Rightarrow> cleanup set" where
  "frame_set wv \<equiv> \<Union> (set ` set (cleanupFrames wv))"

definition wave_inv :: "'v world \<Rightarrow> nat \<Rightarrow> thrown \<Rightarrow> thrown \<Rightarrow> 'v world \<Rightarrow> wave \<Rightarrow> bool" where
  "wave_inv w0 a0 e k w wv \<longleftrightarrow>
     base w \<and> queue_ok w \<and> covered w (tasks wv) \<and> timers_ok w (frame_set wv) \<and>
     tasks_ok w0 a0 e k w (tasks wv) \<and> frames_ok w (frame_set wv) \<and>
     evolves w0 w \<and> wave_effect w0 a0 e k w \<and> a0 < length (cells w) \<and> err_of w a0 \<noteq> None"

lemma settled_evolves: "base w \<Longrightarrow> live w c \<Longrightarrow> evolves w (settled w c e k)"
  using listener_reg(3) [of w] by (auto simp: evolves_def live_def pending_def)

lemma covered_drop: "covered w (T_FromParent c # ts) \<Longrightarrow> \<not> live w c \<Longrightarrow> covered w ts"
  by (fastforce simp: covered_def live_def)

lemma settled_timers:
  assumes "timers_ok w fs" "live w c"
  shows "timers_ok (settled w c e k) (fs \<union> set (cleanups (cells w ! c)))"
  using assms by (auto simp: timers_ok_def)

lemma settled_frames:
  assumes "base w" "frames_ok w fs" "live w c"
  shows "frames_ok (settled w c e k) (fs \<union> set (cleanups (cells w ! c)))"
proof -
  have "cell_ok w c" "c < length (cells w)"
    using baseD(4) [OF assms(1), of c] assms(3) by (auto simp: live_def)
  then show ?thesis
    using assms(2) by (auto simp: frames_ok_def cell_ok_def)
qed

lemma settled_tasks:
  assumes "base w" "live w c" "tasks_ok w0 a0 e k w ts" "under w0 a0 c"
  shows "tasks_ok w0 a0 e k (settled w c e k) (ts @ propagated (regs w) (listeners (signals w (S_Cell c))))"
  unfolding tasks_ok_def
proof
  fix t
  assume "t \<in> set (ts @ propagated (regs w) (listeners (signals w (S_Cell c))))"
  then consider "t \<in> set ts"
    | r d where "t = T_FromParent d" "r \<in> set (listeners (signals w (S_Cell c)))" "r_fn (regs w ! r) = Propagate d"
    by (auto simp: propagated_def split: reg_fn.splits)
  then show "\<exists>d p. t = T_FromParent d \<and> d < length (cells (settled w c e k)) \<and>
      p < length (cells (settled w c e k)) \<and> parent_signal (settled w c e k) d = Some (S_Cell p) \<and>
      under w0 a0 p \<and> err_of (settled w c e k) p = Some e \<and> cause_of (settled w c e k) p = Some k"
  proof cases
    case 1
    then obtain d p where "t = T_FromParent d" "d < length (cells w)" "p < length (cells w)"
      "parent_signal w d = Some (S_Cell p)" "under w0 a0 p" "err_of w p = Some e" "cause_of w p = Some k"
      using assms(3) by (auto simp: tasks_ok_def)
    then show ?thesis by (intro exI [of _ d] exI [of _ p]) auto
  next
    case 2
    have "d < length (cells w)" "parent_signal w d = Some (S_Cell c)"
      using baseD(3) [OF assms(1)] listener_reg [OF assms(1) 2(2)] 2(3) by (auto simp: reg_ok_def)
    then show ?thesis
      using 2 assms(2,4) by (intro exI [of _ d] exI [of _ c]) (auto simp: live_def)
  qed
qed

lemma settle_frame_set:
  "frame_set (settle_wave w c wv) = frame_set wv \<union> set (cleanups (cells w ! c))"
  by (auto simp: settle_wave_def)

lemma settled_effect:
  assumes "wave_effect w0 a0 e k w" "live w c" "under w0 a0 c"
  shows "wave_effect w0 a0 e k (settled w c e k)"
  using assms by (auto simp: wave_effect_def)

lemma wave_settle_live:
  assumes b: "base w" "queue_ok w" "covered w (T_FromParent c # ts)" "timers_ok w (frame_set wv)"
    "tasks_ok w0 a0 e k w ts" "frames_ok w (frame_set wv)" "evolves w0 w" "wave_effect w0 a0 e k w"
    and c: "under w0 a0 c" "live w c"
    and a0: "a0 < length (cells w)" "a0 = c \<or> err_of w a0 \<noteq> None"
    and e: "e = Canceled \<or> e = DeadlineExceeded"
    and run: "settle c e k w (wv\<lparr>tasks := ts\<rparr>) = (w', wv')"
  shows "wave_inv w0 a0 e k w' wv'"
proof -
  have w': "w' = settled w c e k" "wv' = settle_wave w c (wv\<lparr>tasks := ts\<rparr>)"
    using settle_live [OF b(1) c(2), of e k "wv\<lparr>tasks := ts\<rparr>"] run by auto
  have t: "tasks wv' = ts @ propagated (regs w) (listeners (signals w (S_Cell c)))"
    by (simp add: w' settle_wave_def)
  have f: "frame_set wv' = frame_set wv \<union> set (cleanups (cells w ! c))"
    by (simp add: w' settle_frame_set)
  have "err_of (settled w c e k) a0 \<noteq> None" using a0 by auto
  then show ?thesis
    unfolding wave_inv_def t f unfolding w'
    using settled_base [OF b(1) c(2) e] settled_queue [OF b(1,2)] settled_covered [OF b(1) c(2) b(3)]
      settled_timers [OF b(4) c(2)] settled_frames [OF b(1,6) c(2)]
      settled_tasks [OF b(1) c(2) b(5) c(1)]
      evolves_trans [OF b(7) settled_evolves [OF b(1) c(2)]] settled_effect [OF b(8) c(2,1)] a0(1)
    by simp
qed

lemma wave_settle:
  assumes inv: "wave_inv w0 a0 e k w (wv\<lparr>tasks := T_FromParent c # ts\<rparr>)" and "under w0 a0 c"
    and e: "e = Canceled \<or> e = DeadlineExceeded"
    and run: "settle c e k w (wv\<lparr>tasks := ts\<rparr>) = (w', wv')"
  shows "wave_inv w0 a0 e k w' wv'"
proof (cases "live w c")
  case True
  then show ?thesis
    using inv by (intro wave_settle_live [OF _ _ _ _ _ _ _ _ assms(2) _ _ _ e run])
      (auto simp: wave_inv_def tasks_ok_def)
next
  case False
  then have "w' = w" "wv' = wv\<lparr>tasks := ts\<rparr>" using run by (auto simp: settle_def)
  then show ?thesis
    using inv False covered_drop [of w c ts] by (auto simp: wave_inv_def tasks_ok_def)
qed

lemma wave_task_step:
  assumes inv: "wave_inv w0 a0 e k w wv" and ts: "tasks wv = t # ts"
    and e: "e = Canceled \<or> e = DeadlineExceeded"
    and run: "run_task t w (wv\<lparr>tasks := ts\<rparr>) = (w', wv')"
  shows "wave_inv w0 a0 e k w' wv'"
proof -
  have b: "base w" and ev: "evolves w0 w" and eff: "wave_effect w0 a0 e k w"
    using inv by (auto simp: wave_inv_def)
  obtain c p where t: "t = T_FromParent c" and c: "c < length (cells w)"
    and p: "parent_signal w c = Some (S_Cell p)" "under w0 a0 p" "err_of w p = Some e" "cause_of w p = Some k"
    using inv ts by (auto simp: wave_inv_def tasks_ok_def)
  have "ctx_ok w c (c_parent (cells w ! c))"
    using baseD(4) [OF b c] by (simp add: cell_ok_def)
  then have "readParentFailure w (c_parent (cells w ! c)) = (e, k)"
    using parent_failure [OF baseD(1) [OF b]] p e by blast
  then have "settle c e k w (wv\<lparr>tasks := ts\<rparr>) = (w', wv')"
    using run by (simp add: run_task_def t)
  moreover have "parent_signal w0 c = Some (S_Cell p)" "c < length (cells w0)"
    using p(1) c ev eff resolveDone_cong [of w w0] by (auto simp: evolves_def wave_effect_def)
  then have "under w0 a0 c" using p(2) by (auto intro: under_child)
  moreover have "wv = wv\<lparr>tasks := T_FromParent c # ts\<rparr>" using ts t by (cases wv) simp
  ultimately show ?thesis using wave_settle inv e by metis
qed

lemma frames_ok_mono: "frames_ok w fs \<Longrightarrow> fs' \<subseteq> fs \<Longrightarrow> frames_ok w fs'"
  by (auto simp: frames_ok_def)

lemma timers_ok_mono: "timers_ok w fs \<Longrightarrow> fs \<subseteq> fs' \<Longrightarrow> timers_ok w fs'"
  by (auto simp: timers_ok_def)

lemma clear_world [simp]:
  "foreigns (clearTimer t w) = foreigns w" "cells (clearTimer t w) = cells w"
  "signals (clearTimer t w) = signals w" "regs (clearTimer t w) = regs w"
  "microtasks (clearTimer t w) = microtasks w" "length (timers (clearTimer t w)) = length (timers w)"
  "u < length (timers w) \<Longrightarrow> timers (clearTimer t w) ! u =
     (if u = t then (timers w ! t)\<lparr>t_active := False, t_delay := None\<rparr> else timers w ! u)"
  by (auto simp: clearTimer_def nth_update_if)

lemma clear_done [simp]: "resolveDone (clearTimer t w) x = resolveDone w x"
  and clear_ctx_ok [simp]: "ctx_ok (clearTimer t w) n x = ctx_ok w n x"
  by (rule resolveDone_cong ctx_ok_cong, simp)+

lemma clear_ok:
  "foreigns_ok (clearTimer t w) = foreigns_ok w" "signal_ok (clearTimer t w) s = signal_ok w s"
  "reg_ok (clearTimer t w) r = reg_ok w r"
  by (simp_all add: foreigns_ok_def signal_ok_def reg_ok_def)

lemma clear_cell_ok: "cell_ok w d \<Longrightarrow> cell_ok (clearTimer t w) d"
  by (auto simp: cell_ok_def)

lemma clear_inv:
  assumes "wave_inv w0 a0 e k w wv" "fs \<subseteq> frame_set wv" "frame_set wv \<subseteq> insert (ClearTimer t) fs"
  shows "base (clearTimer t w)" "queue_ok (clearTimer t w)" "covered (clearTimer t w) (tasks wv)"
    "timers_ok (clearTimer t w) fs" "tasks_ok w0 a0 e k (clearTimer t w) (tasks wv)"
    "frames_ok (clearTimer t w) fs" "evolves w0 (clearTimer t w)" "wave_effect w0 a0 e k (clearTimer t w)"
proof -
  have inv: "base w" "queue_ok w" "covered w (tasks wv)" "timers_ok w (frame_set wv)"
    "tasks_ok w0 a0 e k w (tasks wv)" "frames_ok w (frame_set wv)" "evolves w0 w" "wave_effect w0 a0 e k w"
    using assms(1) by (auto simp: wave_inv_def)
  show "base (clearTimer t w)"
    using inv(1) unfolding base_def by (auto simp: clear_ok clear_cell_ok)
  show "queue_ok (clearTimer t w)" using inv(2) by (simp add: queue_ok_def)
  show "covered (clearTimer t w) (tasks wv)" using inv(3) by (simp add: covered_def listens_def)
  show "timers_ok (clearTimer t w) fs" using inv(4) assms(3) by (auto simp: timers_ok_def)
  show "tasks_ok w0 a0 e k (clearTimer t w) (tasks wv)" using inv(5) by (simp add: tasks_ok_def)
  show "frames_ok (clearTimer t w) fs"
    using frames_ok_mono [OF inv(6) assms(2)] by (auto simp: frames_ok_def)
  show "evolves w0 (clearTimer t w)" using inv(7) by (auto simp: evolves_def)
  show "wave_effect w0 a0 e k (clearTimer t w)" using inv(8) by (simp add: wave_effect_def)
qed

lemma stopped_evolves: "pending w r \<Longrightarrow> evolves w (stopped w r s)"
  by (auto simp: evolves_def pending_def)

lemma stop_inv:
  assumes "wave_inv w0 a0 e k w wv" "fs \<subseteq> frame_set wv" "frame_set wv \<subseteq> insert (StopParent r) fs"
    and "StopParent r \<in> frame_set wv" "w' = fst (stopReg r w)"
  shows "base w'" "queue_ok w'" "covered w' (tasks wv)" "timers_ok w' fs" "tasks_ok w0 a0 e k w' (tasks wv)"
    "frames_ok w' fs" "evolves w0 w'" "wave_effect w0 a0 e k w'"
proof -
  have inv: "base w" "queue_ok w" "covered w (tasks wv)" "timers_ok w (frame_set wv)"
    "tasks_ok w0 a0 e k w (tasks wv)" "frames_ok w (frame_set wv)" "evolves w0 w" "wave_effect w0 a0 e k w"
    using assms(1) by (auto simp: wave_inv_def)
  have t: "timers_ok w fs" using inv(4) assms(3) by (auto simp: timers_ok_def)
  have f: "frames_ok w fs" using frames_ok_mono [OF inv(6) assms(2)] .
  consider (same) "w' = w" | (stop) s where "pending w r" "w' = stopped w r s" "r_signal (regs w ! r) = Some s"
      "\<forall>d. r_fn (regs w ! r) = Propagate d \<longrightarrow> err_of w d \<noteq> None"
  proof (cases "pending w r")
    case False
    then show thesis using that(1) assms(5) by (simp add: stopReg_def)
  next
    case True
    obtain d where d: "r_fn (regs w ! r) = Propagate d" "err_of w d \<noteq> None"
      using inv(6) assms(4) by (auto simp: frames_ok_def)
    then obtain s where "r_signal (regs w ! r) = Some s"
      using baseD(3) [OF inv(1), of r] True by (auto simp: reg_ok_def pending_def)
    then show thesis using that(2) [OF True] stopReg_pending [OF inv(1) True] assms(5) d by auto
  qed
  then have "base w' \<and> queue_ok w' \<and> covered w' (tasks wv) \<and> timers_ok w' fs \<and>
      tasks_ok w0 a0 e k w' (tasks wv) \<and> frames_ok w' fs \<and> evolves w0 w' \<and> wave_effect w0 a0 e k w'"
  proof cases
    case same
    then show ?thesis using inv t f by simp
  next
    case stop
    have "timers_ok w' fs" "tasks_ok w0 a0 e k w' (tasks wv)" "frames_ok w' fs" "wave_effect w0 a0 e k w'"
      using t inv(5,8) f by (auto simp: stop(2) timers_ok_def tasks_ok_def frames_ok_def wave_effect_def)
    then show ?thesis
      using stop stopped_base [OF inv(1) stop(1,3)] stopped_queue [OF inv(2) stop(1)]
        stopped_covered [OF inv(1,3) stop(1,4)] evolves_trans [OF inv(7) stopped_evolves [OF stop(1)]] by simp
  qed
  then show "base w'" "queue_ok w'" "covered w' (tasks wv)" "timers_ok w' fs" "tasks_ok w0 a0 e k w' (tasks wv)"
    "frames_ok w' fs" "evolves w0 w'" "wave_effect w0 a0 e k w'" by auto
qed

lemma wave_cleanup_step:
  assumes inv: "wave_inv w0 a0 e k w wv" and fr: "cleanupFrames wv \<noteq> []" "last (cleanupFrames wv) = cl # cls"
  shows "wave_inv w0 a0 e k (run_cleanup cl w) (wv\<lparr>cleanupFrames := butlast (cleanupFrames wv) @ [cls]\<rparr>)"
proof -
  let ?wv = "wv\<lparr>cleanupFrames := butlast (cleanupFrames wv) @ [cls]\<rparr>"
  have fs: "frame_set ?wv \<subseteq> frame_set wv" "frame_set wv \<subseteq> insert cl (frame_set ?wv)" "cl \<in> frame_set wv"
    using fr by (cases "cleanupFrames wv" rule: rev_cases; auto)+
  show ?thesis
  proof (cases cl)
    case (StopParent r)
    from stop_inv [OF inv fs(1) fs(2) [unfolded StopParent] fs(3) [unfolded StopParent] refl]
    show ?thesis
      using inv run_cleanup_count [of cl w] by (simp add: wave_inv_def run_cleanup_def StopParent)
  next
    case (ClearTimer t)
    from clear_inv [OF inv fs(1) fs(2) [unfolded ClearTimer]]
    show ?thesis using inv by (simp add: wave_inv_def run_cleanup_def ClearTimer)
  qed
qed

lemma drain_inv:
  assumes "wave_inv w0 a0 e k w wv" "e = Canceled \<or> e = DeadlineExceeded"
  shows "wave_inv w0 a0 e k (drainCancellationWave w wv) \<lparr>tasks = [], cleanupFrames = []\<rparr>"
  using assms(1)
proof (induction w wv rule: drainCancellationWave.induct)
  case (1 w wv)
  show ?case
  proof (cases "tasks wv")
    case (Cons t ts)
    obtain w' wv' where r: "run_task t w (wv\<lparr>tasks := ts\<rparr>) = (w', wv')" by fastforce
    have "wave_inv w0 a0 e k w' wv'" using wave_task_step [OF 1(4) Cons assms(2) r] .
    then show ?thesis
      using 1(3) [OF Cons r [symmetric]] Cons r by (subst drainCancellationWave.simps) simp
  next
    case Nil
    show ?thesis
    proof (cases "cleanupFrames wv = []")
      case True
      then show ?thesis
        using 1(4) Nil by (subst drainCancellationWave.simps) (simp add: wave_inv_def)
    next
      case False
      show ?thesis
      proof (cases "last (cleanupFrames wv)")
        case e: Nil
        have "frame_set (wv\<lparr>cleanupFrames := butlast (cleanupFrames wv)\<rparr>) = frame_set wv"
          using False e by (cases "cleanupFrames wv" rule: rev_cases) auto
        then have "wave_inv w0 a0 e k w (wv\<lparr>cleanupFrames := butlast (cleanupFrames wv)\<rparr>)"
          using 1(4) by (simp add: wave_inv_def)
        then show ?thesis
          using 1(1) [OF Nil False e] Nil False e by (subst drainCancellationWave.simps) simp
      next
        case (Cons cl cls)
        then show ?thesis
          using 1(2) [OF Nil False Cons wave_cleanup_step [OF 1(4) False Cons]] Nil False
          by (subst drainCancellationWave.simps) simp
      qed
    qed
  qed
qed

definition inv :: "'v world \<Rightarrow> bool" where
  "inv w \<longleftrightarrow> base w \<and> queue_ok w \<and> covered w [] \<and> timers_ok w {}"

lemma covered_mono: "covered w ts \<Longrightarrow> set ts \<subseteq> set ts' \<Longrightarrow> covered w ts'"
  by (fastforce simp: covered_def)

lemma effect_refl: "wave_effect w a0 e k w"
  by (auto simp: wave_effect_def)

lemma settle_run:
  assumes b: "base w" "queue_ok w" "covered w [T_FromParent c]" "timers_ok w {}"
    and "live w c" "e = Canceled \<or> e = DeadlineExceeded"
    and w'_def: "w' = runCancellationWave (T_Settle c e k) w"
  shows "inv w' \<and> evolves w w' \<and> wave_effect w c e k w' \<and> err_of w' c = Some e \<and> cause_of w' c = Some k"
proof -
  let ?wv = "\<lparr>tasks = [T_Settle c e k], cleanupFrames = []\<rparr>" and ?wv0 = "\<lparr>tasks = [], cleanupFrames = []\<rparr>"
  have c: "c < length (cells w)" "err_of w c = None" using assms(5) by (auto simp: live_def)
  obtain w1 wv1 where s: "settle c e k w (?wv0\<lparr>tasks := []\<rparr>) = (w1, wv1)" by fastforce
  have "tasks_ok w c e k w []" "frames_ok w (frame_set ?wv0)" "timers_ok w (frame_set ?wv0)"
    using b(4) by (simp_all add: tasks_ok_def frames_ok_def)
  then have i1: "wave_inv w c e k w1 wv1"
    using wave_settle_live [OF b(1-3) _ _ _ evolves_refl effect_refl under_self assms(5) c(1) _ assms(6) s]
    by blast
  have run: "w' = drainCancellationWave w1 wv1"
    unfolding w'_def runCancellationWave_def
    using s by (subst drainCancellationWave.simps) (simp add: run_task_def)
  have d: "wave_inv w c e k w' ?wv0" using drain_inv [OF i1 assms(6)] by (simp add: run)
  then have "err_of w' c = Some e \<and> cause_of w' c = Some k"
    using c by (auto simp: wave_inv_def wave_effect_def)
  then show ?thesis using d by (auto simp: wave_inv_def inv_def)
qed

text \<open>A wave reaches every descendant: at its end no live cell has a settled parent.\<close>

lemma under_settled:
  assumes "inv w'" "under w c d" "evolves w w'" "foreigns w' = foreigns w" "c < length (cells w)" "err_of w' c \<noteq> None"
  shows "d < length (cells w) \<and> err_of w' d \<noteq> None"
  using assms(2)
proof (induction rule: under.induct)
  case under_self
  then show ?case using assms(5,6) by simp
next
  case (under_child p d)
  have d: "d < length (cells w')" "parent_signal w' d = Some (S_Cell p)"
    using assms(3,4) under_child resolveDone_cong [of w' w] by (auto simp: evolves_def)
  have p: "p < length (cells w')" using assms(3) under_child by (auto simp: evolves_def)
  have b: "base w'" "covered w' []" using assms(1) by (auto simp: inv_def)
  have "aborted (signals w' (S_Cell p))"
    using baseD(4) [OF b(1) p] under_child by (auto simp: cell_ok_def)
  then have "listeners (signals w' (S_Cell p)) = []"
    using baseD(2) [OF b(1), of "S_Cell p"] by (simp add: signal_ok_def)
  then have "err_of w' d \<noteq> None"
    using b(2) d by (fastforce simp: covered_def listens_def)
  then show ?case using under_child by simp
qed

lemma cancel_run:
  assumes "inv w" "live w c" "e = Canceled \<or> e = DeadlineExceeded"
  shows "inv (cancel c e k w) \<and> evolves w (cancel c e k w) \<and> foreigns (cancel c e k w) = foreigns w \<and>
    length (cells (cancel c e k w)) = length (cells w) \<and>
    length (regs (cancel c e k w)) = length (regs w) \<and> length (timers (cancel c e k w)) = length (timers w) \<and>
    (\<forall>d < length (cells w). err_of w d = None \<longrightarrow>
       (err_of (cancel c e k w) d, cause_of (cancel c e k w) d) =
         (if under w c d then (Some e, Some k) else (None, None)))"
proof -
  let ?w = "cancel c e k w"
  have r: "inv ?w" "evolves w ?w" "wave_effect w c e k ?w" "err_of ?w c = Some e"
    using settle_run [OF _ _ _ _ assms(2,3), of "cancel c e k w" k] assms(1,2) covered_mono [of w "[]"]
    by (auto simp: cancel_def inv_def)
  have f: "foreigns ?w = foreigns w" "length (cells ?w) = length (cells w)"
    using r(3) by (auto simp: wave_effect_def)
  have "(err_of ?w d, cause_of ?w d) = (if under w c d then (Some e, Some k) else (None, None))"
    if d: "d < length (cells w)" "err_of w d = None" for d
  proof (cases "under w c d")
    case True
    then have "err_of ?w d \<noteq> None"
      using under_settled [OF r(1) True r(2) f(1)] r(4) assms(2) by (auto simp: live_def)
    then show ?thesis using r(3) d True by (auto simp: wave_effect_def)
  next
    case False
    then have "err_of ?w d = None" using r(3) d by (auto simp: wave_effect_def)
    moreover have "cell_ok ?w d" using r(1) d f(2) by (auto simp: inv_def base_def)
    ultimately show ?thesis using False by (simp add: cell_ok_def)
  qed
  then show ?thesis using r f by (auto simp: wave_effect_def)
qed

end
