(* ===== verification/Context_Ops.thy ===== *)
theory Context_Ops
  imports Context_Wave
begin

text \<open>
  Every operation of the context package keeps the invariant. A run is a sequence of calls of the
  exported functions, of the cancel and stop functions they returned, and of timer events; the
  properties at the end hold in every state that a run reaches.
\<close>

section \<open>Growing the state\<close>

definition add_cell :: "'v ctx \<Rightarrow> 'v world \<Rightarrow> 'v world" where
  "add_cell p w =
     w\<lparr>cells := cells w @ [\<lparr>c_parent = p, observedErr = None, observedCause = None, cleanups = []\<rparr>]\<rparr>"

lemma add_cell_sel [simp]:
  "foreigns (add_cell p w) = foreigns w" "regs (add_cell p w) = regs w"
  "signals (add_cell p w) = signals w" "timers (add_cell p w) = timers w"
  "microtasks (add_cell p w) = microtasks w" "length (cells (add_cell p w)) = Suc (length (cells w))"
  "d < length (cells w) \<Longrightarrow> cells (add_cell p w) ! d = cells w ! d"
  "cells (add_cell p w) ! length (cells w) =
     \<lparr>c_parent = p, observedErr = None, observedCause = None, cleanups = []\<rparr>"
  by (simp_all add: add_cell_def nth_append)

lemma add_cell_done [simp]: "resolveDone (add_cell p w) x = resolveDone w x"
  and add_cell_ctx_ok [simp]: "ctx_ok (add_cell p w) n x = ctx_ok w n x"
  by (rule resolveDone_cong ctx_ok_cong, simp)+

lemma add_cell_base:
  assumes "base w" "ctx_ok w (length (cells w)) p"
  shows "base (add_cell p w)"
  unfolding base_def
proof (intro conjI allI impI)
  let ?w = "add_cell p w"
  show "foreigns_ok ?w" using baseD(1) [OF assms(1)] by (simp add: foreigns_ok_def)
  show "signal_ok ?w s" for s using baseD(2) [OF assms(1), of s] by (simp add: signal_ok_def)
  show "reg_ok ?w r" if "r < length (regs ?w)" for r
    using baseD(3) [OF assms(1), of r] that by (auto simp: reg_ok_def)
  show "cell_ok ?w d" if d: "d < length (cells ?w)" for d
  proof (cases "d < length (cells w)")
    case True
    then show ?thesis using baseD(4) [OF assms(1) True] by (auto simp: cell_ok_def)
  next
    case False
    then have "d = length (cells w)" using d by simp
    then show ?thesis using assms by (auto simp: cell_ok_def base_def)
  qed
  fix d
  assume "length (cells ?w) \<le> d"
  then show "\<not> aborted (signals ?w (S_Cell d))" "listeners (signals ?w (S_Cell d)) = []"
    using assms(1) by (auto simp: base_def)
qed

lemma add_cell_rest:
  assumes "inv w"
  shows "queue_ok (add_cell p w)" "timers_ok (add_cell p w) {}" "evolves w (add_cell p w)"
    "covered (add_cell p w) [T_FromParent (length (cells w))]"
    "resolveDone w p = None \<Longrightarrow> covered (add_cell p w) []"
proof -
  show "queue_ok (add_cell p w)" using assms by (simp add: inv_def queue_ok_def)
  show "timers_ok (add_cell p w) {}" using assms by (auto simp: inv_def timers_ok_def)
  show "evolves w (add_cell p w)" by (simp add: evolves_def)
  show "covered (add_cell p w) [T_FromParent (length (cells w))]"
    using assms by (auto simp: inv_def covered_def listens_def less_Suc_eq)
  show "covered (add_cell p w) []" if "resolveDone w p = None"
    using assms that by (auto simp: inv_def covered_def listens_def less_Suc_eq)
qed

definition add_reg :: "reg \<Rightarrow> 'v world \<Rightarrow> 'v world" where
  "add_reg x w = w\<lparr>regs := regs w @ [x]\<rparr>"

definition listen :: "sig_id \<Rightarrow> reg_fn \<Rightarrow> 'v world \<Rightarrow> 'v world" where
  "listen s fn w =
     w\<lparr>regs := regs w @ [\<lparr>r_state = Pending, r_listening = True, r_signal = Some s, r_fn = fn\<rparr>],
       signals := (signals w)(s := (signals w s)\<lparr>listeners := listeners (signals w s) @ [length (regs w)]\<rparr>)\<rparr>"

lemma add_reg_sel [simp]:
  "foreigns (add_reg x w) = foreigns w" "cells (add_reg x w) = cells w"
  "signals (add_reg x w) = signals w" "timers (add_reg x w) = timers w"
  "microtasks (add_reg x w) = microtasks w" "length (regs (add_reg x w)) = Suc (length (regs w))"
  "r < length (regs w) \<Longrightarrow> regs (add_reg x w) ! r = regs w ! r"
  "regs (add_reg x w) ! length (regs w) = x"
  by (simp_all add: add_reg_def nth_append)

lemma listen_sel [simp]:
  "foreigns (listen s fn w) = foreigns w" "cells (listen s fn w) = cells w"
  "timers (listen s fn w) = timers w" "microtasks (listen s fn w) = microtasks w"
  "length (regs (listen s fn w)) = Suc (length (regs w))"
  "r < length (regs w) \<Longrightarrow> regs (listen s fn w) ! r = regs w ! r"
  "regs (listen s fn w) ! length (regs w) =
     \<lparr>r_state = Pending, r_listening = True, r_signal = Some s, r_fn = fn\<rparr>"
  "aborted (signals (listen s fn w) x) = aborted (signals w x)"
  "listeners (signals (listen s fn w) x) =
     (if x = s then listeners (signals w s) @ [length (regs w)] else listeners (signals w x))"
  by (simp_all add: listen_def nth_append)

lemma listen_done [simp]: "resolveDone (listen s fn w) x = resolveDone w x"
  and listen_ctx_ok [simp]: "ctx_ok (listen s fn w) n x = ctx_ok w n x"
  and add_reg_done [simp]: "resolveDone (add_reg y w) x = resolveDone w x"
  and add_reg_ctx_ok [simp]: "ctx_ok (add_reg y w) n x = ctx_ok w n x"
  by (rule resolveDone_cong ctx_ok_cong, simp)+

lemma listen_base:
  assumes "base w" "\<not> aborted (signals w s)" "\<forall>d. s = S_Cell d \<longrightarrow> d < length (cells w)"
    and "\<forall>c. fn = Propagate c \<longrightarrow> c < length (cells w) \<and> parent_signal w c = Some s"
  shows "base (listen s fn w)"
  unfolding base_def
proof (intro conjI allI impI)
  let ?w = "listen s fn w"
  show "foreigns_ok ?w" using baseD(1) [OF assms(1)] by (simp add: foreigns_ok_def)
  show "signal_ok ?w x" for x
    using baseD(2) [OF assms(1), of x] assms(2) by (auto simp: signal_ok_def)
  show "reg_ok ?w r" if r: "r < length (regs ?w)" for r
  proof (cases "r < length (regs w)")
    case True
    then show ?thesis using baseD(3) [OF assms(1) True] by (auto simp: reg_ok_def)
  next
    case False
    then have "r = length (regs w)" using r by simp
    then show ?thesis using assms(4) by (simp add: reg_ok_def)
  qed
  show "cell_ok ?w d" if "d < length (cells ?w)" for d
    using baseD(4) [OF assms(1), of d] that by (auto simp: cell_ok_def)
  fix d
  assume "length (cells ?w) \<le> d"
  then show "\<not> aborted (signals ?w (S_Cell d))" "listeners (signals ?w (S_Cell d)) = []"
    using assms(1,3) by (auto simp: base_def)
qed

lemma listens_mono:
  assumes "base w" "listens w x d" "set (listeners (signals w x)) \<subseteq> set (listeners (signals w' x))"
    and "\<forall>r < length (regs w). r_fn (regs w' ! r) = r_fn (regs w ! r)"
  shows "listens w' x d"
proof -
  obtain r where r: "r \<in> set (listeners (signals w x))" "r_fn (regs w ! r) = Propagate d"
    using assms(2) by (auto simp: listens_def)
  then show ?thesis
    using listener_reg(1) [OF assms(1) r(1)] assms(3,4) by (auto simp: listens_def intro!: bexI [of _ r])
qed

lemma covered_listen:
  assumes "base w" "covered w ts"
  shows "covered (listen s fn w) ts"
    "fn = Propagate c \<Longrightarrow> parent_signal w c = Some s \<Longrightarrow> ts = [T_FromParent c] \<Longrightarrow> covered (listen s fn w) []"
proof -
  have l: "listens (listen s fn w) x d" if "listens w x d" for x d
    by (rule listens_mono [OF assms(1) that]) auto
  then show "covered (listen s fn w) ts" using assms(2) by (auto simp: covered_def)
  show "covered (listen s fn w) []"
    if "fn = Propagate c" "parent_signal w c = Some s" "ts = [T_FromParent c]"
  proof -
    have "listens (listen s fn w) s c" using that(1) by (auto simp: listens_def)
    moreover have "listens w x d \<or> d = c" if "d < length (cells w)" "parent_signal w d = Some x" "err_of w d = None" for d x
      using assms(2) that \<open>ts = [T_FromParent c]\<close> by (auto simp: covered_def)
    ultimately show ?thesis unfolding covered_def using that(2) l by fastforce
  qed
qed

lemma add_reg_base:
  assumes "base w" "r_state x \<noteq> Pending \<or> r_signal x = None"
    and "\<forall>c. r_fn x = Propagate c \<longrightarrow> c < length (cells w) \<and> r_signal x = parent_signal w c \<and> parent_signal w c \<noteq> None"
  shows "base (add_reg x w)"
  unfolding base_def
proof (intro conjI allI impI)
  let ?w = "add_reg x w"
  show "foreigns_ok ?w" using baseD(1) [OF assms(1)] by (simp add: foreigns_ok_def)
  show "signal_ok ?w s" for s using baseD(2) [OF assms(1), of s] by (auto simp: signal_ok_def)
  show "reg_ok ?w r" if r: "r < length (regs ?w)" for r
  proof (cases "r < length (regs w)")
    case True
    then show ?thesis using baseD(3) [OF assms(1) True] by (simp add: reg_ok_def)
  next
    case False
    then have "r = length (regs w)" using r by simp
    then show ?thesis using assms(2,3) by (auto simp: reg_ok_def)
  qed
  show "cell_ok ?w d" if "d < length (cells ?w)" for d
    using baseD(4) [OF assms(1), of d] that by (auto simp: cell_ok_def)
  fix d
  assume "length (cells ?w) \<le> d"
  then show "\<not> aborted (signals ?w (S_Cell d))" "listeners (signals ?w (S_Cell d)) = []"
    using assms(1) by (auto simp: base_def)
qed

lemma covered_add_reg: "base w \<Longrightarrow> covered w ts \<Longrightarrow> covered (add_reg x w) ts"
  using listens_mono [of w _ _ "add_reg x w"] by (auto simp: covered_def)

lemma timers_grow:
  "timers_ok w fs \<Longrightarrow> timers_ok (listen s fn w) fs" "timers_ok w fs \<Longrightarrow> timers_ok (add_reg x w) fs"
  by (auto simp: timers_ok_def)

lemma evolves_grow: "evolves w (listen s fn w)" "evolves w (add_reg x w)"
  by (auto simp: evolves_def)

section \<open>Registrations\<close>

lemma signalAfterFunc_cases:
  "signalAfterFunc so fn w =
     (case so of
        None \<Rightarrow> (add_reg \<lparr>r_state = Pending, r_listening = False, r_signal = None, r_fn = fn\<rparr> w,
                  length (regs w), None)
      | Some s \<Rightarrow>
          if aborted (signals w s)
          then ((add_reg \<lparr>r_state = Admitted, r_listening = False, r_signal = Some s, r_fn = fn\<rparr> w)
                  \<lparr>microtasks := microtasks w @ (case fn of Queued f \<Rightarrow> [f] | _ \<Rightarrow> [])\<rparr>,
                length (regs w), case fn of Propagate c \<Rightarrow> Some c | _ \<Rightarrow> None)
          else (listen s fn w, length (regs w), None))"
  by (auto simp: signalAfterFunc_def add_reg_def listen_def admit_def removeListener_def pending_def
      Let_def nth_append split: option.splits reg_fn.splits)

lemma queue_grow:
  "queue_ok w \<Longrightarrow> queue_ok (listen s fn w)"
  "queue_ok w \<Longrightarrow> r_state x = Pending \<Longrightarrow> queue_ok (add_reg x w)"
  "queue_ok w \<Longrightarrow> queue_ok ((add_reg \<lparr>r_state = Admitted, r_listening = False, r_signal = so, r_fn = fn\<rparr> w)
     \<lparr>microtasks := microtasks w @ (case fn of Queued f \<Rightarrow> [f] | _ \<Rightarrow> [])\<rparr>)"
  by (auto simp: queue_ok_def listen_def add_reg_def admitted_fn_def split: reg_fn.splits)

lemma queue_add_propagate: "queue_ok w \<Longrightarrow> r_fn x = Propagate c \<Longrightarrow> queue_ok (add_reg x w)"
  by (simp add: queue_ok_def add_reg_def admitted_fn_def)

lemma microtasks_irrelevant:
  "base (w\<lparr>microtasks := m\<rparr>) = base w" "covered (w\<lparr>microtasks := m\<rparr>) ts = covered w ts"
  "timers_ok (w\<lparr>microtasks := m\<rparr>) fs = timers_ok w fs" "evolves w0 (w\<lparr>microtasks := m\<rparr>) = evolves w0 w"
proof -
  have d: "resolveDone (w\<lparr>microtasks := m\<rparr>) x = resolveDone w x" for x by (rule resolveDone_cong) simp
  have o: "ctx_ok (w\<lparr>microtasks := m\<rparr>) n x = ctx_ok w n x" for n x by (rule ctx_ok_cong) simp
  show "base (w\<lparr>microtasks := m\<rparr>) = base w"
    by (simp add: base_def foreigns_ok_def signal_ok_def reg_ok_def cell_ok_def d o)
  show "covered (w\<lparr>microtasks := m\<rparr>) ts = covered w ts" by (simp add: covered_def listens_def d)
qed (simp_all add: timers_ok_def evolves_def)

text \<open>A signal that a context can have: of a foreign context, or of a cell that exists.\<close>

definition known :: "'v world \<Rightarrow> sig_id option \<Rightarrow> bool" where
  "known w so \<longleftrightarrow> (\<forall>d. so = Some (S_Cell d) \<longrightarrow> d < length (cells w))"

lemma resolveDone_known: "base w \<Longrightarrow> ctx_ok w (length (cells w)) x \<Longrightarrow> known w (resolveDone w x)"
  using done_cell [of w "length (cells w)" x] baseD(1) by (auto simp: known_def)

lemma afterFunc_inv:
  assumes "inv w" "ctx_ok w (length (cells w)) x" "afterFunc x fn w = (w', r)"
  shows "inv w' \<and> evolves w w' \<and> cells w' = cells w \<and> foreigns w' = foreigns w \<and> r = length (regs w) \<and>
    length (regs w') = Suc r \<and> r_fn (regs w' ! r) = Queued fn \<and> r_signal (regs w' ! r) = resolveDone w x"
proof -
  have b: "base w" "queue_ok w" "covered w []" "timers_ok w {}" using assms(1) by (auto simp: inv_def)
  have k: "known w (resolveDone w x)" using resolveDone_known [OF b(1) assms(2)] .
  consider (none) "resolveDone w x = None" | (ab) s where "resolveDone w x = Some s" "aborted (signals w s)"
    | (live) s where "resolveDone w x = Some s" "\<not> aborted (signals w s)"
    by (cases "resolveDone w x") auto
  then show ?thesis
  proof cases
    case none
    let ?x = "\<lparr>r_state = Pending, r_listening = False, r_signal = None, r_fn = Queued fn\<rparr>"
    have "w' = add_reg ?x w" "r = length (regs w)"
      using assms(3) none by (auto simp: afterFunc_def signalAfterFunc_cases)
    moreover have "inv (add_reg ?x w)"
      using b add_reg_base [OF b(1), of ?x] by (simp add: inv_def queue_grow covered_add_reg timers_grow)
    ultimately show ?thesis using none by (simp add: evolves_grow)
  next
    case ab
    let ?x = "\<lparr>r_state = Admitted, r_listening = False, r_signal = Some s, r_fn = Queued fn\<rparr>"
    have w': "w' = (add_reg ?x w)\<lparr>microtasks := microtasks w @ [fn]\<rparr>" "r = length (regs w)"
      using assms(3) ab by (auto simp: afterFunc_def signalAfterFunc_cases)
    have "inv w'"
      using b add_reg_base [OF b(1), of ?x] queue_grow(3) [OF b(2), where so = "Some s" and fn = "Queued fn"]
      by (simp add: inv_def w' microtasks_irrelevant covered_add_reg timers_grow)
    then show ?thesis using ab by (simp add: w' microtasks_irrelevant evolves_grow)
  next
    case live
    have w': "w' = listen s (Queued fn) w" "r = length (regs w)"
      using assms(3) live by (auto simp: afterFunc_def signalAfterFunc_cases)
    have "inv w'"
      using b listen_base [OF b(1) live(2), of "Queued fn"] k live(1)
      by (simp add: inv_def w' queue_grow covered_listen timers_grow known_def)
    then show ?thesis using live by (simp add: w' evolves_grow)
  qed
qed

lemma cleanup_base:
  assumes "base w" "live w c" "cl = StopParent r \<and> r < length (regs w) \<and> r_fn (regs w ! r) = Propagate c
      \<or> cl = ClearTimer t \<and> t < length (timers w) \<and> t_cell (timers w ! t) = c"
  shows "base (addCleanup c cl w)"
proof -
  let ?w = "addCleanup c cl w"
  have sel: "foreigns ?w = foreigns w" "regs ?w = regs w" "signals ?w = signals w" "timers ?w = timers w"
    "length (cells ?w) = length (cells w)"
    by (simp_all add: addCleanup_def)
  have cell: "cells ?w ! d = (if d = c then (cells w ! c)\<lparr>cleanups := cleanups (cells w ! c) @ [cl]\<rparr> else cells w ! d)"
    if "d < length (cells w)" for d
    using that by (simp add: addCleanup_def nth_update_if)
  have dn: "resolveDone ?w x = resolveDone w x" for x by (rule resolveDone_cong) (simp add: sel)
  have ok: "ctx_ok ?w n x = ctx_ok w n x" for n x by (rule ctx_ok_cong) (simp add: sel)
  show ?thesis
    unfolding base_def
  proof (intro conjI allI impI)
    show "foreigns_ok ?w" using baseD(1) [OF assms(1)] by (simp add: foreigns_ok_def sel)
    show "signal_ok ?w s" for s using baseD(2) [OF assms(1), of s] by (simp add: signal_ok_def sel)
    show "reg_ok ?w q" if "q < length (regs ?w)" for q
      using baseD(3) [OF assms(1), of q] that by (auto simp: reg_ok_def sel dn cell)
    show "cell_ok ?w d" if "d < length (cells ?w)" for d
    proof (cases "d = c")
      case True
      have c: "c < length (cells w)" "err_of w c = None" using assms(2) by (auto simp: live_def)
      have "cell_ok w c" using baseD(4) [OF assms(1) c(1)] .
      then show ?thesis
        using assms(3) c unfolding True cell_ok_def sel ok cell [OF c(1)] by (elim disjE) simp_all
    next
      case False
      then show ?thesis
        using baseD(4) [OF assms(1), of d] that unfolding cell_ok_def sel ok by (auto simp: cell sel)
    qed
    fix d
    assume "length (cells ?w) \<le> d"
    then show "\<not> aborted (signals ?w (S_Cell d))" "listeners (signals ?w (S_Cell d)) = []"
      using assms(1) by (auto simp: base_def sel)
  qed
qed

lemma cleanup_rest:
  assumes "live w c"
  shows "queue_ok w \<Longrightarrow> queue_ok (addCleanup c cl w)" "covered w ts \<Longrightarrow> covered (addCleanup c cl w) ts"
    "timers_ok w fs \<Longrightarrow> timers_ok (addCleanup c cl w) fs" "evolves w (addCleanup c cl w)"
    "\<forall>d < length (cells w). observedErr (cells (addCleanup c cl w) ! d) = err_of w d \<and>
       observedCause (cells (addCleanup c cl w) ! d) = cause_of w d"
    "length (cells (addCleanup c cl w)) = length (cells w)" "foreigns (addCleanup c cl w) = foreigns w"
    "regs (addCleanup c cl w) = regs w" "timers (addCleanup c cl w) = timers w"
proof -
  have dn: "resolveDone (addCleanup c cl w) x = resolveDone w x" for x
    by (rule resolveDone_cong) (simp add: addCleanup_def)
  show "queue_ok w \<Longrightarrow> queue_ok (addCleanup c cl w)" by (simp add: addCleanup_def queue_ok_def)
  show "covered w ts \<Longrightarrow> covered (addCleanup c cl w) ts"
    unfolding covered_def listens_def dn by (auto simp: addCleanup_def nth_update_if split: if_splits)
  show "timers_ok w fs \<Longrightarrow> timers_ok (addCleanup c cl w) fs"
    by (auto simp: addCleanup_def timers_ok_def nth_update_if)
qed (auto simp: addCleanup_def evolves_def nth_update_if)

section \<open>New cancel contexts\<close>

lemma under_new:
  assumes "base w" "under w c d" "Suc c = length (cells w)"
  shows "d = c"
  using assms(2)
proof (induction rule: under.induct)
  case (under_child p d)
  then have d: "d < length (cells w)" "resolveDone w (c_parent (cells w ! d)) = Some (S_Cell c)" by auto
  have "c < d"
    using done_cell [OF baseD(1) [OF assms(1)], of d] baseD(4) [OF assms(1) d(1)] d(2)
    by (auto simp: cell_ok_def)
  then show ?case using d(1) assms(3) by simp
qed simp

lemma failure_error: "fst (readParentFailure w p) = Canceled \<or> fst (readParentFailure w p) = DeadlineExceeded"
  by (simp add: readParentFailure_def Let_def)

lemma resolve_cong:
  assumes "foreigns w' = foreigns w"
  shows "resolveValue w' x key = resolveValue w x key" "resolveDeadline w' x = resolveDeadline w x"
proof -
  show "resolveValue w' x key = resolveValue w x key" using assms by (induction x) auto
  show "resolveDeadline w' x = resolveDeadline w x"
    using assms by (induction w x rule: resolveDeadline.induct) auto
qed

lemma resolveErr_cong:
  assumes "foreigns w' = foreigns w" "ctx_ok w n x" "\<forall>d < n. err_of w' d = err_of w d"
  shows "resolveErr w' x = resolveErr w x"
  using assms(2) by (induction x) (use assms in auto)

lemma cancel_carrier:
  assumes "foreigns_ok w" "ctx_ok w n x" "resolveValue w x K_Cancel = V_Ctx (CancelCtx c p d)"
  shows "c < n"
  using assms by (induction x) (auto simp: foreigns_ok_def)

lemma failure_cong:
  assumes "inv w" "ctx_ok w (length (cells w)) p" "foreigns w' = foreigns w"
    and "\<forall>d < length (cells w). err_of w' d = err_of w d \<and> cause_of w' d = cause_of w d"
  shows "readParentFailure w' p = readParentFailure w p"
proof -
  have "causeFromObservedError w' p o' = causeFromObservedError w p o'" for o'
    using resolve_cong(1) [OF assms(3), of p K_Cancel] cancel_carrier [of w "length (cells w)" p] assms
    by (auto simp: inv_def base_def split: ctx_val.splits ctx.splits)
  then show ?thesis
    using resolveErr_cong [OF assms(3,2)] assms(4)
    by (simp add: readParentFailure_def Let_def del: causeFromObservedError.simps split: option.split)
qed

text \<open>
  A new cancel context: live when its parent has no signal or an open one, otherwise born with the
  failure of its parent. The other contexts are untouched.
\<close>

lemma newCancelContext_inv:
  assumes "inv w" "ctx_ok w (length (cells w)) p"
    and new: "newCancelContext p dl (resolveDone w p) w = (w', c, x)"
  shows "inv w' \<and> evolves w w' \<and> foreigns w' = foreigns w \<and> length (timers w') = length (timers w) \<and>
    c = length (cells w) \<and> x = CancelCtx c p dl \<and> length (cells w') = Suc c \<and> c_parent (cells w' ! c) = p \<and>
    (\<forall>d < c. err_of w' d = err_of w d \<and> cause_of w' d = cause_of w d) \<and>
    (case resolveDone w p of
       None \<Rightarrow> live w' c
     | Some s \<Rightarrow>
         if aborted (signals w s)
         then err_of w' c = Some (fst (readParentFailure w p)) \<and> cause_of w' c = Some (snd (readParentFailure w p))
         else live w' c)"
proof -
  let ?c = "length (cells w)" and ?w1 = "add_cell p w"
  have b: "base ?w1" "queue_ok ?w1" "covered ?w1 [T_FromParent ?c]" "timers_ok ?w1 {}" "evolves w ?w1"
    using assms(1) add_cell_base [OF _ assms(2)] add_cell_rest [OF assms(1), of p] by (auto simp: inv_def)
  have k: "known w (resolveDone w p)"
    using resolveDone_known [OF _ assms(2)] assms(1) by (auto simp: inv_def)
  consider (none) "resolveDone w p = None" | (ab) s where "resolveDone w p = Some s" "aborted (signals w s)"
    | (opn) s where "resolveDone w p = Some s" "\<not> aborted (signals w s)"
    by (cases "resolveDone w p") auto
  then show ?thesis
  proof cases
    case none
    then have "w' = ?w1" "c = ?c" "x = CancelCtx ?c p dl"
      using new by (auto simp: newCancelContext_def add_cell_def Let_def)
    then show ?thesis
      using b none add_cell_rest(5) [OF assms(1) none] by (simp add: inv_def live_def)
  next
    case opn
    define w2 where "w2 = listen s (Propagate ?c) ?w1"
    have w': "w' = addCleanup ?c (StopParent (length (regs w))) w2" "c = ?c" "x = CancelCtx ?c p dl"
      using new opn
      by (auto simp: newCancelContext_def signalAfterFunc_cases Let_def w2_def add_cell_def [symmetric] live_def
          split: prod.splits if_splits)
    have l: "live w2 ?c" by (simp add: w2_def live_def)
    have b2: "base w2"
      unfolding w2_def using opn k by (intro listen_base [OF b(1)]) (auto simp: known_def)
    have c2: "covered w2 []"
      unfolding w2_def using covered_listen(2) [OF b(1,3)] opn by simp
    have "base w'"
      unfolding w'(1) by (rule cleanup_base [OF b2 l, where r = "length (regs w)"])
        (simp add: w2_def listen_def add_cell_def nth_append)
    moreover have "evolves w w'"
      using evolves_trans [OF b(5)] evolves_trans [OF evolves_grow(1)] cleanup_rest(4) [OF l]
      unfolding w' w2_def by blast
    ultimately show ?thesis
      using opn w' cleanup_rest [OF l, where cl = "StopParent (length (regs w))"] c2 b(2,4)
      by (auto simp: inv_def w2_def queue_grow timers_grow live_def less_Suc_eq evolves_def)
  next
    case ab
    define e k where "e = fst (readParentFailure w p)" and "k = snd (readParentFailure w p)"
    define w2 where "w2 = add_reg \<lparr>r_state = Admitted, r_listening = False, r_signal = Some s, r_fn = Propagate ?c\<rparr> ?w1"
    define w3 where "w3 = runCancellationWave (T_Settle ?c e k) w2"
    have f: "readParentFailure w2 p = (e, k)"
      using failure_cong [OF assms(1,2), of w2] by (simp add: w2_def e_def k_def)
    have w2: "base w2" "queue_ok w2" "covered w2 [T_FromParent ?c]" "timers_ok w2 {}" "live w2 ?c"
      using add_reg_base [OF b(1)] b queue_add_propagate [OF b(2)] ab
      by (auto simp: w2_def covered_add_reg timers_grow live_def)
    have e: "e = Canceled \<or> e = DeadlineExceeded" using failure_error by (simp add: e_def)
    have r: "inv w3" "evolves w2 w3" "wave_effect w2 ?c e k w3" "err_of w3 ?c = Some e" "cause_of w3 ?c = Some k"
      using settle_run [OF w2(1-5) e w3_def] by auto
    have "length (regs w) < length (regs w2)" "r_state (regs w2 ! length (regs w)) = Admitted"
      using add_reg_sel(8) [of _ ?w1] by (simp_all add: w2_def)
    then have "r_state (regs w3 ! length (regs w)) = Admitted"
      using r(2) by (simp add: evolves_def)
    moreover have "w2\<lparr>microtasks := microtasks w\<rparr> = w2"
      by (simp add: w2_def add_reg_def add_cell_def)
    ultimately have w': "w' = w3" "c = ?c" "x = CancelCtx ?c p dl"
      using new ab f r(4)
      by (auto simp: newCancelContext_def signalAfterFunc_cases Let_def w2_def [symmetric] w3_def [symmetric]
          add_cell_def [symmetric] stopReg_def pending_def split: prod.splits)
    have l: "length (cells w3) = Suc ?c" using r(3) by (simp add: wave_effect_def w2_def)
    have same: "err_of w3 d = err_of w d \<and> cause_of w3 d = cause_of w d" if d: "d < ?c" for d
    proof (cases "err_of w d")
      case None
      have d2: "d < length (cells w2)" "err_of w2 d = err_of w d" using d by (simp_all add: w2_def)
      have "\<not> under w2 ?c d" using under_new [OF w2(1), of ?c d] d by (auto simp: w2_def)
      then have "err_of w3 d = None"
        using r(3) d2 None unfolding wave_effect_def by (metis (no_types))
      moreover have "cell_ok w3 d" "cell_ok w d" using r(1) assms(1) d l by (auto simp: inv_def base_def)
      ultimately show ?thesis using None by (simp add: cell_ok_def)
    next
      case (Some y)
      then show ?thesis using r(2) d by (auto simp: evolves_def w2_def)
    qed
    have ev: "evolves w w3"
      using evolves_trans [OF b(5)] evolves_grow(2) evolves_trans r(2) unfolding w2_def by blast
    have "c_parent (cells w3 ! ?c) = p" "foreigns w3 = foreigns w" "length (timers w3) = length (timers w)"
      using r(2,3) by (auto simp: evolves_def wave_effect_def w2_def)
    then show ?thesis
      using w' r(1,4,5) ev l same ab by (simp add: e_def k_def)
  qed
qed

section \<open>Stop functions\<close>

text \<open>The stop function of \<open>afterFunc\<close>; the caller never holds the one of a propagation.\<close>

lemma stop_unsignalled:
  assumes "inv w" "pending w r" "r_signal (regs w ! r) = None"
  shows "stopReg r w = (set_reg r ((regs w ! r)\<lparr>r_state := Stopped\<rparr>) w, True)"
    and "inv (set_reg r ((regs w ! r)\<lparr>r_state := Stopped\<rparr>) w)"
    and "evolves w (set_reg r ((regs w ! r)\<lparr>r_state := Stopped\<rparr>) w)"
proof -
  let ?w = "set_reg r ((regs w ! r)\<lparr>r_state := Stopped\<rparr>) w"
  have r: "r < length (regs w)" "r_state (regs w ! r) = Pending" using assms(2) by (auto simp: pending_def)
  have b: "base w" "queue_ok w" "covered w []" "timers_ok w {}" using assms(1) by (auto simp: inv_def)
  have d: "resolveDone ?w x = resolveDone w x" and o: "ctx_ok ?w n x = ctx_ok w n x" for n x
    by (rule resolveDone_cong ctx_ok_cong, simp)+
  show "stopReg r w = (?w, True)"
    using assms(2,3) r by (simp add: stopReg_def removeListener_def Let_def)
  show "evolves w ?w" using r by (auto simp: evolves_def nth_update_if)
  have "base ?w"
    unfolding base_def
  proof (intro conjI allI impI)
    show "foreigns_ok ?w" using baseD(1) [OF b(1)] by (simp add: foreigns_ok_def)
    show "signal_ok ?w s" for s
      using baseD(2) [OF b(1), of s] assms(3) by (auto simp: signal_ok_def nth_update_if)
    show "reg_ok ?w q" if "q < length (regs ?w)" for q
      using baseD(3) [OF b(1), of q] that assms(3) by (auto simp: reg_ok_def d nth_update_if)
    show "cell_ok ?w q" if "q < length (cells ?w)" for q
      using baseD(4) [OF b(1), of q] that by (auto simp: cell_ok_def o nth_update_if)
    fix q
    assume "length (cells ?w) \<le> q"
    then show "\<not> aborted (signals ?w (S_Cell q))" "listeners (signals ?w (S_Cell q)) = []"
      using b(1) by (auto simp: base_def)
  qed
  moreover have "queue_ok ?w"
    using b(2) mset_update [OF r(1), of admitted_fn "(regs w ! r)\<lparr>r_state := Stopped\<rparr>"] r(2)
    by (auto simp: queue_ok_def admitted_fn_def split: reg_fn.splits)
  moreover have "listens ?w x c" if "listens w x c" for x c
    by (rule listens_mono [OF b(1) that]) (auto simp: nth_update_if)
  then have "covered ?w []" using b(3) by (simp add: covered_def d)
  moreover have "timers_ok ?w {}" using b(4) by (simp add: timers_ok_def)
  ultimately show "inv ?w" by (simp add: inv_def)
qed

lemma stop_run:
  assumes "inv w" "r < length (regs w)" "r_fn (regs w ! r) = Queued fn" "stopReg r w = (w', ok)"
  shows "inv w' \<and> evolves w w' \<and> cells w' = cells w \<and> foreigns w' = foreigns w \<and>
    microtasks w' = microtasks w \<and> length (timers w') = length (timers w) \<and>
    (ok \<longleftrightarrow> r_state (regs w ! r) = Pending) \<and> (ok \<longrightarrow> r_state (regs w' ! r) = Stopped)"
proof (cases "pending w r")
  case False
  then show ?thesis using assms by (auto simp: stopReg_def evolves_refl pending_def)
next
  case True
  have b: "base w" "queue_ok w" "covered w []" "timers_ok w {}" using assms(1) by (auto simp: inv_def)
  show ?thesis
  proof (cases "r_signal (regs w ! r)")
    case None
    from stop_unsignalled [OF assms(1) True None] show ?thesis
      using assms(2,4) True by (simp add: pending_def)
  next
    case (Some s)
    have w': "w' = stopped w r s" "ok" using stopReg_pending [OF b(1) True Some] assms(4) by auto
    have "inv w'"
      using stopped_base [OF b(1) True Some] stopped_queue [OF b(2) True] stopped_covered [OF b(1,3) True]
        assms(3) b(4) by (simp add: inv_def w' timers_ok_def)
    then show ?thesis
      using stopped_evolves [OF True] True assms(2) w' by (simp add: pending_def)
  qed
qed

end
