(* ===== verification/Context_Deadline.thy ===== *)
theory Context_Deadline
  imports Context_Ops
begin

text \<open>
  Deadline timers, timed contexts and runs. A step is one call of an exported function, of a cancel
  or stop function it returned, or a timer event; the properties of the package hold in every state
  that a sequence of steps reaches.
\<close>

section \<open>Timers\<close>

lemma timers_change:
  assumes "base w" and keep: "\<forall>t < length (timers w). t < length ts \<and> t_cell (ts ! t) = t_cell (timers w ! t)"
  shows "base (w\<lparr>timers := ts\<rparr>)" "covered (w\<lparr>timers := ts\<rparr>) qs = covered w qs"
    "queue_ok (w\<lparr>timers := ts\<rparr>) = queue_ok w"
proof -
  let ?w = "w\<lparr>timers := ts\<rparr>"
  have d: "resolveDone ?w x = resolveDone w x" and o: "ctx_ok ?w n x = ctx_ok w n x" for n x
    by (rule resolveDone_cong ctx_ok_cong, simp)+
  show "base ?w"
    unfolding base_def
  proof (intro conjI allI impI)
    show "foreigns_ok ?w" using baseD(1) [OF assms(1)] by (simp add: foreigns_ok_def)
    show "signal_ok ?w s" for s using baseD(2) [OF assms(1), of s] by (simp add: signal_ok_def)
    show "reg_ok ?w q" if "q < length (regs ?w)" for q
      using baseD(3) [OF assms(1), of q] that by (simp add: reg_ok_def d)
    show "cell_ok ?w q" if "q < length (cells ?w)" for q
      using baseD(4) [OF assms(1), of q] that keep by (auto simp: cell_ok_def o)
    fix q
    assume "length (cells ?w) \<le> q"
    then show "\<not> aborted (signals ?w (S_Cell q))" "listeners (signals ?w (S_Cell q)) = []"
      using assms(1) by (auto simp: base_def)
  qed
  show "covered ?w qs = covered w qs" by (simp add: covered_def listens_def d)
  show "queue_ok ?w = queue_ok w" by (simp add: queue_ok_def)
qed

lemma set_timer_inv:
  assumes "inv w" "t < length (timers w)"
  shows "inv (set_timer t ((timers w ! t)\<lparr>t_delay := x\<rparr>) w)"
    "evolves w (set_timer t ((timers w ! t)\<lparr>t_delay := x\<rparr>) w)"
proof -
  let ?ts = "(timers w)[t := (timers w ! t)\<lparr>t_delay := x\<rparr>]"
  have k: "\<forall>u < length (timers w). u < length ?ts \<and> t_cell (?ts ! u) = t_cell (timers w ! u)"
    by (auto simp: nth_update_if)
  have "timers_ok (w\<lparr>timers := ?ts\<rparr>) {}" using assms by (auto simp: inv_def timers_ok_def nth_update_if)
  then show "inv (set_timer t ((timers w ! t)\<lparr>t_delay := x\<rparr>) w)"
    using assms(1) timers_change [OF _ k] by (simp add: inv_def)
  show "evolves w (set_timer t ((timers w ! t)\<lparr>t_delay := x\<rparr>) w)"
    by (auto simp: evolves_def nth_update_if)
qed

lemma arm_inv:
  assumes "inv w" "t < length (timers w)"
  shows "inv (arm t rem w)" "evolves w (arm t rem w)" "cells (arm t rem w) = cells w"
    "foreigns (arm t rem w) = foreigns w" "length (timers (arm t rem w)) = length (timers w)"
  using set_timer_inv [OF assms] assms(1) by (auto simp: arm_def Let_def evolves_refl)

text \<open>A timer is active only while its context is live.\<close>

lemma active_live:
  assumes "inv w" "t < length (timers w)" "t_active (timers w ! t)"
  shows "live w (t_cell (timers w ! t))"
proof -
  have "t_cell (timers w ! t) < length (cells w)" "cleanups (cells w ! t_cell (timers w ! t)) \<noteq> []"
    using assms by (auto simp: inv_def timers_ok_def)
  moreover from this(1) have "cell_ok w (t_cell (timers w ! t))" using assms(1) by (simp add: inv_def base_def)
  ultimately show ?thesis unfolding live_def cell_ok_def by blast
qed

definition add_timer :: "nat \<Rightarrow> timer \<Rightarrow> 'v world \<Rightarrow> 'v world" where
  "add_timer c tm w = addCleanup c (ClearTimer (length (timers w))) (w\<lparr>timers := timers w @ [tm]\<rparr>)"

lemma add_timer_inv:
  assumes "inv w" "live w c" "t_cell tm = c"
  shows "inv (add_timer c tm w)" "evolves w (add_timer c tm w)" "foreigns (add_timer c tm w) = foreigns w"
    "length (cells (add_timer c tm w)) = length (cells w)" "timers (add_timer c tm w) = timers w @ [tm]"
    "\<forall>d < length (cells w). err_of (add_timer c tm w) d = err_of w d \<and> cause_of (add_timer c tm w) d = cause_of w d"
proof -
  let ?w = "w\<lparr>timers := timers w @ [tm]\<rparr>" and ?cl = "ClearTimer (length (timers w))"
  have k: "\<forall>u < length (timers w). u < length (timers w @ [tm]) \<and> t_cell ((timers w @ [tm]) ! u) = t_cell (timers w ! u)"
    by (auto simp: nth_append)
  have b: "base ?w" "covered ?w []" "queue_ok ?w"
    using assms(1) timers_change [OF _ k] by (auto simp: inv_def)
  have l: "live ?w c" using assms(2) by (simp add: live_def)
  have "base (addCleanup c ?cl ?w)"
    by (rule cleanup_base [OF b(1) l, where t = "length (timers w)"]) (simp add: assms(3))
  moreover have "timers_ok (addCleanup c ?cl ?w) {}"
    using assms by (auto simp: inv_def timers_ok_def addCleanup_def nth_update_if nth_append less_Suc_eq live_def)
  ultimately show "inv (add_timer c tm w)"
    using cleanup_rest(1,2) [OF l] b by (simp add: inv_def add_timer_def)
  have "evolves w ?w" by (auto simp: evolves_def nth_append)
  then show "evolves w (add_timer c tm w)"
    using evolves_trans cleanup_rest(4) [OF l] unfolding add_timer_def by blast
  show "\<forall>d < length (cells w). err_of (add_timer c tm w) d = err_of w d \<and> cause_of (add_timer c tm w) d = cause_of w d"
    using cleanup_rest(5) [OF l] by (simp add: add_timer_def)
qed (simp_all add: add_timer_def addCleanup_def)

lemma cancel_dead [simp]: "\<not> live w c \<Longrightarrow> cancel c e k w = w"
  by (simp add: cancel_def)

lemma cancel_inv:
  assumes "inv w" "e = Canceled \<or> e = DeadlineExceeded"
  shows "inv (cancel c e k w)" "evolves w (cancel c e k w)" "foreigns (cancel c e k w) = foreigns w"
    "length (cells (cancel c e k w)) = length (cells w)" "length (timers (cancel c e k w)) = length (timers w)"
  using cancel_run [OF assms(1) _ assms(2)] assms(1) by (cases "live w c"; simp add: evolves_refl)+

lemma wake_run:
  assumes "inv w" "t < length (timers w)"
  shows "inv (wake t now w) \<and> evolves w (wake t now w) \<and> foreigns (wake t now w) = foreigns w \<and>
    length (timers (wake t now w)) = length (timers w)"
proof -
  let ?w = "set_timer t ((timers w ! t)\<lparr>t_delay := None\<rparr>) w"
  have w: "inv ?w" "evolves w ?w" "t < length (timers ?w)" using set_timer_inv [OF assms] assms(2) by auto
  show ?thesis
    using arm_inv [OF w(1,3)] cancel_inv [OF w(1), of DeadlineExceeded] w(2) assms(1)
    by (auto simp: wake_def Let_def evolves_refl intro: evolves_trans)
qed

section \<open>Timed contexts\<close>

text \<open>What the creation of a cancel context leaves: a new cell, and the others as they were.\<close>

definition created :: "'v world \<Rightarrow> 'v ctx \<Rightarrow> 'v world \<Rightarrow> nat \<Rightarrow> bool" where
  "created w p w' c \<longleftrightarrow>
     inv w' \<and> evolves w w' \<and> foreigns w' = foreigns w \<and> c = length (cells w) \<and>
     length (cells w') = Suc c \<and> c_parent (cells w' ! c) = p \<and> length (timers w) \<le> length (timers w') \<and>
     (\<forall>d < c. err_of w' d = err_of w d \<and> cause_of w' d = cause_of w d)"

lemma created_new:
  assumes "inv w" "ctx_ok w (length (cells w)) p" "newCancelContext p dl (resolveDone w p) w = (w', c, x)"
  shows "created w p w' c" "x = CancelCtx c p dl"
  using newCancelContext_inv [OF assms] by (auto simp: created_def)

lemma cancel_own:
  assumes "inv w" "Suc c = length (cells w)" "e = Canceled \<or> e = DeadlineExceeded" "d < c"
  shows "err_of (cancel c e k w) d = err_of w d" "cause_of (cancel c e k w) d = cause_of w d"
proof -
  have b: "base w" and d: "d < length (cells w)" using assms by (auto simp: inv_def)
  have n: "\<not> under w c d" using under_new [OF b _ assms(2), of d] assms(4) by auto
  have "err_of (cancel c e k w) d = err_of w d \<and> cause_of (cancel c e k w) d = cause_of w d"
  proof (cases "live w c")
    case True
    note r = cancel_run [OF assms(1) True assms(3), of k]
    show ?thesis
    proof (cases "err_of w d")
      case None
      then have "cause_of w d = None" using baseD(4) [OF b d] by (simp add: cell_ok_def)
      then show ?thesis using r None n d by auto
    next
      case (Some e')
      then show ?thesis using r d by (simp add: evolves_def)
    qed
  qed simp
  then show "err_of (cancel c e k w) d = err_of w d" "cause_of (cancel c e k w) d = cause_of w d" by auto
qed

lemma created_cancel:
  assumes "created w p w' c" "e = Canceled \<or> e = DeadlineExceeded"
  shows "created w p (cancel c e k w') c"
proof -
  have w': "inv w'" "Suc c = length (cells w')" using assms(1) by (auto simp: created_def)
  note r = cancel_inv [OF w'(1) assms(2), of c k]
  have "c_parent (cells (cancel c e k w') ! c) = p"
    using r(2) w'(2) assms(1) by (auto simp: created_def evolves_def)
  then show ?thesis
    using assms(1) r evolves_trans [OF _ r(2), of w] cancel_own [OF w' assms(2)]
    by (auto simp: created_def)
qed

lemma startDeadlineTimer_eq:
  "startDeadlineTimer c req wall mnow k w =
     (if err_of w c \<noteq> None then (w, Inr ())
      else if req \<le> wall then (cancel c DeadlineExceeded k w, Inr ())
      else if \<not> isFinite mnow
      then (cancel c Canceled Canceled w,
            Inl (RangeError ''performance.now() must produce a finite monotonic target''))
      else (arm (length (timers w)) (req - wall)
              (add_timer c \<lparr>t_cell = c, t_target = rat_of mnow + (req - wall), t_cause = k,
                            t_active = True, t_delay = None\<rparr> w), Inr ()))"
  by (simp add: startDeadlineTimer_def add_timer_def Let_def)

lemma created_arm:
  assumes "created w p w' c" "live w' c" "t_cell tm = c"
  shows "created w p (arm (length (timers w')) m (add_timer c tm w')) c"
proof -
  let ?w = "arm (length (timers w')) m (add_timer c tm w')"
  have i: "inv w'" "evolves w w'" "Suc c = length (cells w')" "c_parent (cells w' ! c) = p"
    using assms(1) by (auto simp: created_def)
  note a = add_timer_inv [OF i(1) assms(2,3)]
  have t: "length (timers w') < length (timers (add_timer c tm w'))" by (simp add: a)
  note r = arm_inv [OF a(1) t, of m]
  have ev: "evolves w' ?w" using evolves_trans [OF a(2) r(2)] .
  then have "c_parent (cells ?w ! c) = p" using i(3,4) by (simp add: evolves_def)
  then show ?thesis
    using evolves_trans [OF i(2) ev] assms(1) r(1,3,4,5) a(3-6) by (simp add: created_def)
qed

lemma created_timer:
  assumes "created w p w' c" "startDeadlineTimer c req wall mnow k w' = (w'', res)"
  shows "created w p w'' c"
proof -
  have c: "c < length (cells w')" using assms(1) by (simp add: created_def)
  show ?thesis
  proof (cases "err_of w' c = None \<and> \<not> req \<le> wall \<and> isFinite mnow")
    case True
    then have "live w' c" using c by (simp add: live_def)
    then show ?thesis using created_arm [OF assms(1)] assms(2) True by (auto simp: startDeadlineTimer_eq)
  next
    case False
    then have "w'' \<in> {w', cancel c DeadlineExceeded k w', cancel c Canceled Canceled w'}"
      using assms(2) by (auto simp: startDeadlineTimer_eq split: if_splits)
    then show ?thesis using assms(1) created_cancel [OF assms(1)] by blast
  qed
qed

lemma newTimedContext_inv:
  assumes "inv w" "ctx_ok w (length (cells w)) p"
    and "newTimedContext p req pe k wall mnow w = (w', res)"
  shows "created w p w' (length (cells w)) \<and>
    (\<forall>c x. res = Inr (c, x) \<longrightarrow> c = length (cells w) \<and>
       x = CancelCtx c p (if (case pe of None \<Rightarrow> False | Some e \<Rightarrow> num_less e (Fin req)) then None else Some (Fin req)))"
proof (cases "case pe of None \<Rightarrow> False | Some e \<Rightarrow> num_less e (Fin req)")
  case True
  obtain w1 c x where n: "newCancelContext p None (resolveDone w p) w = (w1, c, x)" by (metis prod_cases3)
  show ?thesis
    using assms(3) True n created_new [OF assms(1,2) n] by (auto simp: newTimedContext_def created_def)
next
  case False
  obtain w1 c x where n: "newCancelContext p (Some (Fin req)) (resolveDone w p) w = (w1, c, x)" by (metis prod_cases3)
  note w1 = created_new [OF assms(1,2) n]
  have c: "c = length (cells w)" using w1(1) by (simp add: created_def)
  show ?thesis
  proof (cases "snapshotWallNow wall")
    case (Inl e)
    then show ?thesis
      using assms(3) False n created_cancel [OF w1(1), of Canceled Canceled] c
      by (auto simp: newTimedContext_def Let_def)
  next
    case (Inr now)
    obtain w2 y where s: "startDeadlineTimer c req now mnow (case k of None \<Rightarrow> DeadlineExceeded | Some k \<Rightarrow> k) w1 = (w2, y)"
      by fastforce
    show ?thesis
      using assms(3) False n Inr s created_timer [OF w1(1) s] w1(2) c
      by (auto simp: newTimedContext_def Let_def split: sum.splits)
  qed
qed

end
