(* ===== verification/Context_Runs.thy ===== *)
theory Context_Runs
  imports Context_Deadline
begin

text \<open>
  Runs of the context package and the properties of the states they reach.
\<close>

section \<open>Steps\<close>

inductive step :: "'v world \<Rightarrow> 'v world \<Rightarrow> bool" where
  step_withCancel: "ctx_ok w (length (cells w)) p \<Longrightarrow> withCancel p w = (w', c, x) \<Longrightarrow> step w w'"
| step_deadline:
    "ctx_ok w (length (cells w)) p \<Longrightarrow> newDeadlineContext p dl k wall mnow w = (w', res) \<Longrightarrow> step w w'"
| step_timeout:
    "ctx_ok w (length (cells w)) p \<Longrightarrow> newTimeoutContext p ms k wall wall2 mnow w = (w', res) \<Longrightarrow> step w w'"
| step_cancel: "step w (cancelFunc c w)"
| step_cancelCause: "step w (cancelCauseFunc c k w)"
| step_afterFunc: "ctx_ok w (length (cells w)) x \<Longrightarrow> afterFunc x fn w = (w', r) \<Longrightarrow> step w w'"
| step_stop: "r < length (regs w) \<Longrightarrow> r_fn (regs w ! r) = Queued fn \<Longrightarrow> stopReg r w = (w', ok) \<Longrightarrow> step w w'"
| step_wake: "t < length (timers w) \<Longrightarrow> step w (wake t now w)"

text \<open>The states before the first call: foreign contexts exist, and their signals may be aborted.\<close>

definition fresh :: "'v world \<Rightarrow> bool" where
  "fresh w \<longleftrightarrow> foreigns_ok w \<and> cells w = [] \<and> regs w = [] \<and> timers w = [] \<and> microtasks w = [] \<and>
     (\<forall>s. listeners (signals w s) = []) \<and> (\<forall>d. \<not> aborted (signals w (S_Cell d)))"

inductive reach :: "'v world \<Rightarrow> bool" where
  reach_fresh: "fresh w \<Longrightarrow> reach w"
| reach_step: "reach w \<Longrightarrow> step w w' \<Longrightarrow> reach w'"

lemma fresh_inv: "fresh w \<Longrightarrow> inv w"
  by (auto simp: fresh_def inv_def base_def signal_ok_def queue_ok_def covered_def timers_ok_def)

lemma timed_inv:
  assumes "inv w" "ctx_ok w (length (cells w)) p"
  shows "newDeadlineContext p dl k wall mnow w = (w', res) \<Longrightarrow> inv w' \<and> evolves w w' \<and> foreigns w' = foreigns w"
    "newTimeoutContext p ms k wall wall2 mnow w = (w', res) \<Longrightarrow> inv w' \<and> evolves w w' \<and> foreigns w' = foreigns w"
  using newTimedContext_inv [OF assms] assms(1)
  by (auto simp: newDeadlineContext_def newTimeoutContext_def created_def Let_def evolves_refl
      split: if_splits sum.splits)

lemma step_inv:
  assumes "step w w'" "inv w"
  shows "inv w' \<and> evolves w w' \<and> foreigns w' = foreigns w"
  using assms
proof (induction rule: step.induct)
  case (step_withCancel w p w' c x)
  then show ?case using created_new [of w p None w' c x] by (simp add: withCancel_def created_def)
next
  case (step_deadline w p dl k wall mnow w' res)
  then show ?case using timed_inv(1) by blast
next
  case (step_timeout w p ms k wall wall2 mnow w' res)
  then show ?case using timed_inv(2) by blast
next
  case (step_cancel w c)
  then show ?case using cancel_inv [of w Canceled c Canceled] by (simp add: cancelFunc_def)
next
  case (step_cancelCause w c k)
  then show ?case using cancel_inv [of w Canceled c] by (simp add: cancelCauseFunc_def)
next
  case (step_afterFunc w x fn w' r)
  then show ?case using afterFunc_inv by blast
next
  case (step_stop r w fn w' ok)
  then show ?case using stop_run by blast
next
  case (step_wake t w now)
  then show ?case using wake_run by blast
qed

lemma reach_inv: "reach w \<Longrightarrow> inv w"
  by (induction rule: reach.induct) (auto simp: fresh_inv dest: step_inv)

lemma run_evolves: "step\<^sup>*\<^sup>* w w' \<Longrightarrow> inv w \<Longrightarrow> inv w' \<and> evolves w w'"
  by (induction rule: rtranclp.induct) (auto simp: evolves_refl dest: step_inv intro: evolves_trans)

lemma aborted_settled:
  assumes "inv w" "d < length (cells w)"
  shows "aborted (signals w (S_Cell d)) \<longleftrightarrow> err_of w d \<noteq> None"
proof -
  have "cell_ok w d" using assms by (simp add: inv_def base_def)
  then show ?thesis unfolding cell_ok_def by blast
qed

lemma cause_settled:
  assumes "inv w" "d < length (cells w)"
  shows "cause_of w d = None \<longleftrightarrow> err_of w d = None"
proof -
  have "cell_ok w d" using assms by (simp add: inv_def base_def)
  then show ?thesis unfolding cell_ok_def by blast
qed

lemma cancel_effect:
  assumes "inv w" "live w c" "e = Canceled \<or> e = DeadlineExceeded" "d < length (cells w)"
  shows "(err_of (cancel c e k w) d, cause_of (cancel c e k w) d) =
    (if err_of w d = None \<and> under w c d then (Some e, Some k) else (err_of w d, cause_of w d))"
proof -
  note r = cancel_run [OF assms(1-3), of k]
  show ?thesis
  proof (cases "err_of w d")
    case None
    then show ?thesis using r assms(4) cause_settled [OF assms(1,4)] by simp
  next
    case (Some e')
    then show ?thesis using r assms(4) by (simp add: evolves_def)
  qed
qed

lemma count_admitted:
  "count_list (concat (map admitted_fn xs)) fn =
     card {r. r < length xs \<and> r_fn (xs ! r) = Queued fn \<and> r_state (xs ! r) = Admitted}"
proof (induction xs rule: rev_induct)
  case (snoc x xs)
  let ?P = "\<lambda>r ys. r < length ys \<and> r_fn (ys ! r) = Queued fn \<and> r_state (ys ! r) = Admitted"
  have "{r. ?P r (xs @ [x])} =
      {r. ?P r xs} \<union> (if r_fn x = Queued fn \<and> r_state x = Admitted then {length xs} else {})"
    by (auto simp: nth_append less_Suc_eq)
  moreover have "finite {r. ?P r xs}" by simp
  ultimately show ?case using snoc by (auto simp: admitted_fn_def split: reg_fn.splits)
qed simp

section \<open>A concrete run\<close>

text \<open>
  A tree of three contexts: cell 1 is a child of cell 0, which also has a callback, and cell 2 is a
  timed child of the background context.
\<close>

definition demo1 :: "nat world" where
  "demo1 = fst (withCancel background initial_world)"

definition demo2 :: "nat world" where
  "demo2 = fst (withCancel (CancelCtx 0 background None) demo1)"

definition demo3 :: "nat world" where
  "demo3 = fst (afterFunc (CancelCtx 0 background None) 7 demo2)"

definition demo4 :: "nat world" where
  "demo4 = fst (newDeadlineContext background (Fin 5000) None (Fin 1000) (Fin 10) demo3)"

definition demo5 :: "nat world" where
  "demo5 = cancelCauseFunc 0 (Some (TypeError ''stop'')) demo4"

lemmas demo_eval =
  withCancel_def newCancelContext_def signalAfterFunc_def afterFunc_def newDeadlineContext_def newTimedContext_def
  snapshotDeadline_def snapshotWallNow_def outsideTimeClip_def maximumTimeClip_def startDeadlineTimer_def
  arm_def addCleanup_def background_def initial_world_def newEmptyContext_def noDeadline_def maximumTimerDelay_def

lemma demo1_eq: "demo1 = initial_world\<lparr>cells :=
    [\<lparr>c_parent = Root 0, observedErr = None, observedCause = None, cleanups = []\<rparr>]\<rparr>"
  by (simp add: demo1_def demo_eval)

lemma demo2_eq: "demo2 = initial_world
    \<lparr>cells := [\<lparr>c_parent = Root 0, observedErr = None, observedCause = None, cleanups = []\<rparr>,
       \<lparr>c_parent = CancelCtx 0 (Root 0) None, observedErr = None, observedCause = None, cleanups = [StopParent 0]\<rparr>],
     regs := [\<lparr>r_state = Pending, r_listening = True, r_signal = Some (S_Cell 0), r_fn = Propagate 1\<rparr>],
     signals := (\<lambda>_. \<lparr>aborted = False, listeners = []\<rparr>)(S_Cell 0 := \<lparr>aborted = False, listeners = [0]\<rparr>)\<rparr>"
  by (simp add: demo2_def demo1_eq demo_eval)

lemma demo4_eq: "demo4 = initial_world
    \<lparr>cells := [\<lparr>c_parent = Root 0, observedErr = None, observedCause = None, cleanups = []\<rparr>,
       \<lparr>c_parent = CancelCtx 0 (Root 0) None, observedErr = None, observedCause = None, cleanups = [StopParent 0]\<rparr>,
       \<lparr>c_parent = Root 0, observedErr = None, observedCause = None, cleanups = [ClearTimer 0]\<rparr>],
     regs := [\<lparr>r_state = Pending, r_listening = True, r_signal = Some (S_Cell 0), r_fn = Propagate 1\<rparr>,
       \<lparr>r_state = Pending, r_listening = True, r_signal = Some (S_Cell 0), r_fn = Queued 7\<rparr>],
     timers := [\<lparr>t_cell = 2, t_target = 4010, t_cause = DeadlineExceeded, t_active = True, t_delay = Some 4000\<rparr>],
     signals := (\<lambda>_. \<lparr>aborted = False, listeners = []\<rparr>)(S_Cell 0 := \<lparr>aborted = False, listeners = [0, 1]\<rparr>)\<rparr>"
  by (simp add: demo4_def demo3_def demo2_eq demo_eval)

lemmas wave_eval =
  cancelCauseFunc_def cancel_def live_def runCancellationWave_def drainCancellationWave.simps run_task_def
  settle_def abort_def admit_def pending_def removeListener_def readParentFailure_def run_cleanup_def
  stopReg_def initial_world_def Let_def

lemma demo5_run:
  "err_of demo5 0 = Some Canceled \<and> cause_of demo5 0 = Some (TypeError ''stop'') \<and> length (cells demo5) = 3 \<and>
   length (foreigns demo5) = 2 \<and> microtasks demo5 = [7] \<and> c_parent (cells demo5 ! 1) = CancelCtx 0 (Root 0) None"
  by (simp add: demo5_def demo4_eq wave_eval)

lemma demo_reach: "reach demo1" "reach demo2" "reach demo3" "reach demo4" "reach demo5"
proof -
  have "fresh (initial_world :: nat world)"
    by (simp add: fresh_def initial_world_def foreigns_ok_def newEmptyContext_def less_Suc_eq nth_Cons')
  then have 0: "reach (initial_world :: nat world)" by (rule reach_fresh)
  have s: "step w (fst (withCancel p w))" if "ctx_ok w (length (cells w)) p" for w :: "nat world" and p
    using step_withCancel [OF that] by (metis prod_cases3 fst_conv)
  show 1: "reach demo1"
    unfolding demo1_def by (rule reach_step [OF 0 s]) (simp add: background_def initial_world_def)
  show 2: "reach demo2"
    unfolding demo2_def by (rule reach_step [OF 1 s]) (simp add: background_def demo1_eq initial_world_def)
  show 3: "reach demo3"
    unfolding demo3_def
  proof (rule reach_step [OF 2 step_afterFunc])
    show "ctx_ok demo2 (length (cells demo2)) (CancelCtx 0 background None)"
      by (simp add: demo2_eq background_def initial_world_def)
  qed (rule prod.collapse [symmetric])
  show 4: "reach demo4"
    unfolding demo4_def
  proof (rule reach_step [OF 3 step_deadline])
    show "ctx_ok demo3 (length (cells demo3)) background"
      by (simp add: demo3_def demo2_eq demo_eval)
  qed (rule prod.collapse [symmetric])
  show "reach demo5" unfolding demo5_def by (rule reach_step [OF 4 step_cancelCause])
qed

lemma demo_under: "under demo4 0 1" "under demo5 0 1"
proof -
  have "under demo4 0 0" "under demo5 0 0" by (rule under_self)+
  then show "under demo4 0 1" "under demo5 0 1"
    by (auto intro!: under_child [where p = 0] simp: demo4_eq demo5_run [unfolded One_nat_def])
qed

section \<open>Cancellation\<close>

text \<open>
  C6: a cancel function settles exactly the live contexts below its own, itself included, with the
  error \<open>Canceled\<close> and the given cause, and leaves every other context as it was; a Done signal is
  aborted exactly when its context has an error.
\<close>

theorem cancellation_propagates:
  assumes "reach w" "live w c" "d < length (cells w)"
  shows "(err_of (cancelCauseFunc c k w) d, cause_of (cancelCauseFunc c k w) d) =
      (if err_of w d = None \<and> under w c d then (Some Canceled, Some (case k of None \<Rightarrow> Canceled | Some k \<Rightarrow> k))
       else (err_of w d, cause_of w d)) \<and>
    (aborted (signals (cancelCauseFunc c k w) (S_Cell d)) \<longleftrightarrow> err_of (cancelCauseFunc c k w) d \<noteq> None)"
proof -
  have i: "inv w" using reach_inv [OF assms(1)] .
  let ?w = "cancel c Canceled (case k of None \<Rightarrow> Canceled | Some k \<Rightarrow> k) w"
  have "inv ?w" "d < length (cells ?w)" using cancel_inv [OF i, of Canceled] assms(3) by auto
  then show ?thesis
    using cancel_effect [OF i assms(2) _ assms(3), of Canceled] aborted_settled [of ?w d]
    by (simp add: cancelCauseFunc_def)
qed

theorem cancellation_propagates_witness:
  "err_of demo5 1 = Some Canceled \<and> cause_of demo5 1 = Some (TypeError ''stop'') \<and> aborted (signals demo5 (S_Cell 1))"
  using cancellation_propagates [of demo4 0 1 "Some (TypeError ''stop'')"] demo_reach(4) demo_under(1)
  unfolding demo5_def [symmetric] by (simp add: demo4_eq live_def)

text \<open>
  C7: a terminal state is final, whatever is called later, and no context below a settled one is
  live.
\<close>

theorem settled_forever:
  assumes "reach w" "c < length (cells w)" "err_of w c \<noteq> None" "step\<^sup>*\<^sup>* w w'" "under w' c d"
  shows "err_of w' c = err_of w c \<and> cause_of w' c = cause_of w c \<and>
    d < length (cells w') \<and> err_of w' d \<noteq> None \<and> aborted (signals w' (S_Cell d))"
proof -
  have r: "inv w'" "evolves w w'" using run_evolves [OF assms(4) reach_inv [OF assms(1)]] by auto
  then have c: "err_of w' c = err_of w c" "cause_of w' c = cause_of w c" "c < length (cells w')"
    using assms(2,3) by (auto simp: evolves_def)
  have "d < length (cells w') \<and> err_of w' d \<noteq> None"
    using under_settled [OF r(1) assms(5) evolves_refl refl c(3)] c(1) assms(3) by simp
  then show ?thesis using c aborted_settled [OF r(1)] by blast
qed

theorem settled_forever_witness:
  "cause_of demo5 0 = Some (TypeError ''stop'') \<and> err_of demo5 1 \<noteq> None"
  using settled_forever [of demo5 0 demo5 1] demo_reach(5) demo_under(2) by (simp add: demo5_run)

text \<open>
  a context derived from one whose Done signal is that of a cancel context has at once the
  terminal error and the cause of that context, and is live when that one is.
\<close>

lemma child_inherits:
  assumes "reach w" "ctx_ok w (length (cells w)) p" "resolveDone w p = Some (S_Cell q)"
    and "withCancel p w = (w', c, x)"
  shows "resolveErr w' x = err_of w q \<and> readCause w' x = cause_of w q \<and> resolveDone w' x = Some (S_Cell c) \<and>
    (aborted (signals w' (S_Cell c)) \<longleftrightarrow> err_of w q \<noteq> None)"
proof -
  have i: "inv w" using reach_inv [OF assms(1)] .
  have q: "q < length (cells w)" "resolveErr w p = err_of w q"
    using done_cell [OF _ assms(2,3)] i by (auto simp: inv_def base_def)
  have n: "newCancelContext p None (resolveDone w p) w = (w', c, x)" using assms(4) by (simp add: withCancel_def)
  note r = newCancelContext_inv [OF i assms(2) n]
  have ok: "inv w'" "c < length (cells w')" "x = CancelCtx c p None" using r by auto
  note a = aborted_settled [OF i q(1)]
  have "err_of w' c = err_of w q \<and> cause_of w' c = cause_of w q"
  proof (cases "err_of w q")
    case None
    then have "live w' c" using r a assms(3) by auto
    then show ?thesis
      using None cause_settled [OF i q(1)] cause_settled [OF ok(1,2)] by (simp add: live_def)
  next
    case (Some e)
    then obtain k where "cause_of w q = Some k" "e = Canceled \<or> e = DeadlineExceeded"
      using i q(1) by (auto simp: inv_def base_def cell_ok_def)
    moreover from this have "readParentFailure w p = (e, k)"
      using parent_failure [OF _ assms(2,3) Some] i by (simp add: inv_def base_def)
    ultimately show ?thesis using r a assms(3) Some by auto
  qed
  then show ?thesis
    using ok aborted_settled [OF ok(1,2)] cause_settled [OF ok(1,2)]
    by (auto simp: readCause_def split: option.splits)
qed

section \<open>Deadlines\<close>

text \<open>
  the deadline of a context made by \<open>withDeadline\<close> is the earlier of the requested one and that
  of its parent.
\<close>

lemma effective_deadline:
  assumes "reach w" "ctx_ok w (length (cells w)) p"
    and "newDeadlineContext p dl k wall mnow w = (w', Inr (c, x))"
  shows "resolveDeadline w' x =
    (Fin (case resolveDeadline w p of (Fin pe, True) \<Rightarrow> min pe (rat_of dl) | _ \<Rightarrow> rat_of dl), True)"
proof -
  have i: "inv w" using reach_inv [OF assms(1)] .
  obtain pe where pe: "snapshotDeadline w p = Inr pe"
      "newTimedContext p (rat_of dl) pe k wall mnow w = (w', Inr (c, x))"
    using assms(3) by (auto simp: newDeadlineContext_def split: if_splits sum.splits)
  note n = newTimedContext_inv [OF i assms(2) pe(2)]
  have f: "resolveDeadline w' p = resolveDeadline w p" using n by (intro resolve_cong) (simp add: created_def)
  obtain e b where d: "resolveDeadline w p = (e, b)" by fastforce
  show ?thesis
  proof (cases b)
    case False
    then show ?thesis using n pe(1) d by (auto simp: snapshotDeadline_def split: js_number.splits)
  next
    case True
    then obtain y where "e = Fin y" "pe = Some (Fin y)"
      using pe(1) d by (cases e) (auto simp: snapshotDeadline_def)
    then show ?thesis using n f d True by (auto simp: num_less_Fin min_def)
  qed
qed

text \<open>
  a timer is active only while its context is live. A wake before the target cancels nothing and
  arms the timer for the remaining time, at most the largest delay; a wake at the target or later
  settles the context with \<open>DeadlineExceeded\<close> and the deadline's cause, and ends the timer.
\<close>

lemma timer_wake:
  assumes "reach w" "t < length (timers w)" "t_active (timers w ! t)"
  shows "live w (t_cell (timers w ! t)) \<and>
    (if now < t_target (timers w ! t)
     then cells (wake t now w) = cells w \<and>
       t_delay (timers (wake t now w) ! t) = Some (min maximumTimerDelay (t_target (timers w ! t) - now))
     else err_of (wake t now w) (t_cell (timers w ! t)) = Some DeadlineExceeded \<and>
       cause_of (wake t now w) (t_cell (timers w ! t)) = Some (t_cause (timers w ! t)) \<and>
       \<not> t_active (timers (wake t now w) ! t))"
proof -
  let ?tm = "timers w ! t" and ?w = "set_timer t ((timers w ! t)\<lparr>t_delay := None\<rparr>) w"
  have i: "inv w" using reach_inv [OF assms(1)] .
  have l: "live w (t_cell ?tm)" using active_live [OF i assms(2,3)] .
  have w': "inv (wake t now w)" "evolves w (wake t now w)" "t < length (timers (wake t now w))"
    using wake_run [OF i assms(2), of now] assms(2) by auto
  show ?thesis
  proof (cases "now < t_target ?tm")
    case True
    then show ?thesis using l assms(2,3) by (simp add: wake_def arm_def Let_def max_def)
  next
    case False
    have lw: "live ?w (t_cell ?tm)" using l by (simp add: live_def)
    then have c: "t_cell ?tm < length (cells ?w)" "err_of ?w (t_cell ?tm) = None" by (auto simp: live_def)
    have eq: "wake t now w = cancel (t_cell ?tm) DeadlineExceeded (t_cause ?tm) ?w"
      using False assms(3) by (simp add: wake_def Let_def)
    have e: "err_of (wake t now w) (t_cell ?tm) = Some DeadlineExceeded"
      "cause_of (wake t now w) (t_cell ?tm) = Some (t_cause ?tm)"
      using cancel_run [OF set_timer_inv(1) [OF i assms(2)] lw, of DeadlineExceeded "t_cause ?tm"] c
        under_self [of ?w "t_cell ?tm"] unfolding eq by auto
    have "\<not> live (wake t now w) (t_cell ?tm)" using e(1) by (simp add: live_def)
    moreover have "t_cell (timers (wake t now w) ! t) = t_cell ?tm"
      using w'(2) assms(2) by (simp add: evolves_def)
    ultimately have "\<not> t_active (timers (wake t now w) ! t)" using active_live [OF w'(1,3)] by auto
    then show ?thesis using False l e by simp
  qed
qed

section \<open>After-functions\<close>

text \<open>
  C35: each admitted registration has queued its callback once and no other callback is queued; a
  registration whose signal is aborted is no longer pending.
\<close>

theorem callbacks_once:
  assumes "reach w"
  shows "count_list (microtasks w) fn =
      card {r. r < length (regs w) \<and> r_fn (regs w ! r) = Queued fn \<and> r_state (regs w ! r) = Admitted} \<and>
    (\<forall>r s. r < length (regs w) \<and> r_signal (regs w ! r) = Some s \<and> aborted (signals w s) \<longrightarrow>
       r_state (regs w ! r) \<noteq> Pending)"
proof
  have i: "inv w" using reach_inv [OF assms(1)] .
  then have "count (mset (microtasks w)) fn = count (mset (concat (map admitted_fn (regs w)))) fn"
    by (simp add: inv_def queue_ok_def)
  then show "count_list (microtasks w) fn =
      card {r. r < length (regs w) \<and> r_fn (regs w ! r) = Queued fn \<and> r_state (regs w ! r) = Admitted}"
    by (simp add: count_mset count_admitted)
  show "\<forall>r s. r < length (regs w) \<and> r_signal (regs w ! r) = Some s \<and> aborted (signals w s) \<longrightarrow>
      r_state (regs w ! r) \<noteq> Pending"
  proof (intro allI impI notI, elim conjE)
    fix r s
    assume r: "r < length (regs w)" "r_signal (regs w ! r) = Some s" "aborted (signals w s)" "r_state (regs w ! r) = Pending"
    have "reg_ok w r" "signal_ok w s" using i r(1) by (auto simp: inv_def base_def)
    then show False using r(2-4) by (auto simp: reg_ok_def signal_ok_def)
  qed
qed

theorem callbacks_once_witness:
  "card {r. r < length (regs demo5) \<and> r_fn (regs demo5 ! r) = Queued 7 \<and> r_state (regs demo5 ! r) = Admitted} = 1"
  using callbacks_once [OF demo_reach(5), of 7] by (simp add: demo5_run)

text \<open>
  the stop function reports true exactly when the registration was pending; then its callback is
  never admitted later.
\<close>

lemma stop_prevents:
  assumes "reach w" "r < length (regs w)" "r_fn (regs w ! r) = Queued fn" "stopReg r w = (w1, ok)" "step\<^sup>*\<^sup>* w1 w2"
  shows "(ok \<longleftrightarrow> r_state (regs w ! r) = Pending) \<and> (ok \<longrightarrow> r_state (regs w2 ! r) = Stopped) \<and>
    microtasks w1 = microtasks w"
proof -
  note s = stop_run [OF reach_inv [OF assms(1)] assms(2-4)]
  have "evolves w1 w2" using run_evolves [OF assms(5)] s by blast
  moreover have "r < length (regs w1)" using s assms(2) by (simp add: evolves_def)
  ultimately show ?thesis using s by (auto simp: evolves_def)
qed

end
