(* ===== verification/Js_String.thy ===== *)
theory Js_String
  imports Js_Prelude "HOL-Library.Multiset"
begin

text \<open>
  The string operations of the language that the codecs use (\<open>split\<close>, \<open>join\<close>, \<open>startsWith\<close>,
  \<open>endsWith\<close>, \<open>lastIndexOf\<close>, \<open>toString(16)\<close>, \<open>Number\<close> and \<open>parseInt\<close> of digit strings), with the
  lemmas that splitting inverts joining and that parsing inverts printing.
\<close>

section \<open>Splitting and joining\<close>

fun split_char :: "16 word \<Rightarrow> jsstr \<Rightarrow> jsstr list" where
  "split_char d [] = [[]]"
| "split_char d (u # s) =
     (if u = d then [] # split_char d s
      else (case split_char d s of p # ps \<Rightarrow> (u # p) # ps | [] \<Rightarrow> [[u]]))"

fun join_with :: "jsstr \<Rightarrow> jsstr list \<Rightarrow> jsstr" where
  "join_with sep [] = []"
| "join_with sep [p] = p"
| "join_with sep (p # q # ps) = p @ sep @ join_with sep (q # ps)"

text \<open>\<open>split\<close> with a separator of two equal units, scanning from the left.\<close>

fun split_double :: "16 word \<Rightarrow> jsstr \<Rightarrow> jsstr list" where
  "split_double d [] = [[]]"
| "split_double d [u] = [[u]]"
| "split_double d (u # v # s) =
     (if u = d \<and> v = d then [] # split_double d s
      else (case split_double d (v # s) of p # ps \<Rightarrow> (u # p) # ps | [] \<Rightarrow> [[u]]))"

definition startsWith :: "jsstr \<Rightarrow> jsstr \<Rightarrow> bool" where
  "startsWith s p \<longleftrightarrow> take (length p) s = p"

definition endsWith :: "jsstr \<Rightarrow> jsstr \<Rightarrow> bool" where
  "endsWith s p \<longleftrightarrow> length p \<le> length s \<and> drop (length s - length p) s = p"

text \<open>The parts of \<open>s\<close> before and after the last unit \<open>d\<close>, \<open>None\<close> when \<open>d\<close> does not occur.\<close>

fun split_last :: "16 word \<Rightarrow> jsstr \<Rightarrow> (jsstr \<times> jsstr) option" where
  "split_last d [] = None"
| "split_last d (u # s) =
     (case split_last d s of
        Some (a, b) \<Rightarrow> Some (u # a, b)
      | None \<Rightarrow> if u = d then Some ([], s) else None)"

lemma split_char_not_Nil [simp]: "split_char d s \<noteq> []"
  by (cases s) (auto split: list.splits)

lemma split_double_not_Nil [simp]: "split_double d s \<noteq> []"
  by (cases "(d, s)" rule: split_double.cases) (auto split: list.splits)

lemma split_char_none: "d \<notin> set s \<Longrightarrow> split_char d s = [s]"
  by (induction s) auto

lemma split_char_append:
  "d \<notin> set p \<Longrightarrow> split_char d (p @ d # s) = p # split_char d s"
  by (induction p) auto

lemma split_join:
  assumes "ps \<noteq> []" and "\<forall>p \<in> set ps. d \<notin> set p"
  shows "split_char d (join_with [d] ps) = ps"
  using assms
  by (induction "[d]" ps rule: join_with.induct) (auto simp: split_char_none split_char_append)

lemma join_split: "join_with [d] (split_char d s) = s"
proof (induction s)
  case (Cons u s)
  obtain p ps where "split_char d s = p # ps"
    by (cases "split_char d s") auto
  with Cons show ?case
    by (cases ps) auto
qed simp

lemma split_char_parts: "p \<in> set (split_char d s) \<Longrightarrow> d \<notin> set p \<and> set p \<subseteq> set s"
  by (induction s arbitrary: p) (fastforce split: list.splits if_splits)+

lemma set_join: "set (join_with sep ps) \<subseteq> set sep \<union> (\<Union>p \<in> set ps. set p)"
  by (induction sep ps rule: join_with.induct) auto

section \<open>ASCII letters\<close>

definition lower_unit :: "16 word \<Rightarrow> 16 word" where
  "lower_unit u = (if 0x41 \<le> u \<and> u \<le> 0x5A then u + 32 else u)"

definition lower_ascii :: "jsstr \<Rightarrow> jsstr" where
  "lower_ascii s = map lower_unit s"

lemma length_lower [simp]: "length (lower_ascii s) = length s"
  by (simp add: lower_ascii_def)

section \<open>Digits\<close>

definition hex_digit :: "nat \<Rightarrow> 16 word" where
  "hex_digit n = (if n < 10 then of_nat (48 + n) else of_nat (87 + n))"

fun hex :: "nat \<Rightarrow> jsstr" where
  "hex n = (if n < 16 then [hex_digit n] else hex (n div 16) @ [hex_digit (n mod 16)])"

declare hex.simps [simp del]

definition is_digit :: "16 word \<Rightarrow> bool" where
  "is_digit u \<longleftrightarrow> 0x30 \<le> u \<and> u \<le> 0x39"

definition is_hex :: "16 word \<Rightarrow> bool" where
  "is_hex u \<longleftrightarrow> is_digit u \<or> 0x61 \<le> u \<and> u \<le> 0x66"

definition digit_value :: "16 word \<Rightarrow> nat" where
  "digit_value u = (if u \<le> 0x39 then unat u - 48 else unat u - 87)"

definition digits_value :: "nat \<Rightarrow> jsstr \<Rightarrow> nat" where
  "digits_value b s = foldl (\<lambda>a u. a * b + digit_value u) 0 s"

lemma digits_value_snoc: "digits_value b (s @ [u]) = digits_value b s * b + digit_value u"
  by (simp add: digits_value_def)

lemma unat_unit: "n < 0x10000 \<Longrightarrow> unat (of_nat n :: 16 word) = n"
  by (simp add: unat_of_nat)

lemma hex_digit_range: "n < 16 \<Longrightarrow> is_hex (hex_digit n) \<and> digit_value (hex_digit n) = n"
  by (auto simp: hex_digit_def is_hex_def is_digit_def digit_value_def word_le_nat_alt unat_unit
      simp del: of_nat_add of_nat_numeral)

lemma dec_digit_range:
  "n < 10 \<Longrightarrow> is_digit (of_nat (48 + n)) \<and> digit_value (of_nat (48 + n)) = n"
  by (auto simp: is_digit_def digit_value_def word_le_nat_alt unat_unit
      simp del: of_nat_add of_nat_numeral)

lemma hex_value: "digits_value 16 (hex n) = n \<and> list_all is_hex (hex n)"
proof (induction n rule: hex.induct)
  case (1 n)
  then show ?case
    by (subst (1 2) hex.simps)
      (auto simp: digits_value_snoc hex_digit_range digits_value_def split: if_splits)
qed

lemma decimal_value: "digits_value 10 (decimal n) = n \<and> list_all is_digit (decimal n)"
proof (induction n rule: decimal.induct)
  case (1 n)
  then show ?case
    by (subst (1 2) decimal.simps)
      (auto simp: digits_value_snoc dec_digit_range digits_value_def
        simp del: of_nat_add of_nat_numeral split: if_splits)
qed

lemma decimal_inj: "decimal m = decimal n \<longleftrightarrow> m = n"
  by (metis decimal_value)

lemma hex_length: "n < 16 ^ k \<Longrightarrow> 0 < k \<Longrightarrow> length (hex n) \<le> k"
proof (induction n arbitrary: k rule: hex.induct)
  case (1 n)
  show ?case
  proof (cases "n < 16")
    case True
    then show ?thesis using 1 by (subst hex.simps) auto
  next
    case False
    then obtain j where k: "k = Suc j" "0 < j"
      using 1(2,3) by (cases k; cases "k - 1") auto
    have "n div 16 < 16 ^ j"
      using 1(2) k by (simp add: div_less_iff_less_mult mult.commute)
    then show ?thesis
      using 1(1) [OF False, of j] False k by (subst hex.simps) auto
  qed
qed

lemma hex_not_Nil [simp]: "hex n \<noteq> []"
  by (subst hex.simps) simp

lemma decimal_not_Nil [simp]: "decimal n \<noteq> []"
  by (subst decimal.simps) simp

section \<open>Sorting with a comparator\<close>

text \<open>\<open>Array.prototype.sort\<close> is stable.\<close>

fun insert_with :: "('a \<Rightarrow> 'a \<Rightarrow> int) \<Rightarrow> 'a \<Rightarrow> 'a list \<Rightarrow> 'a list" where
  "insert_with cmp x [] = [x]"
| "insert_with cmp x (y # ys) = (if cmp x y \<le> 0 then x # y # ys else y # insert_with cmp x ys)"

definition sort_with :: "('a \<Rightarrow> 'a \<Rightarrow> int) \<Rightarrow> 'a list \<Rightarrow> 'a list" where
  "sort_with cmp xs = foldr (insert_with cmp) xs []"

lemma sort_with_key:
  fixes key :: "'a \<Rightarrow> 'b::linorder"
  assumes "\<forall>x \<in> set xs. \<forall>y \<in> set xs. cmp x y \<le> 0 \<longleftrightarrow> key x \<le> key y"
  shows "sort_with cmp xs = sort_key key xs"
  using assms
proof (induction xs)
  case (Cons x xs)
  have "insert_with cmp x ys = insort_key key x ys" if "set ys \<subseteq> set xs" for ys
    using that Cons.prems by (induction ys) auto
  then show ?case using Cons by (simp add: sort_with_def)
qed (simp add: sort_with_def)

section \<open>Objects\<close>

text \<open>
  \<open>Object.fromEntries\<close> of entries with different names: array indices are enumerated first, in
  numeric order; other names in insertion order.
\<close>

definition is_index :: "jsstr \<Rightarrow> bool" where
  "is_index s \<longleftrightarrow> s \<noteq> [] \<and> list_all is_digit s \<and> (hd s = 48 \<longrightarrow> length s = 1) \<and> digits_value 10 s < 4294967295"

definition fromEntries :: "(jsstr \<times> 'a) list \<Rightarrow> (jsstr, 'a) jsmap" where
  "fromEntries es = sort_key (\<lambda>e. digits_value 10 (fst e)) (filter (\<lambda>e. is_index (fst e)) es) @
     filter (\<lambda>e. \<not> is_index (fst e)) es"

lemma set_fromEntries [simp]: "set (fromEntries es) = set es"
  by (auto simp: fromEntries_def)

lemma mset_fromEntries: "mset (fromEntries es) = mset es"
  by (simp add: fromEntries_def)

lemma distinct_fromEntries: "distinct (map fst es) \<Longrightarrow> distinct (map fst (fromEntries es))"
  by (metis mset_fromEntries mset_eq_imp_distinct_iff mset_map)

text \<open>Sorting undoes what \<open>Object.fromEntries\<close> did to the order of sorted entries.\<close>

lemma filter_fromEntries:
  assumes "\<forall>e \<in> set es. P e \<longrightarrow> fst e = k"
  shows "filter P (fromEntries es) = filter P es"
proof (cases "is_index k")
  case True
  have "filter P (filter (\<lambda>e. is_index (fst e)) es) = filter P es"
    using assms True by (auto simp: filter_filter intro: filter_cong)
  moreover have "filter P (filter (\<lambda>e. \<not> is_index (fst e)) es) = []"
    using assms True by (auto simp: filter_empty_conv)
  moreover have "sorted (map (\<lambda>e. digits_value 10 (fst e)) (filter P es))"
  proof -
    have "map (\<lambda>e. digits_value 10 (fst e)) (filter P es) = map (\<lambda>_. digits_value 10 k) (filter P es)" using assms by auto
    then show ?thesis by (simp add: map_replicate_const)
  qed
  ultimately show ?thesis by (simp add: fromEntries_def filter_sort sort_key_id_if_sorted)
next
  case False
  have "filter P (filter (\<lambda>e. \<not> is_index (fst e)) es) = filter P es"
    using assms False by (auto simp: filter_filter intro: filter_cong)
  moreover have "filter P (filter (\<lambda>e. is_index (fst e)) es) = []"
    using assms False by (auto simp: filter_empty_conv)
  ultimately show ?thesis by (simp add: fromEntries_def filter_sort)
qed

lemma sort_fromEntries:
  assumes "\<forall>x \<in> set es. \<forall>y \<in> set es. key x = key y \<longrightarrow> fst x = fst y"
  shows "sort_key key (fromEntries (sort_key key es)) = sort_key key es"
proof (rule properties_for_sort_key)
  fix k assume "k \<in> set (sort_key key es)"
  then have "\<forall>e \<in> set (sort_key key es). key k = key e \<longrightarrow> fst e = fst k" using assms by (metis set_sort)
  then show "filter (\<lambda>x. key k = key x) (sort_key key es) = filter (\<lambda>x. key k = key x) (fromEntries (sort_key key es))"
    by (rule filter_fromEntries [symmetric])
qed (simp_all add: mset_fromEntries)

end
