(* ===== verification/Utf8.thy ===== *)
theory Utf8
  imports Js_Prelude
begin

text \<open>
  \<open>TextEncoder\<close> and \<open>TextDecoder\<close> of the Encoding standard, as far as the modelled packages use
  them: UTF-8 encoding of a JavaScript string, and decoding in fatal mode, which gives \<open>None\<close>
  where the decoder throws. Both decoder modes drop a leading byte order mark. The last lemmas show
  that decoding inverts encoding on well-formed strings.
\<close>

section \<open>Encoding\<close>

definition byte_of :: "nat \<Rightarrow> byte" where
  "byte_of n = of_nat n"

definition utf8_point :: "nat \<Rightarrow> byte list" where
  "utf8_point n =
     (if n < 0x80 then [byte_of n]
      else if n < 0x800 then [byte_of (0xC0 + n div 64), byte_of (0x80 + n mod 64)]
      else if n < 0x10000
        then [byte_of (0xE0 + n div 4096), byte_of (0x80 + n div 64 mod 64), byte_of (0x80 + n mod 64)]
      else [byte_of (0xF0 + n div 262144), byte_of (0x80 + n div 4096 mod 64),
            byte_of (0x80 + n div 64 mod 64), byte_of (0x80 + n mod 64)])"

definition scalar_value :: "nat \<Rightarrow> nat" where
  "scalar_value n = (if 0xD800 \<le> n \<and> n \<le> 0xDFFF then 0xFFFD else n)"

definition utf8_encode :: "jsstr \<Rightarrow> byte list" where
  "utf8_encode s = concat (map (utf8_point \<circ> scalar_value) (code_points s))"

section \<open>Fatal decoding\<close>

definition cont :: "nat \<Rightarrow> nat \<Rightarrow> byte \<Rightarrow> bool" where
  "cont lo hi b \<longleftrightarrow> lo \<le> unat b \<and> unat b \<le> hi"

definition low6 :: "byte \<Rightarrow> nat" where
  "low6 b = unat b - 0x80"

fun utf8_points :: "byte list \<Rightarrow> nat list option" where
  "utf8_points [] = Some []"
| "utf8_points (b # bs) =
     (let n = unat b in
      if n < 0x80 then map_option (Cons n) (utf8_points bs)
      else if 0xC2 \<le> n \<and> n \<le> 0xDF then
        (case bs of
           b1 # bs' \<Rightarrow>
             if cont 0x80 0xBF b1
             then map_option (Cons ((n - 0xC0) * 64 + low6 b1)) (utf8_points bs') else None
         | _ \<Rightarrow> None)
      else if 0xE0 \<le> n \<and> n \<le> 0xEF then
        (case bs of
           b1 # b2 # bs' \<Rightarrow>
             if cont (if n = 0xE0 then 0xA0 else 0x80) (if n = 0xED then 0x9F else 0xBF) b1 \<and>
                cont 0x80 0xBF b2
             then map_option (Cons ((n - 0xE0) * 4096 + low6 b1 * 64 + low6 b2)) (utf8_points bs')
             else None
         | _ \<Rightarrow> None)
      else if 0xF0 \<le> n \<and> n \<le> 0xF4 then
        (case bs of
           b1 # b2 # b3 # bs' \<Rightarrow>
             if cont (if n = 0xF0 then 0x90 else 0x80) (if n = 0xF4 then 0x8F else 0xBF) b1 \<and>
                cont 0x80 0xBF b2 \<and> cont 0x80 0xBF b3
             then map_option
               (Cons ((n - 0xF0) * 262144 + low6 b1 * 4096 + low6 b2 * 64 + low6 b3))
               (utf8_points bs')
             else None
         | _ \<Rightarrow> None)
      else None)"

definition units_of_point :: "nat \<Rightarrow> jsstr" where
  "units_of_point n =
     (if n < 0x10000 then [of_nat n]
      else [of_nat (0xD800 + (n - 0x10000) div 0x400), of_nat (0xDC00 + (n - 0x10000) mod 0x400)])"

definition strip_bom :: "byte list \<Rightarrow> byte list" where
  "strip_bom bs = (if take 3 bs = [0xEF, 0xBB, 0xBF] then drop 3 bs else bs)"

definition utf8_decode_fatal :: "byte list \<Rightarrow> jsstr option" where
  "utf8_decode_fatal bs = map_option (\<lambda>ps. concat (map units_of_point ps)) (utf8_points (strip_bom bs))"

section \<open>Decoding with replacement\<close>

text \<open>
  The default mode: an ill-formed sequence becomes \<open>U+FFFD\<close>, and a byte that cannot continue the
  sequence is read again as the start of the next one.
\<close>

fun utf8_points_lossy :: "byte list \<Rightarrow> nat list" where
  "utf8_points_lossy [] = []"
| "utf8_points_lossy (b # bs) =
     (let n = unat b in
      if n < 0x80 then n # utf8_points_lossy bs
      else if 0xC2 \<le> n \<and> n \<le> 0xDF then
        (case bs of
           b1 # bs1 \<Rightarrow>
             if cont 0x80 0xBF b1 then ((n - 0xC0) * 64 + low6 b1) # utf8_points_lossy bs1
             else 0xFFFD # utf8_points_lossy bs
         | [] \<Rightarrow> [0xFFFD])
      else if 0xE0 \<le> n \<and> n \<le> 0xEF then
        (case bs of
           b1 # bs1 \<Rightarrow>
             if \<not> cont (if n = 0xE0 then 0xA0 else 0x80) (if n = 0xED then 0x9F else 0xBF) b1
             then 0xFFFD # utf8_points_lossy bs
             else (case bs1 of
                b2 # bs2 \<Rightarrow>
                  if cont 0x80 0xBF b2
                  then ((n - 0xE0) * 4096 + low6 b1 * 64 + low6 b2) # utf8_points_lossy bs2
                  else 0xFFFD # utf8_points_lossy bs1
              | [] \<Rightarrow> [0xFFFD])
         | [] \<Rightarrow> [0xFFFD])
      else if 0xF0 \<le> n \<and> n \<le> 0xF4 then
        (case bs of
           b1 # bs1 \<Rightarrow>
             if \<not> cont (if n = 0xF0 then 0x90 else 0x80) (if n = 0xF4 then 0x8F else 0xBF) b1
             then 0xFFFD # utf8_points_lossy bs
             else (case bs1 of
                b2 # bs2 \<Rightarrow>
                  if \<not> cont 0x80 0xBF b2 then 0xFFFD # utf8_points_lossy bs1
                  else (case bs2 of
                     b3 # bs3 \<Rightarrow>
                       if cont 0x80 0xBF b3
                       then ((n - 0xF0) * 262144 + low6 b1 * 4096 + low6 b2 * 64 + low6 b3)
                              # utf8_points_lossy bs3
                       else 0xFFFD # utf8_points_lossy bs2
                   | [] \<Rightarrow> [0xFFFD])
              | [] \<Rightarrow> [0xFFFD])
         | [] \<Rightarrow> [0xFFFD])
      else 0xFFFD # utf8_points_lossy bs)"

definition utf8_decode :: "byte list \<Rightarrow> jsstr" where
  "utf8_decode bs = concat (map units_of_point (utf8_points_lossy (strip_bom bs)))"

section \<open>Decoding inverts encoding\<close>

definition is_scalar :: "nat \<Rightarrow> bool" where
  "is_scalar n \<longleftrightarrow> n < 0xD800 \<or> 0xDFFF < n \<and> n < 0x110000"

lemma unat_unit_less: "unat (u :: 16 word) < 0x10000"
  using unsigned_less [of u, where 'a = nat] by simp

lemma unat_byte: "n < 256 \<Longrightarrow> unat (byte_of n) = n"
  by (simp add: unat_of_nat byte_of_def)

lemma split64:
  "n div 4096 * 4096 + n div 64 mod 64 * 64 + n mod 64 = (n :: nat)"
  "n div 262144 * 262144 + n div 4096 mod 64 * 4096 + n div 64 mod 64 * 64 + n mod 64 = (n :: nat)"
proof -
  have d: "n div 4096 = n div 64 div 64" "n div 262144 = n div 64 div 64 div 64"
    by (simp_all add: div_mult2_eq [symmetric])
  show "n div 4096 * 4096 + n div 64 mod 64 * 64 + n mod 64 = n"
    unfolding d using div_mult_mod_eq [of n 64] div_mult_mod_eq [of "n div 64" 64] by linarith
  show "n div 262144 * 262144 + n div 4096 mod 64 * 4096 + n div 64 mod 64 * 64 + n mod 64 = n"
    unfolding d using div_mult_mod_eq [of n 64] div_mult_mod_eq [of "n div 64" 64]
      div_mult_mod_eq [of "n div 64 div 64" 64] by linarith
qed

lemma utf8_points_point:
  assumes "is_scalar n"
  shows "utf8_points (utf8_point n @ bs) = map_option (Cons n) (utf8_points bs) \<and>
    utf8_points_lossy (utf8_point n @ bs) = n # utf8_points_lossy bs"
proof -
  consider "n < 0x80" | "0x80 \<le> n" "n < 0x800" | "0x800 \<le> n" "n < 0x10000"
    | "0x10000 \<le> n" "n < 0x110000"
    using assms unfolding is_scalar_def by linarith
  then show ?thesis
  proof cases
    case 1
    then show ?thesis by (simp add: utf8_point_def unat_byte)
  next
    case 2
    then have "n div 64 < 32" "2 \<le> n div 64" "n mod 64 \<le> 63" by auto
    with 2 show ?thesis
      by (simp add: utf8_point_def unat_byte cont_def low6_def)
  next
    case 3
    have e: "n div 4096 * 4096 + n div 64 mod 64 * 64 + n mod 64 = n"
      and m: "n mod 64 < 64" "n div 64 mod 64 < 64"
      by (simp_all add: split64)
    then have m': "n mod 64 \<le> 63" "n div 64 mod 64 \<le> 63" by linarith+
    have "n div 4096 < 16" using 3 by auto
    moreover have "n div 4096 = 0 \<Longrightarrow> 32 \<le> n div 64 mod 64" using 3 e m by linarith
    moreover have "n div 4096 = 13 \<Longrightarrow> n div 64 mod 64 < 32"
      using 3 assms e m unfolding is_scalar_def by linarith
    ultimately show ?thesis
      using 3 e m' by (auto simp: utf8_point_def unat_byte cont_def low6_def Let_def)
  next
    case 4
    have e: "n div 262144 * 262144 + n div 4096 mod 64 * 4096 + n div 64 mod 64 * 64 + n mod 64 = n"
      and m: "n mod 64 < 64" "n div 64 mod 64 < 64" "n div 4096 mod 64 < 64"
      by (simp_all add: split64)
    then have m': "n mod 64 \<le> 63" "n div 64 mod 64 \<le> 63" "n div 4096 mod 64 \<le> 63" by linarith+
    have "n div 262144 \<le> 4" using 4 by auto
    moreover have "n div 262144 = 0 \<Longrightarrow> 16 \<le> n div 4096 mod 64" using 4 e m by linarith
    moreover have "n div 262144 = 4 \<Longrightarrow> n div 4096 mod 64 < 16" using 4 e m by linarith
    ultimately show ?thesis
      using 4 e m' by (auto simp: utf8_point_def unat_byte cont_def low6_def Let_def)
  qed
qed

lemma utf8_points_concat:
  "\<forall>n \<in> set ns. is_scalar n \<Longrightarrow> utf8_points (concat (map utf8_point ns)) = Some ns"
  by (induction ns) (auto simp: utf8_points_point)

lemma pair_point_range:
  "is_high u \<Longrightarrow> is_low v \<Longrightarrow> 0x10000 \<le> pair_point u v \<and> pair_point u v < 0x110000"
  by (auto simp: is_high_def is_low_def pair_point_def word_le_nat_alt)

lemma pair_point_units:
  assumes "is_high u" and "is_low v"
  shows "units_of_point (pair_point u v) = [u, v]"
proof -
  have u: "0xD800 \<le> unat u" "unat u \<le> 0xDBFF" and v: "0xDC00 \<le> unat v" "unat v \<le> 0xDFFF"
    using assms by (auto simp: is_high_def is_low_def word_le_nat_alt)
  define h l where "h = unat u - 0xD800" and "l = unat v - 0xDC00"
  have l: "l < 0x400"
    using v by (simp add: l_def)
  have p: "pair_point u v - 0x10000 = h * 0x400 + l"
    by (simp add: pair_point_def h_def l_def)
  have "(pair_point u v - 0x10000) div 0x400 = unat u - 0xD800"
    and "(pair_point u v - 0x10000) mod 0x400 = unat v - 0xDC00"
    unfolding p using l by (simp_all add: h_def l_def)
  then show ?thesis
    using u v pair_point_range [OF assms] by (simp add: units_of_point_def)
qed

lemma unit_units [simp]: "units_of_point (unat (u :: 16 word)) = [u]"
  using unat_unit_less [of u] by (simp add: units_of_point_def)

lemma code_points_units:
  "isWellFormed s \<Longrightarrow> concat (map units_of_point (code_points s)) = s"
proof (induction s rule: code_points.induct)
  case (2 u s)
  show ?case
  proof (cases s)
    case (Cons v t)
    then show ?thesis
      using 2 by (cases "is_high u"; cases "is_low v") (simp_all add: pair_point_units)
  qed simp
qed simp

lemma code_points_scalar: "isWellFormed s \<Longrightarrow> \<forall>n \<in> set (code_points s). is_scalar n"
proof (induction s rule: code_points.induct)
  case (2 u s)
  have unit: "is_scalar (unat u)" if "\<not> is_high u" "\<not> is_low u"
    using that unat_unit_less [of u]
    by (auto simp: is_scalar_def is_high_def is_low_def word_le_nat_alt)
  have pair: "is_scalar (pair_point u v)" if "is_high u" "is_low v" for v
    using pair_point_range [OF that] by (auto simp: is_scalar_def)
  show ?case
  proof (cases s)
    case Nil
    then show ?thesis using 2 unit by (simp split: if_splits)
  next
    case (Cons v t)
    then show ?thesis
      using 2 unit pair by (cases "is_high u"; cases "is_low v") simp_all
  qed
qed simp

lemma scalar_value_id: "is_scalar n \<Longrightarrow> scalar_value n = n"
  by (auto simp: is_scalar_def scalar_value_def)

lemma utf8_encode_wf:
  assumes "isWellFormed s"
  shows "utf8_points (utf8_encode s) = Some (code_points s)"
proof -
  have "map (utf8_point \<circ> scalar_value) (code_points s) = map utf8_point (code_points s)"
    using code_points_scalar [OF assms] by (simp add: scalar_value_id)
  then show ?thesis
    using utf8_points_concat [OF code_points_scalar [OF assms]] by (simp only: utf8_encode_def)
qed

theorem utf8_roundtrip:
  assumes "isWellFormed s" and "strip_bom (utf8_encode s) = utf8_encode s"
  shows "utf8_decode_fatal (utf8_encode s) = Some s"
  using assms by (simp add: utf8_decode_fatal_def utf8_encode_wf code_points_units)

lemma utf8_points_lossy_concat:
  "\<forall>n \<in> set ns. is_scalar n \<Longrightarrow> utf8_points_lossy (concat (map utf8_point ns)) = ns"
  by (induction ns) (auto simp: utf8_points_point)

theorem utf8_decode_encode:
  assumes "isWellFormed s" and "strip_bom (utf8_encode s) = utf8_encode s"
  shows "utf8_decode (utf8_encode s) = s"
proof -
  have "map (utf8_point \<circ> scalar_value) (code_points s) = map utf8_point (code_points s)"
    using code_points_scalar [OF assms(1)] by (simp add: scalar_value_id)
  then have "utf8_points_lossy (utf8_encode s) = code_points s"
    using utf8_points_lossy_concat [OF code_points_scalar [OF assms(1)]]
    by (simp only: utf8_encode_def)
  then show ?thesis
    using assms by (simp add: utf8_decode_def code_points_units)
qed

section \<open>ASCII\<close>

definition is_ascii :: "16 word \<Rightarrow> bool" where
  "is_ascii u \<longleftrightarrow> u < 0x80"

lemma ascii_not_surrogate: "is_ascii u \<Longrightarrow> \<not> is_high u \<and> \<not> is_low u"
  by (auto simp: is_ascii_def is_high_def is_low_def word_le_nat_alt word_less_nat_alt)

lemma code_points_ascii: "\<forall>u \<in> set s. is_ascii u \<Longrightarrow> code_points s = map unat s"
  by (induction s rule: code_points.induct) (auto simp: ascii_not_surrogate split: list.splits)

lemma isWellFormed_ascii: "\<forall>u \<in> set s. is_ascii u \<Longrightarrow> isWellFormed s"
  by (induction s rule: isWellFormed.induct) (auto simp: ascii_not_surrogate split: list.splits)

lemma utf8_encode_ascii:
  assumes "\<forall>u \<in> set s. is_ascii u"
  shows "utf8_encode s = map ucast s"
proof -
  have "(utf8_point \<circ> scalar_value) (unat u) = [ucast u]" if "u \<in> set s" for u
  proof -
    have "unat u < 0x80"
      using that assms by (simp add: is_ascii_def word_less_nat_alt)
    then show ?thesis
      by (simp add: scalar_value_def utf8_point_def byte_of_def)
  qed
  then have "map (\<lambda>u. (utf8_point \<circ> scalar_value) (unat u)) s = map (\<lambda>u. [ucast u]) s"
    by (intro map_cong) auto
  moreover have "concat (map (\<lambda>u. [ucast u :: byte]) s) = map ucast s"
    by (induction s) auto
  ultimately show ?thesis
    by (simp only: utf8_encode_def code_points_ascii [OF assms] map_map o_def)
qed

lemma ascii_no_bom: "\<forall>u \<in> set s. is_ascii u \<Longrightarrow> strip_bom (map ucast s) = map ucast s"
proof (cases s)
  case (Cons u t)
  assume "\<forall>u \<in> set s. is_ascii u"
  then have "unat u < 0x80"
    using Cons by (simp add: is_ascii_def word_less_nat_alt)
  then have "(ucast u :: byte) \<noteq> 0xEF"
    by (auto simp: word_unat_eq_iff unsigned_ucast_eq take_bit_nat_eq_self)
  then show ?thesis using Cons by (simp add: strip_bom_def)
qed (simp add: strip_bom_def)

section \<open>Concatenation and low bytes\<close>

lemma code_points_append:
  "isWellFormed a \<Longrightarrow> code_points (a @ b) = code_points a @ code_points b"
proof (induction a rule: code_points.induct)
  case (2 u s)
  show ?case
  proof (cases s)
    case Nil
    then have "\<not> is_high u" using 2(3) by (auto split: if_splits)
    then show ?thesis using Nil by (cases b) auto
  next
    case (Cons v t)
    then show ?thesis
      using 2 by (cases "is_high u"; cases "is_low v") simp_all
  qed
qed simp

lemma utf8_encode_append: "isWellFormed a \<Longrightarrow> utf8_encode (a @ b) = utf8_encode a @ utf8_encode b"
  by (simp add: utf8_encode_def code_points_append)

lemma isWellFormed_append: "isWellFormed a \<Longrightarrow> isWellFormed b \<Longrightarrow> isWellFormed (a @ b)"
proof (induction a rule: isWellFormed.induct)
  case (2 u s)
  then show ?case by (cases s) (auto split: if_splits)
qed simp

lemma byte_of_high: "0x80 \<le> n \<Longrightarrow> n < 0x100 \<Longrightarrow> 0x80 \<le> unat (byte_of n)"
  by (simp add: unat_byte)

lemma utf8_point_high:
  assumes "is_scalar n" "0x80 \<le> n" "b \<in> set (utf8_point n)"
  shows "0x80 \<le> unat b"
proof -
  have m: "0x80 + k mod 64 < 0x100" for k :: nat
    using mod_less_divisor [of 64 k] by linarith
  have "n < 0x110000" using assms(1) by (auto simp: is_scalar_def)
  then have "n div 262144 \<le> 4" "n < 0x10000 \<Longrightarrow> n div 4096 < 16" "n < 0x800 \<Longrightarrow> n div 64 < 32"
    by (simp_all add: div_less_iff_less_mult less_Suc_eq_le [symmetric])
  then show ?thesis
    using assms(2,3) m by (auto simp: utf8_point_def intro!: byte_of_high split: if_splits)
qed

lemma code_points_unit:
  "n \<in> set (code_points s) \<Longrightarrow> n < 0x10000 \<Longrightarrow> isWellFormed s \<Longrightarrow> of_nat n \<in> set s"
proof (induction s rule: code_points.induct)
  case (2 u s)
  show ?case
  proof (cases s)
    case Nil
    then show ?thesis using 2(3) by simp
  next
    case (Cons v t)
    then show ?thesis
      using 2 pair_point_range [of u v] by (cases "is_high u"; cases "is_low v") auto
  qed
qed simp

lemma utf8_encode_low:
  assumes "isWellFormed s" "b \<in> set (utf8_encode s)" "unat b < 0x80"
  shows "of_nat (unat b) \<in> set s"
proof -
  obtain n where n: "n \<in> set (code_points s)" "b \<in> set (utf8_point (scalar_value n))"
    using assms(2) by (auto simp: utf8_encode_def)
  have s: "is_scalar n" using n(1) code_points_scalar [OF assms(1)] by blast
  then have b: "b \<in> set (utf8_point n)" using n(2) by (simp add: scalar_value_id)
  then have lt: "n < 0x80" using utf8_point_high [OF s _ b] assms(3) by linarith
  then have "b = byte_of n" using b by (simp add: utf8_point_def)
  then have "unat b = n" using lt by (simp add: unat_byte)
  then show ?thesis using code_points_unit [OF n(1) _ assms(1)] lt by simp
qed

lemma strip_bom_encode:
  assumes "isWellFormed s" "take 1 s \<noteq> [0xFEFF]"
  shows "strip_bom (utf8_encode s) = utf8_encode s"
proof (rule ccontr)
  assume "strip_bom (utf8_encode s) \<noteq> utf8_encode s"
  then have t: "take 3 (utf8_encode s) = [0xEF, 0xBB, 0xBF]"
    by (auto simp: strip_bom_def split: if_splits)
  then obtain r where "utf8_encode s = 0xEF # 0xBB # 0xBF # r"
    using append_take_drop_id [of 3 "utf8_encode s"] by (metis append_Cons append_Nil)
  then have "utf8_points (0xEF # 0xBB # 0xBF # r) = Some (code_points s)"
    using utf8_encode_wf [OF assms(1)] by simp
  then obtain ps where ps: "code_points s = 0xFEFF # ps"
    by (auto simp: Let_def cont_def low6_def dest!: sym [of _ "code_points s"])
  then have "take 1 s = [0xFEFF]"
    using code_points_units [OF assms(1)] by (auto simp: units_of_point_def)
  with assms(2) show False by simp
qed

lemmas utf8_eval =
  utf8_encode_def is_high_def is_low_def utf8_point_def scalar_value_def byte_of_def
  utf8_decode_fatal_def strip_bom_def units_of_point_def cont_def low6_def js_def Let_def

declare utf8_eval [js_defs]

end
