(* ===== verification/Store.thy ===== *)
theory Store
  imports Js_String Utf8
begin

text \<open>
  \<open>packages/store/src\<close>: the provider-neutral part of the Store contract: option reducers and their
  validation (\<open>options.ts\<close>), defensive snapshots of records and pages (\<open>snapshot.ts\<close>), the order
  of keys by Unicode code point, and the conflict error (\<open>errors.ts\<close>).

  The checks of \<open>typeof\<close> hold by the types of the arguments. Byte arrays are values, so the detached
  copies of \<open>retainedBytes\<close> are the bytes themselves. A metadata record is the list of its own
  enumerable data properties, which have different keys.
\<close>

section \<open>Validation\<close>

definition decimal_text :: "nat \<Rightarrow> string" where
  "decimal_text n = map (\<lambda>u. char_of (unat u)) (decimal n)"

definition exactString :: "jsstr \<Rightarrow> string \<Rightarrow> bool \<Rightarrow> jsstr res" where
  "exactString v name nonEmpty =
     (if (nonEmpty \<and> length v = 0) \<or> \<not> isWellFormed v
      then Inl (TypeError (name @ '' must be a well-formed string'')) else Inr v)"

definition positiveInteger :: "js_number \<Rightarrow> string \<Rightarrow> js_number res" where
  "positiveInteger v name =
     (if \<not> isSafeInteger v \<or> num_less v (Fin 1) \<or> num_less (Fin (of_int max_safe)) v
      then Inl (RangeError (name @ '' must be a positive safe integer'')) else Inr v)"

definition safeInteger :: "js_number \<Rightarrow> nat \<Rightarrow> nat \<Rightarrow> string \<Rightarrow> js_number res" where
  "safeInteger v minimum maximum name =
     (if \<not> isSafeInteger v \<or> num_less v (Fin (of_nat minimum)) \<or> num_less (Fin (of_nat maximum)) v
      then Inl (RangeError (name @ '' must be a safe integer from '' @ decimal_text minimum @
                 '' through '' @ decimal_text maximum))
      else Inr v)"

text \<open>A check that is skipped for \<open>null\<close>.\<close>

definition nullable :: "('a \<Rightarrow> 'b res) \<Rightarrow> 'a option \<Rightarrow> 'b option res" where
  "nullable f x = (case x of None \<Rightarrow> Inr None | Some v \<Rightarrow> bindE (f v) (\<lambda>y. Inr (Some y)))"

section \<open>Options\<close>

record write_options =
  expiresInMs :: "js_number option"
  w_ifAbsent :: "bool option"
  w_ifRevision :: "jsstr option"

record delete_options =
  d_ifRevision :: "jsstr option"

record list_options =
  l_prefix :: jsstr
  l_limit :: "js_number option"
  l_cursor :: "jsstr option"

definition DefaultWriteOptions :: write_options where
  "DefaultWriteOptions = \<lparr>expiresInMs = None, w_ifAbsent = Some False, w_ifRevision = None\<rparr>"

definition DefaultDeleteOptions :: delete_options where
  "DefaultDeleteOptions = \<lparr>d_ifRevision = None\<rparr>"

definition DefaultListOptions :: list_options where
  "DefaultListOptions = \<lparr>l_prefix = [], l_limit = None, l_cursor = None\<rparr>"

definition snapshotWriteOptions :: "write_options \<Rightarrow> write_options res" where
  "snapshotWriteOptions v =
     (let absent = (case w_ifAbsent v of None \<Rightarrow> False | Some b \<Rightarrow> b) in
      bindE (nullable (\<lambda>r. exactString r ''Store ifRevision'' True) (w_ifRevision v)) (\<lambda>revision.
      if absent \<and> revision \<noteq> None
      then Inl (TypeError ''Store ifAbsent and ifRevision are mutually exclusive'')
      else
        bindE (nullable (\<lambda>n. positiveInteger n ''Store expiresInMs'') (expiresInMs v)) (\<lambda>ms.
        Inr \<lparr>expiresInMs = ms, w_ifAbsent = Some absent, w_ifRevision = revision\<rparr>)))"

definition snapshotDeleteOptions :: "delete_options \<Rightarrow> delete_options res" where
  "snapshotDeleteOptions v =
     bindE (nullable (\<lambda>r. exactString r ''Store ifRevision'' True) (d_ifRevision v)) (\<lambda>revision.
     Inr \<lparr>d_ifRevision = revision\<rparr>)"

definition snapshotListOptions :: "list_options \<Rightarrow> list_options res" where
  "snapshotListOptions v =
     bindE (exactString (l_prefix v) ''Store list prefix'' False) (\<lambda>pfx.
     bindE (nullable (\<lambda>n. positiveInteger n ''Store list limit'') (l_limit v)) (\<lambda>lim.
     bindE (nullable (\<lambda>c. exactString c ''Store list cursor'' True) (l_cursor v)) (\<lambda>cur.
     Inr \<lparr>l_prefix = pfx, l_limit = lim, l_cursor = cur\<rparr>)))"

text \<open>A reducer is any function of the caller: it returns a candidate or throws.\<close>

type_synonym 'o reducer = "'o \<Rightarrow> 'o res"

definition expiresIn :: "js_number \<Rightarrow> write_options reducer res" where
  "expiresIn valueMs =
     bindE (positiveInteger valueMs ''Store expiresInMs'') (\<lambda>captured.
     Inr (\<lambda>o'. Inr (o'\<lparr>expiresInMs := Some captured, w_ifAbsent := Some (w_ifAbsent o' = Some True)\<rparr>)))"

definition ifAbsent :: "write_options reducer" where
  "ifAbsent = (\<lambda>o'. Inr (o'\<lparr>w_ifAbsent := Some True, w_ifRevision := None\<rparr>))"

definition ifRevision :: "jsstr \<Rightarrow> write_options reducer res" where
  "ifRevision revision =
     bindE (exactString revision ''Store ifRevision'' True) (\<lambda>captured.
     Inr (\<lambda>o'. Inr (o'\<lparr>w_ifAbsent := Some False, w_ifRevision := Some captured\<rparr>)))"

definition ifRevisionDelete :: "jsstr \<Rightarrow> delete_options reducer res" where
  "ifRevisionDelete revision =
     bindE (exactString revision ''Store ifRevision'' True) (\<lambda>captured.
     Inr (\<lambda>_. Inr \<lparr>d_ifRevision = Some captured\<rparr>))"

definition prefix :: "jsstr \<Rightarrow> list_options reducer res" where
  "prefix v =
     bindE (exactString v ''Store list prefix'' False) (\<lambda>captured. Inr (\<lambda>o'. Inr (o'\<lparr>l_prefix := captured\<rparr>)))"

definition limit :: "js_number \<Rightarrow> list_options reducer res" where
  "limit c =
     bindE (positiveInteger c ''Store list limit'') (\<lambda>captured. Inr (\<lambda>o'. Inr (o'\<lparr>l_limit := Some captured\<rparr>)))"

definition cursor :: "jsstr \<Rightarrow> list_options reducer res" where
  "cursor v =
     bindE (exactString v ''Store list cursor'' True) (\<lambda>captured. Inr (\<lambda>o'. Inr (o'\<lparr>l_cursor := Some captured\<rparr>)))"

fun reduce_options :: "('o \<Rightarrow> 'o res) \<Rightarrow> 'o \<Rightarrow> 'o reducer list \<Rightarrow> 'o res" where
  "reduce_options snap candidate [] = Inr candidate"
| "reduce_options snap candidate (option # options) =
     bindE (option candidate) (\<lambda>o'. bindE (snap o') (\<lambda>next. reduce_options snap next options))"

definition writeOptions :: "write_options reducer list \<Rightarrow> write_options res" where
  "writeOptions options = reduce_options snapshotWriteOptions DefaultWriteOptions options"

definition deleteOptions :: "delete_options reducer list \<Rightarrow> delete_options res" where
  "deleteOptions options = reduce_options snapshotDeleteOptions DefaultDeleteOptions options"

definition listOptions :: "list_options reducer list \<Rightarrow> list_options res" where
  "listOptions options = reduce_options snapshotListOptions DefaultListOptions options"

section \<open>The order of keys\<close>

definition codePointAt :: "jsstr \<Rightarrow> nat \<Rightarrow> nat" where
  "codePointAt s i =
     (if is_high (s ! i) \<and> Suc i < length s \<and> is_low (s ! Suc i) then pair_point (s ! i) (s ! Suc i)
      else unat (s ! i))"

function compare_loop :: "jsstr \<Rightarrow> jsstr \<Rightarrow> nat \<Rightarrow> nat \<Rightarrow> int" where
  "compare_loop l r i j =
     (if i < length l \<and> j < length r then
        let lp = codePointAt l i; rp = codePointAt r j in
        if lp < rp then -1
        else if rp < lp then 1
        else compare_loop l r (i + (if 0xFFFF < lp then 2 else 1)) (j + (if 0xFFFF < rp then 2 else 1))
      else if i < length l then 1
      else if j < length r then -1
      else 0)"
  by pat_completeness auto
termination
  by (relation "measure (\<lambda>(l, r, i, j). length l - i)") auto

declare compare_loop.simps [simp del]

definition compareStoreKeys :: "jsstr \<Rightarrow> jsstr \<Rightarrow> int res" where
  "compareStoreKeys left right =
     bindE (exactString left ''left Store key'' False) (\<lambda>l.
     bindE (exactString right ''right Store key'' False) (\<lambda>r. Inr (compare_loop l r 0 0)))"

text \<open>
  \<open>Array.prototype.sort\<close> with a comparator: stable. The keys that are sorted have passed
  \<open>exactString\<close>, so the comparator does not throw.
\<close>

definition compare_key :: "jsstr \<Rightarrow> jsstr \<Rightarrow> int" where
  "compare_key l r = (case compareStoreKeys l r of Inr n \<Rightarrow> n | Inl _ \<Rightarrow> 0)"

definition sort_by :: "('a \<Rightarrow> jsstr) \<Rightarrow> 'a list \<Rightarrow> 'a list" where
  "sort_by f xs = sort_with (\<lambda>x y. compare_key (f x) (f y)) xs"

section \<open>Snapshots\<close>

type_synonym metadata = "(jsstr, jsstr) jsmap"

record store_record =
  r_key :: jsstr
  r_value :: "byte list"
  r_metadata :: metadata
  r_revision :: jsstr
  r_expiresAt :: "js_number option"

record store_input =
  i_key :: jsstr
  i_value :: "byte list"
  i_metadata :: "metadata option"

record store_page =
  p_records :: "store_record list"
  p_cursor :: "jsstr option"

definition snapshotMetadata :: "metadata \<Rightarrow> metadata res" where
  "snapshotMetadata v =
     bindE (mapE (\<lambda>(k, x).
        bindE (exactString k ''Store metadata key'' False) (\<lambda>k'.
        bindE (exactString x ''Store metadata value'' False) (\<lambda>x'. Inr (k', x')))) v) (\<lambda>copied.
     Inr (fromEntries (sort_by fst copied)))"

definition snapshotStoreRecordInput :: "store_input \<Rightarrow> store_input res" where
  "snapshotStoreRecordInput v =
     bindE (snapshotMetadata (case i_metadata v of None \<Rightarrow> [] | Some m \<Rightarrow> m)) (\<lambda>m.
     bindE (exactString (i_key v) ''Store record input key'' True) (\<lambda>k.
     Inr \<lparr>i_key = k, i_value = i_value v, i_metadata = Some m\<rparr>))"

definition snapshotStoreRecord :: "store_record \<Rightarrow> store_record res" where
  "snapshotStoreRecord v =
     bindE (nullable (\<lambda>n. safeInteger n 0 9007199254740991 ''Store record expiresAt'') (r_expiresAt v)) (\<lambda>ex.
     bindE (exactString (r_key v) ''Store record key'' True) (\<lambda>k.
     bindE (snapshotMetadata (r_metadata v)) (\<lambda>m.
     bindE (exactString (r_revision v) ''Store record revision'' True) (\<lambda>rev.
     Inr \<lparr>r_key = k, r_value = r_value v, r_metadata = m, r_revision = rev, r_expiresAt = ex\<rparr>))))"

fun page_loop :: "jsstr set \<Rightarrow> store_record list \<Rightarrow> store_record list res" where
  "page_loop keys [] = Inr []"
| "page_loop keys (x # xs) =
     bindE (snapshotStoreRecord x) (\<lambda>y.
     if r_key y \<in> keys then Inl (TypeError ''Store page record keys must be unique'')
     else bindE (page_loop (insert (r_key y) keys) xs) (\<lambda>ys. Inr (y # ys)))"

definition snapshotStorePage :: "store_page \<Rightarrow> store_page res" where
  "snapshotStorePage v =
     bindE (page_loop {} (p_records v)) (\<lambda>records.
     bindE (nullable (\<lambda>c. exactString c ''Store page cursor'' True) (p_cursor v)) (\<lambda>c.
     Inr \<lparr>p_records = sort_by r_key records, p_cursor = c\<rparr>))"

definition detail :: "jsstr \<Rightarrow> string \<Rightarrow> jsstr res" where
  "detail v name =
     (if length v = 0 \<or> \<not> isWellFormed v
      then Inl (TypeError (name @ '' must be a non-empty well-formed string'')) else Inr v)"

text \<open>The conflict error, or the error of its own checks.\<close>

definition newStoreConflictError :: "jsstr \<Rightarrow> jsstr option \<Rightarrow> jsstr option \<Rightarrow> thrown" where
  "newStoreConflictError key expected actual =
     (case bindE (detail key ''Store conflict key'') (\<lambda>k.
           bindE (nullable (\<lambda>r. detail r ''Store expected revision'') expected) (\<lambda>e.
           bindE (nullable (\<lambda>r. detail r ''Store actual revision'') actual) (\<lambda>a. Inr (k, e, a)))) of
        Inl err \<Rightarrow> err
      | Inr (k, e, a) \<Rightarrow> StoreConflict k e a)"

section \<open>Correctness of the order\<close>

lemma pair_point_big: "0xFFFF < pair_point u v"
  by (simp add: pair_point_def)

lemma code_points_at:
  assumes "i < length s"
  shows "code_points (drop i s) =
    codePointAt s i # code_points (drop (i + (if 0xFFFF < codePointAt s i then 2 else 1)) s)"
proof -
  have d: "drop i s = s ! i # drop (Suc i) s" using assms by (simp add: Cons_nth_drop_Suc)
  show ?thesis
  proof (cases "Suc i < length s")
    case True
    then have d2: "drop (Suc i) s = s ! Suc i # drop (Suc (Suc i)) s" by (simp add: Cons_nth_drop_Suc)
    show ?thesis
      using True unat_unit_less [of "s ! i"] pair_point_big [of "s ! i" "s ! Suc i"]
      by (simp add: d d2 codePointAt_def)
  next
    case False
    then show ?thesis using unat_unit_less [of "s ! i"] unfolding d by (simp add: codePointAt_def)
  qed
qed

definition order_sign :: "'a::linorder \<Rightarrow> 'a \<Rightarrow> int" where
  "order_sign x y = (if x < y then -1 else if y < x then 1 else 0)"

lemma order_sign_le: "order_sign x y \<le> 0 \<longleftrightarrow> x \<le> y"
  by (auto simp: order_sign_def)

lemma order_sign_Nil:
  "order_sign ([] :: nat list) ys = (if ys = [] then 0 else -1)"
  "order_sign (xs :: nat list) [] = (if xs = [] then 0 else 1)"
  by (cases ys; simp add: order_sign_def) (cases xs; simp add: order_sign_def)

lemma code_points_Nil [simp]: "code_points s = [] \<longleftrightarrow> s = []"
  by (cases s) (auto split: list.splits)

lemma compare_loop_points:
  "compare_loop l r i j = order_sign (code_points (drop i l)) (code_points (drop j r))"
proof (induction l r i j rule: compare_loop.induct)
  case (1 l r i j)
  show ?case
  proof (cases "i < length l \<and> j < length r")
    case True
    let ?lp = "codePointAt l i" and ?rp = "codePointAt r j"
    have p: "code_points (drop i l) = ?lp # code_points (drop (i + (if 0xFFFF < ?lp then 2 else 1)) l)"
      "code_points (drop j r) = ?rp # code_points (drop (j + (if 0xFFFF < ?rp then 2 else 1)) r)"
      using True code_points_at by blast+
    show ?thesis
    proof (cases "?lp = ?rp")
      case eq: True
      have "compare_loop l r i j =
          compare_loop l r (i + (if 0xFFFF < ?lp then 2 else 1)) (j + (if 0xFFFF < ?rp then 2 else 1))"
        using True eq by (subst compare_loop.simps) (simp add: Let_def)
      also have "\<dots> = order_sign (code_points (drop (i + (if 0xFFFF < ?lp then 2 else 1)) l))
          (code_points (drop (j + (if 0xFFFF < ?rp then 2 else 1)) r))"
        using True eq by (intro 1 [OF _ refl refl]) auto
      finally show ?thesis unfolding p using eq by (simp add: order_sign_def)
    next
      case False
      then show ?thesis
        unfolding p using True by (subst compare_loop.simps) (auto simp: Let_def order_sign_def)
    qed
  next
    case False
    then show ?thesis
      by (subst compare_loop.simps)
        (auto simp: order_sign_Nil code_points_Nil simp del: code_points.simps(2))
  qed
qed

text \<open>Strings and their code points are in bijection, so the order of keys is a linear order.\<close>

lemma compare_key_points:
  "isWellFormed l \<Longrightarrow> isWellFormed r \<Longrightarrow> compare_key l r = order_sign (code_points l) (code_points r)"
  by (simp add: compare_key_def compareStoreKeys_def exactString_def compare_loop_points)

lemma sort_by_key:
  "\<forall>x \<in> set xs. isWellFormed (f x) \<Longrightarrow> sort_by f xs = sort_key (\<lambda>x. code_points (f x)) xs"
  unfolding sort_by_def by (rule sort_with_key) (simp add: compare_key_points order_sign_le)

lemma code_points_inj: "isWellFormed s \<Longrightarrow> isWellFormed t \<Longrightarrow> code_points s = code_points t \<longleftrightarrow> s = t"
  using code_points_units by metis

text \<open>
  on well-formed keys \<open>compareStoreKeys\<close> is the lexicographic order of their code points, zero
  only for equal keys; on any other key it throws.
\<close>

lemma compareStoreKeys_order:
  "compareStoreKeys l r =
     (if \<not> isWellFormed l then Inl (TypeError ''left Store key must be a well-formed string'')
      else if \<not> isWellFormed r then Inl (TypeError ''right Store key must be a well-formed string'')
      else Inr (if l = r then 0 else if code_points l < code_points r then -1 else 1))"
  using code_points_inj [of l r]
  by (auto simp: compareStoreKeys_def exactString_def compare_loop_points order_sign_def)

section \<open>What validation gives\<close>

definition text_ok :: "bool \<Rightarrow> jsstr \<Rightarrow> bool" where
  "text_ok nonEmpty v \<longleftrightarrow> isWellFormed v \<and> (nonEmpty \<longrightarrow> v \<noteq> [])"

definition positive_ok :: "js_number \<Rightarrow> bool" where
  "positive_ok v \<longleftrightarrow> (\<exists>i. v = Fin (of_int i) \<and> 1 \<le> i \<and> i \<le> max_safe)"

lemma exactString_Inr [js_res]: "exactString v name ne = Inr x \<longleftrightarrow> x = v \<and> text_ok ne v"
  by (auto simp: exactString_def text_ok_def)

lemma nullable_Inr [js_res]:
  "nullable f x = Inr y \<longleftrightarrow>
     (case x of None \<Rightarrow> y = None | Some v \<Rightarrow> (\<exists>z. f v = Inr z \<and> y = Some z))"
  by (auto simp: nullable_def js_res split: option.splits)

lemma optionInteger_Inr [js_res]: "positiveInteger v name = Inr x \<longleftrightarrow> x = v \<and> positive_ok v"
proof -
  have "(isSafeInteger v \<and> \<not> num_less v (Fin 1) \<and> \<not> num_less (Fin (of_int max_safe)) v) = positive_ok v"
    using isSafeInteger_int_of [of v] num_less_safe [of v] by (auto simp: positive_ok_def max_safe_def)
  then show ?thesis by (auto simp: positiveInteger_def)
qed

definition write_ok :: "write_options \<Rightarrow> bool" where
  "write_ok w \<longleftrightarrow> pred_option positive_ok (expiresInMs w) \<and> pred_option (text_ok True) (w_ifRevision w) \<and>
     (w_ifAbsent w = Some False \<or> w_ifAbsent w = Some True \<and> w_ifRevision w = None)"

definition list_ok :: "list_options \<Rightarrow> bool" where
  "list_ok l \<longleftrightarrow> isWellFormed (l_prefix l) \<and> pred_option positive_ok (l_limit l) \<and>
     pred_option (text_ok True) (l_cursor l)"

lemma reduce_options_inv:
  assumes "reduce_options snap c os = Inr o'" "P c" "\<And>x y. snap x = Inr y \<Longrightarrow> P y"
  shows "P o'"
  using assms(1,2) by (induction os arbitrary: c) (auto simp: js_res dest: assms(3))

lemma snapshotWriteOptions_ok: "snapshotWriteOptions v = Inr w \<Longrightarrow> write_ok w"
  by (auto simp: snapshotWriteOptions_def write_ok_def Let_def js_res split: if_splits option.splits)

text \<open>
  C40: whatever reducers the caller passes, resolved options are legal: a positive safe lifetime or
  none, a non-empty well-formed revision or none, and never both conditions at once; a well-formed
  prefix, a positive safe limit or none, a non-empty well-formed cursor or none.
\<close>

theorem options_typed:
  "(\<forall>w. writeOptions ws = Inr w \<longrightarrow> write_ok w) \<and>
   (\<forall>d. deleteOptions ds = Inr d \<longrightarrow> pred_option (text_ok True) (d_ifRevision d)) \<and>
   (\<forall>l. listOptions ls = Inr l \<longrightarrow> list_ok l)"
proof (intro conjI allI impI)
  show "write_ok w" if "writeOptions ws = Inr w" for w
    using that unfolding writeOptions_def
    by (rule reduce_options_inv) (auto simp: DefaultWriteOptions_def write_ok_def dest: snapshotWriteOptions_ok)
  show "pred_option (text_ok True) (d_ifRevision d)" if "deleteOptions ds = Inr d" for d
    using that unfolding deleteOptions_def
    by (rule reduce_options_inv)
      (auto simp: DefaultDeleteOptions_def snapshotDeleteOptions_def js_res split: option.splits)
  show "list_ok l" if "listOptions ls = Inr l" for l
    using that unfolding listOptions_def
    by (rule reduce_options_inv)
      (auto simp: DefaultListOptions_def snapshotListOptions_def list_ok_def text_ok_def js_res split: option.splits)
qed

theorem options_typed_witness:
  "writeOptions [ifAbsent] = Inr \<lparr>expiresInMs = None, w_ifAbsent = Some True, w_ifRevision = None\<rparr> \<and>
   write_ok \<lparr>expiresInMs = None, w_ifAbsent = Some True, w_ifRevision = None\<rparr>"
proof -
  have "writeOptions [ifAbsent] = Inr \<lparr>expiresInMs = None, w_ifAbsent = Some True, w_ifRevision = None\<rparr>"
    by (simp add: writeOptions_def ifAbsent_def DefaultWriteOptions_def snapshotWriteOptions_def nullable_def Let_def)
  then show ?thesis using options_typed [of "[ifAbsent]" "[]" "[]"] by blast
qed

section \<open>Snapshots are clean\<close>

abbreviation sorted_entries :: "metadata \<Rightarrow> metadata" where
  "sorted_entries m \<equiv> fromEntries (sort_key (\<lambda>e. code_points (fst e)) m)"

lemma snapshotMetadata_Inr [js_res]:
  "snapshotMetadata m = Inr y \<longleftrightarrow>
     (\<forall>e \<in> set m. isWellFormed (fst e) \<and> isWellFormed (snd e)) \<and> y = sorted_entries m"
proof -
  let ?f = "\<lambda>(k, x). bindE (exactString k ''Store metadata key'' False)
      (\<lambda>k'. bindE (exactString x ''Store metadata value'' False) (\<lambda>x'. Inr (k', x')))"
  have "mapE ?f m = Inr z \<longleftrightarrow> (\<forall>e \<in> set m. isWellFormed (fst e) \<and> isWellFormed (snd e)) \<and> z = m" for z
    by (induction m arbitrary: z) (auto simp: js_res text_ok_def)
  then show ?thesis
    using sort_by_key [of m fst] by (auto simp: snapshotMetadata_def js_res)
qed

definition time_ok :: "js_number \<Rightarrow> bool" where
  "time_ok v \<longleftrightarrow> (\<exists>i. v = Fin (of_int i) \<and> 0 \<le> i \<and> i \<le> max_safe)"

lemma safeInteger_Inr [js_res]: "safeInteger v 0 9007199254740991 name = Inr x \<longleftrightarrow> x = v \<and> time_ok v"
proof -
  have "(isSafeInteger v \<and> \<not> num_less v (Fin (of_nat 0)) \<and> \<not> num_less (Fin (of_nat 9007199254740991)) v) = time_ok v"
    using isSafeInteger_int_of [of v] num_less_safe [of v] by (auto simp: time_ok_def max_safe_def)
  then show ?thesis by (auto simp: safeInteger_def)
qed

text \<open>A record that is its own snapshot; every snapshot is one.\<close>

definition clean :: "store_record \<Rightarrow> bool" where
  "clean r \<longleftrightarrow> text_ok True (r_key r) \<and> text_ok True (r_revision r) \<and> pred_option time_ok (r_expiresAt r) \<and>
     (\<forall>e \<in> set (r_metadata r). isWellFormed (fst e) \<and> isWellFormed (snd e)) \<and>
     sorted_entries (r_metadata r) = r_metadata r"

lemma snapshotStoreRecord_Inr [js_res]:
  "snapshotStoreRecord r = Inr y \<longleftrightarrow>
     text_ok True (r_key r) \<and> text_ok True (r_revision r) \<and> pred_option time_ok (r_expiresAt r) \<and>
     (\<forall>e \<in> set (r_metadata r). isWellFormed (fst e) \<and> isWellFormed (snd e)) \<and>
     y = r\<lparr>r_metadata := sorted_entries (r_metadata r)\<rparr>"
proof (cases "r_expiresAt r")
  case None
  then show ?thesis by (cases r) (simp add: snapshotStoreRecord_def js_res, blast)
next
  case (Some n)
  then show ?thesis by (cases r) (simp add: snapshotStoreRecord_def js_res, blast)
qed

lemma sorted_entries_idem:
  "\<forall>e \<in> set m. isWellFormed (fst e) \<Longrightarrow> sorted_entries (sorted_entries m) = sorted_entries m"
  using code_points_inj by (subst sort_fromEntries) auto

lemma snapshot_clean: "snapshotStoreRecord r = Inr y \<Longrightarrow> clean y"
  by (auto simp: js_res clean_def sorted_entries_idem)

lemma clean_snapshot: "clean r \<Longrightarrow> snapshotStoreRecord r = Inr r"
  by (simp add: js_res clean_def)

section \<open>The contract of a Store\<close>

text \<open>
  The interface \<open>Store\<close> of \<open>types.ts\<close>, as laws on what is visible at a time. \<open>used\<close> holds the
  revisions that were ever given out; a write gives out a new one. The lemmas hold for every
  provider that keeps these laws.
\<close>

definition expires_by :: "int \<Rightarrow> store_record \<Rightarrow> bool" where
  "expires_by now r \<longleftrightarrow> (case r_expiresAt r of None \<Rightarrow> False | Some e \<Rightarrow> num_less e (Fin (of_int now)) \<or> e = Fin (of_int now))"

locale store_contract =
  fixes ok :: "'s \<Rightarrow> bool"
    and used :: "'s \<Rightarrow> jsstr set"
    and view :: "'s \<Rightarrow> int \<Rightarrow> jsstr \<Rightarrow> store_record option"
    and rd :: "'x \<Rightarrow> jsstr \<Rightarrow> int \<Rightarrow> 's \<Rightarrow> 's \<times> store_record option res"
    and wr :: "'x \<Rightarrow> store_input \<Rightarrow> write_options reducer list \<Rightarrow> int \<Rightarrow> 's \<Rightarrow> 's \<times> store_record res"
    and del :: "'x \<Rightarrow> jsstr \<Rightarrow> delete_options reducer list \<Rightarrow> int \<Rightarrow> 's \<Rightarrow> 's \<times> bool res"
    and ls :: "'x \<Rightarrow> list_options reducer list \<Rightarrow> int \<Rightarrow> 's \<Rightarrow> 's \<times> store_page res"
  assumes view_used: "ok s \<Longrightarrow> view s t k = Some r \<Longrightarrow> r_revision r \<in> used s"
    and rd_law: "ok s \<Longrightarrow> rd x k now s = (s', res) \<Longrightarrow>
      ok s' \<and> used s \<subseteq> used s' \<and> (\<forall>t j. view s' t j \<in> {None, view s t j}) \<and> (\<forall>t \<ge> now. view s' t = view s t) \<and>
      (\<forall>r. res = Inr r \<longrightarrow> r = view s now k)"
    and wr_law: "ok s \<Longrightarrow> wr x i os now s = (s', wres) \<Longrightarrow>
      ok s' \<and> used s \<subseteq> used s' \<and>
      (case wres of
         Inl e \<Rightarrow> s' = s
       | Inr r \<Rightarrow>
           r_key r = i_key i \<and> r_value r = i_value i \<and> r_revision r \<notin> used s \<and>
           (\<forall>t. view s' t (i_key i) \<in> {None, Some r}) \<and>
           (\<forall>t j. j \<noteq> i_key i \<longrightarrow> view s' t j \<in> {None, view s t j}) \<and>
           (\<forall>t \<ge> now. view s' t = (view s t)(i_key i := if expires_by t r then None else Some r)) \<and>
           (\<exists>w. writeOptions os = Inr w \<and>
              (w_ifRevision w = None \<or> w_ifRevision w = map_option r_revision (view s now (i_key i))) \<and>
              (w_ifAbsent w = Some True \<longrightarrow> view s now (i_key i) = None)))"
    and del_law: "ok s \<Longrightarrow> del x k ds now s = (s', dres) \<Longrightarrow>
      ok s' \<and> used s \<subseteq> used s' \<and> (\<forall>t j. view s' t j \<in> {None, view s t j}) \<and>
      (case dres of
         Inl e \<Rightarrow> s' = s
       | Inr b \<Rightarrow> (b \<longleftrightarrow> view s now k \<noteq> None) \<and> (\<forall>t \<ge> now. view s' t = (view s t)(k := None)))"
    and ls_law: "ok s \<Longrightarrow> ls x qs now s = (s', lres) \<Longrightarrow>
      ok s' \<and> used s \<subseteq> used s' \<and> (\<forall>t j. view s' t j \<in> {None, view s t j}) \<and> (\<forall>t \<ge> now. view s' t = view s t)"
begin

lemma wr_Inr:
  assumes "ok s" "wr x i os now s = (s', Inr r)"
  shows "ok s'" "used s \<subseteq> used s'" "r_revision r \<notin> used s" "view s' t (i_key i) \<in> {None, Some r}"
    "j \<noteq> i_key i \<Longrightarrow> view s' t j \<in> {None, view s t j}"
    "now \<le> t \<Longrightarrow> view s' t = (view s t)(i_key i := if expires_by t r then None else Some r)"
    "writeOptions os = Inr w \<Longrightarrow> w_ifRevision w = Some rv \<Longrightarrow> map_option r_revision (view s now (i_key i)) = Some rv"
  using wr_law [OF assms] by simp_all

text \<open>One call on the store, and the calls that follow.\<close>

definition call :: "'s \<Rightarrow> 's \<Rightarrow> bool" where
  "call s s' \<longleftrightarrow> (\<exists>x k now res. rd x k now s = (s', res)) \<or> (\<exists>x i os now res. wr x i os now s = (s', res)) \<or>
     (\<exists>x k ds now res. del x k ds now s = (s', res)) \<or> (\<exists>x qs now res. ls x qs now s = (s', res))"

definition gone :: "jsstr \<Rightarrow> jsstr \<Rightarrow> 's \<Rightarrow> bool" where
  "gone rv k s \<longleftrightarrow> ok s \<and> rv \<in> used s \<and> (\<forall>t r. view s t k = Some r \<longrightarrow> r_revision r \<noteq> rv)"

lemma shrink_gone:
  assumes "gone rv k s" "ok s'" "used s \<subseteq> used s'" "\<forall>t j. view s' t j \<in> {None, view s t j}"
  shows "gone rv k s'"
proof -
  have "r_revision r \<noteq> rv" if "view s' t k = Some r" for t r
  proof -
    have "view s' t k \<in> {None, view s t k}" using assms(4) by blast
    then show ?thesis using that assms(1) by (auto simp: gone_def)
  qed
  then show ?thesis using assms(1-3) by (auto simp: gone_def)
qed

lemma call_gone:
  assumes "gone rv k s" "call s s'"
  shows "gone rv k s'"
proof -
  have s: "ok s" "rv \<in> used s" using assms(1) by (auto simp: gone_def)
  consider x j now res where "rd x j now s = (s', res)" | x i os now res where "wr x i os now s = (s', res)"
    | x j ds now res where "del x j ds now s = (s', res)" | x qs now res where "ls x qs now s = (s', res)"
    using assms(2) by (auto simp: call_def)
  then show ?thesis
  proof cases
    case 1
    then show ?thesis using shrink_gone [OF assms(1)] rd_law [OF s(1) 1] by blast
  next
    case 2
    show ?thesis
    proof (cases res)
      case (Inl e)
      then show ?thesis using wr_law [OF s(1) 2] assms(1) by simp
    next
      case (Inr r)
      note w = wr_Inr [OF s(1) 2 [unfolded Inr]]
      have "r_revision x \<noteq> rv" if x: "view s' t k = Some x" for t x
      proof (cases "k = i_key i")
        case True
        then show ?thesis using x w(3) w(4) [of t] s(2) by auto
      next
        case False
        then show ?thesis using x w(5) [OF False, of t] assms(1) by (auto simp: gone_def)
      qed
      then show ?thesis using w(1,2) s(2) by (auto simp: gone_def)
    qed
  next
    case 3
    then show ?thesis using shrink_gone [OF assms(1)] del_law [OF s(1) 3] by blast
  next
    case 4
    then show ?thesis using shrink_gone [OF assms(1)] ls_law [OF s(1) 4] by blast
  qed
qed

lemma calls_gone: "call\<^sup>*\<^sup>* s s' \<Longrightarrow> gone rv k s \<Longrightarrow> gone rv k s'"
  by (induction rule: rtranclp.induct) (auto dest: call_gone)

text \<open>A revision that a conditional write replaced never admits another conditional write.\<close>

lemma cas_once:
  assumes "ok s" "writeOptions os = Inr w" "w_ifRevision w = Some rv" "wr x i os now s = (s1, Inr r)" "call\<^sup>*\<^sup>* s1 s2"
    and "writeOptions os' = Inr w'" "w_ifRevision w' = Some rv" "i_key i' = i_key i" "wr x' i' os' now' s2 = (s3, res)"
  shows "\<exists>e. res = Inl e \<and> s3 = s2"
proof -
  note l = wr_Inr [OF assms(1,4)]
  obtain r0 where r0: "view s now (i_key i) = Some r0" "r_revision r0 = rv" using l(7) [OF assms(2,3)] by auto
  have u: "rv \<in> used s" using view_used [OF assms(1) r0(1)] r0(2) by simp
  have "r_revision x \<noteq> rv" if "view s1 t (i_key i) = Some x" for t x
    using that l(3) l(4) [of t] u by auto
  then have "gone rv (i_key i) s1" using l(1,2) u by (auto simp: gone_def)
  then have g: "gone rv (i_key i) s2" using calls_gone assms(5) by blast
  then have o2: "ok s2" by (simp add: gone_def)
  show ?thesis
  proof (cases res)
    case (Inl e)
    then show ?thesis using wr_law [OF o2 assms(9)] by simp
  next
    case (Inr x)
    then have "map_option r_revision (view s2 now' (i_key i)) = Some rv"
      using wr_Inr(7) [OF o2 assms(9) [unfolded Inr] assms(6,7)] assms(8) by simp
    then show ?thesis using g by (auto simp: gone_def)
  qed
qed

text \<open>A write is read back until it expires, as long as nothing else is called.\<close>

lemma read_your_write:
  assumes "ok s" "wr x i os now s = (s1, Inr r)" "now \<le> t" "\<not> expires_by t r" "rd x (i_key i) t s1 = (s2, Inr y)"
  shows "y = Some r"
  using wr_Inr(1,6) [OF assms(1,2)] rd_law [of s1 x "i_key i" t s2 "Inr y"] assms(3-5) by simp

end

end
