(* ===== verification/Js_Json.thy ===== *)
theory Js_Json
  imports Js_String
begin

text \<open>
  \<open>JSON.parse\<close> and \<open>JSON.stringify\<close> of the JavaScript runtime. The parser follows the grammar of
  RFC 8259; its fuel is twice the length of the text, and \<open>json_fuel\<close> shows that more changes
  nothing. The printer covers arrays of integers and strings.
\<close>

datatype json = JNull | JBool bool | JNum js_number | JStr jsstr | JArr "json list" | JObj "(jsstr, json) jsmap"

section \<open>Tokens\<close>

definition is_space :: "16 word \<Rightarrow> bool" where
  "is_space u \<longleftrightarrow> u = 32 \<or> u = 9 \<or> u = 10 \<or> u = 13"

definition skip_ws :: "jsstr \<Rightarrow> jsstr" where
  "skip_ws s = dropWhile is_space s"

definition escapes :: "(16 word \<times> 16 word) list" where
  "escapes = [(34, 34), (92, 92), (98, 8), (116, 9), (110, 10), (102, 12), (114, 13)]"

definition p_escape :: "jsstr \<Rightarrow> (16 word \<times> jsstr) option" where
  "p_escape s =
     (case s of
        [] \<Rightarrow> None
      | e # r \<Rightarrow>
          (case map_of ((47, 47) # escapes) e of
             Some c \<Rightarrow> Some (c, r)
           | None \<Rightarrow>
               if e = 117 \<and> 4 \<le> length r \<and> list_all is_hex (lower_ascii (take 4 r))
               then Some (of_nat (digits_value 16 (lower_ascii (take 4 r))), drop 4 r)
               else None))"

lemma p_escape_length: "p_escape s = Some (c, r) \<Longrightarrow> length r < length s"
  unfolding p_escape_def by (auto split: list.splits option.splits if_splits)

text \<open>The characters of a string after its opening quote: the string and what follows it.\<close>

function p_chars :: "jsstr \<Rightarrow> (jsstr \<times> jsstr) option" where
  "p_chars [] = None"
| "p_chars (u # s) =
     (if u = 34 then Some ([], s)
      else if u = 92 then
        (case p_escape s of
           None \<Rightarrow> None
         | Some (c, r) \<Rightarrow> map_option (\<lambda>(x, q). (c # x, q)) (p_chars r))
      else if u < 32 then None
      else map_option (\<lambda>(x, q). (u # x, q)) (p_chars s))"
  by pat_completeness auto
termination
  by (relation "measure length") (auto dest: p_escape_length)

definition digits :: "jsstr \<Rightarrow> jsstr \<times> jsstr" where
  "digits s = (takeWhile is_digit s, dropWhile is_digit s)"

definition p_fraction :: "jsstr \<Rightarrow> (rat \<times> jsstr) option" where
  "p_fraction s =
     (case s of
        u # t \<Rightarrow>
          if u = 46 then
            (case digits t of (ds, r) \<Rightarrow>
               if ds = [] then None else Some (of_nat (digits_value 10 ds) / 10 ^ length ds, r))
          else Some (0, s)
      | [] \<Rightarrow> Some (0, s))"

definition exponent_sign :: "jsstr \<Rightarrow> bool \<times> jsstr" where
  "exponent_sign t =
     (case t of [] \<Rightarrow> (False, t) | u # r \<Rightarrow> if u = 45 then (True, r) else if u = 43 then (False, r) else (False, t))"

definition p_exponent :: "jsstr \<Rightarrow> (rat \<times> jsstr) option" where
  "p_exponent s =
     (case s of
        u # t \<Rightarrow>
          if u = 101 \<or> u = 69 then
            (let (neg, t') = exponent_sign t in
             case digits t' of (ds, r) \<Rightarrow>
               if ds = [] then None
               else Some (if neg then 1 / 10 ^ digits_value 10 ds else 10 ^ digits_value 10 ds, r))
          else Some (1, s)
      | [] \<Rightarrow> Some (1, s))"

definition p_number :: "jsstr \<Rightarrow> (json \<times> jsstr) option" where
  "p_number s =
     (let neg = (s \<noteq> [] \<and> hd s = 45); (ds, r) = digits (if neg then tl s else s) in
      if ds = [] \<or> (hd ds = 48 \<and> 1 < length ds) then None
      else
        case p_fraction r of
          None \<Rightarrow> None
        | Some (fr, r2) \<Rightarrow>
            (case p_exponent r2 of
               None \<Rightarrow> None
             | Some (e, r3) \<Rightarrow>
                 let v = (of_nat (digits_value 10 ds) + fr) * e
                 in Some (JNum (Fin (if neg then - v else v)), r3)))"

definition p_literal :: "jsstr \<Rightarrow> (json \<times> jsstr) option" where
  "p_literal s =
     (if startsWith s (js ''true'') then Some (JBool True, drop 4 s)
      else if startsWith s (js ''false'') then Some (JBool False, drop 5 s)
      else if startsWith s (js ''null'') then Some (JNull, drop 4 s)
      else p_number s)"

section \<open>Values\<close>

fun p_value :: "nat \<Rightarrow> jsstr \<Rightarrow> (json \<times> jsstr) option"
  and p_elements :: "nat \<Rightarrow> jsstr \<Rightarrow> (json list \<times> jsstr) option"
  and p_members :: "nat \<Rightarrow> (jsstr, json) jsmap \<Rightarrow> jsstr \<Rightarrow> ((jsstr, json) jsmap \<times> jsstr) option" where
  "p_value 0 s = None"
| "p_value (Suc n) s =
     (case skip_ws s of
        [] \<Rightarrow> None
      | u # t \<Rightarrow>
          if u = 34 then map_option (\<lambda>(x, r). (JStr x, r)) (p_chars t)
          else if u = 91 then
            if skip_ws t \<noteq> [] \<and> hd (skip_ws t) = 93 then Some (JArr [], tl (skip_ws t))
            else map_option (\<lambda>(x, r). (JArr x, r)) (p_elements n t)
          else if u = 123 then
            if skip_ws t \<noteq> [] \<and> hd (skip_ws t) = 125 then Some (JObj [], tl (skip_ws t))
            else map_option (\<lambda>(x, r). (JObj x, r)) (p_members n [] t)
          else p_literal (u # t))"
| "p_elements 0 s = None"
| "p_elements (Suc n) s =
     (case p_value n s of
        None \<Rightarrow> None
      | Some (v, r) \<Rightarrow>
          (case skip_ws r of
             [] \<Rightarrow> None
           | u # r' \<Rightarrow>
               if u = 44 then map_option (\<lambda>(x, q). (v # x, q)) (p_elements n r')
               else if u = 93 then Some ([v], r')
               else None))"
| "p_members 0 m s = None"
| "p_members (Suc n) m s =
     (case skip_ws s of
        [] \<Rightarrow> None
      | u # t \<Rightarrow>
          if u \<noteq> 34 then None
          else
            case p_chars t of
              None \<Rightarrow> None
            | Some (k, r) \<Rightarrow>
                if skip_ws r = [] \<or> hd (skip_ws r) \<noteq> 58 then None
                else
                  case p_value n (tl (skip_ws r)) of
                    None \<Rightarrow> None
                  | Some (v, r2) \<Rightarrow>
                      (case skip_ws r2 of
                         [] \<Rightarrow> None
                       | w # r' \<Rightarrow>
                           if w = 44 then p_members n (map_set k v m) r'
                           else if w = 125 then Some (map_set k v m, r')
                           else None))"

definition JSON_parse :: "jsstr \<Rightarrow> json res" where
  "JSON_parse s =
     (case p_value (2 * length s + 2) s of
        None \<Rightarrow> Inl SyntaxError
      | Some (v, r) \<Rightarrow> if skip_ws r = [] then Inr v else Inl SyntaxError)"

section \<open>Printing\<close>

definition hex4 :: "16 word \<Rightarrow> jsstr" where
  "hex4 u = map (\<lambda>k. hex_digit (unat u div k mod 16)) [0x1000, 0x100, 0x10, 1]"

fun json_quoted :: "jsstr \<Rightarrow> jsstr" where
  "json_quoted [] = []"
| "json_quoted (u # s) =
     (case map_of (map (\<lambda>(e, c). (c, e)) escapes) u of
        Some e \<Rightarrow> [92, e] @ json_quoted s
      | None \<Rightarrow>
          if u < 32 then [92, 117] @ hex4 u @ json_quoted s
          else if is_high u \<and> s \<noteq> [] \<and> is_low (hd s) then u # hd s # json_quoted (tl s)
          else if is_high u \<or> is_low u then [92, 117] @ hex4 u @ json_quoted s
          else u # json_quoted s)"

definition json_string :: "jsstr \<Rightarrow> jsstr" where
  "json_string s = [34] @ json_quoted s @ [34]"

definition json_int :: "int \<Rightarrow> jsstr" where
  "json_int i = (if i < 0 then [45] @ decimal (nat (- i)) else decimal (nat i))"

definition json_array :: "jsstr list \<Rightarrow> jsstr" where
  "json_array xs = [91] @ join_with [44] xs @ [93]"

section \<open>Fuel\<close>

lemma skip_ws_length: "length (skip_ws s) \<le> length s"
  by (simp add: skip_ws_def length_dropWhile_le)

lemma p_chars_length: "p_chars s = Some (x, r) \<Longrightarrow> length r < length s"
proof (induction s arbitrary: x r rule: p_chars.induct)
  case (2 u s)
  show ?case
  proof (cases "u = 92")
    case True
    then obtain c q x' where e: "p_escape s = Some (c, q)" "p_chars q = Some (x', r)"
      using 2(3) by (auto split: option.splits)
    then show ?thesis using 2(1) [OF _ True e(1) refl e(2)] True p_escape_length [OF e(1)] by simp
  next
    case False
    then show ?thesis using 2(2,3) by (fastforce split: if_splits)
  qed
qed simp

lemma digits_length: "digits s = (ds, r) \<Longrightarrow> length s = length ds + length r"
  unfolding digits_def by (metis length_append prod.inject takeWhile_dropWhile_id)

lemma exponent_sign_length: "exponent_sign s = (b, r) \<Longrightarrow> length r \<le> length s"
  by (auto simp: exponent_sign_def split: list.splits if_splits)

lemma p_fraction_length: "p_fraction s = Some (x, r) \<Longrightarrow> length r \<le> length s"
  by (auto simp: p_fraction_def split: list.splits if_splits prod.splits dest!: digits_length)

lemma p_exponent_length: "p_exponent s = Some (x, r) \<Longrightarrow> length r \<le> length s"
  by (auto simp: p_exponent_def split: list.splits if_splits prod.splits
      dest!: digits_length exponent_sign_length)

lemma p_number_length:
  assumes "p_number s = Some (x, r)"
  shows "length r < length s"
proof -
  let ?t = "if s \<noteq> [] \<and> hd s = 45 then tl s else s"
  obtain ds q where d: "digits ?t = (ds, q)" by fastforce
  have ne: "ds \<noteq> []" using assms d by (auto simp: p_number_def Let_def split: if_splits)
  obtain a b c r2 where f: "p_fraction q = Some (a, r2)" "p_exponent r2 = Some (b, c)" "c = r"
    using assms d by (auto simp: p_number_def Let_def split: if_splits option.splits)
  have "length r \<le> length q" using p_fraction_length [OF f(1)] p_exponent_length [OF f(2)] f(3) by simp
  moreover have "length q < length ?t" using digits_length [OF d] ne by simp
  moreover have "length ?t \<le> length s" by simp
  ultimately show ?thesis by linarith
qed

lemma p_literal_length: "p_literal s = Some (x, r) \<Longrightarrow> length r < length s"
  using p_number_length [of s x r]
  by (auto simp: p_literal_def startsWith_def js_def split: if_splits) (cases s; auto)+

lemma skip_ws_Cons: "skip_ws s = u # t \<Longrightarrow> length t < length s"
  using skip_ws_length [of s] by simp

lemma skip_ws_tl: "skip_ws s \<noteq> [] \<Longrightarrow> length (tl (skip_ws s)) < length s"
  using skip_ws_length [of s] by (cases "skip_ws s") auto

lemma p_length:
  shows p_value_length: "p_value n s = Some (v, r) \<Longrightarrow> length r < length s"
    and p_elements_length: "p_elements n s = Some (vs, r) \<Longrightarrow> length r < length s"
    and p_members_length: "p_members n m s = Some (ms, r) \<Longrightarrow> length r < length s"
proof (induction n s and n s and n m s arbitrary: v r and vs r and ms r rule: p_value_p_elements_p_members.induct)
  case (2 n s)
  then obtain u t where s: "skip_ws s = u # t" by (auto split: list.splits)
  have t: "length t < length s" using skip_ws_Cons [OF s] .
  consider "p_chars t = Some (fst (the (p_chars t)), r)" | "skip_ws t \<noteq> []" "r = tl (skip_ws t)"
    | xs where "p_elements n t = Some (xs, r)" "u \<noteq> 34" "u = 91" "\<not> (skip_ws t \<noteq> [] \<and> hd (skip_ws t) = 93)"
    | xs where "p_members n [] t = Some (xs, r)" "u \<noteq> 34" "u \<noteq> 91" "u = 123" "\<not> (skip_ws t \<noteq> [] \<and> hd (skip_ws t) = 125)"
    | "p_literal (u # t) = Some (v, r)"
    using 2(3) s by (auto split: if_splits)
  then show ?case
  proof cases
    case 1
    then show ?thesis using p_chars_length t by fastforce
  next
    case 2
    then show ?thesis using skip_ws_tl [of t] t by simp
  next
    case 3
    then show ?thesis using "2.IH"(1) [OF s 3(2-4) 3(1)] t by simp
  next
    case 4
    then show ?thesis using "2.IH"(2) [OF s 4(2-5) 4(1)] t by simp
  next
    case 5
    then show ?thesis using p_literal_length [OF 5] skip_ws_length [of s] s by simp
  qed
next
  case (4 n s)
  then obtain x q u r' where p: "p_value n s = Some (x, q)" "skip_ws q = u # r'"
    by (auto split: option.splits list.splits)
  have l: "length q < length s" "length r' < length q"
    using "4.IH"(1) [OF p(1)] skip_ws_Cons [OF p(2)] by auto
  show ?case
  proof (cases "u = 44")
    case True
    then obtain xs where "p_elements n r' = Some (xs, r)" using 4(3) p by auto
    then show ?thesis using "4.IH"(2) [OF p(1) refl p(2) True] l by fastforce
  next
    case False
    then show ?thesis using 4(3) p l by (auto split: if_splits)
  qed
next
  case (6 n m s)
  then obtain t k q where p: "skip_ws s = 34 # t" "p_chars t = Some (k, q)" "skip_ws q \<noteq> []" "hd (skip_ws q) = 58"
    by (auto split: list.splits option.splits if_splits)
  then obtain x q2 u r' where v: "p_value n (tl (skip_ws q)) = Some (x, q2)" "skip_ws q2 = u # r'"
    using 6(3) by (auto split: list.splits option.splits)
  have l: "length q2 < length s"
    using "6.IH"(1) [OF p(1) _ p(2) refl _ v(1)] p skip_ws_tl [OF p(3)] p_chars_length [OF p(2)] skip_ws_Cons [OF p(1)]
    by simp
  have r': "length r' < length q2" using skip_ws_Cons [OF v(2)] .
  show ?case
  proof (cases "u = 44")
    case True
    then have "p_members n (map_set k x m) r' = Some (ms, r)" using 6(3) p v by simp
    then show ?thesis using "6.IH"(2) [OF p(1) _ p(2) refl _ v(1) refl v(2) True] p l r' by fastforce
  next
    case False
    then show ?thesis using 6(3) p v l r' by (auto split: if_splits)
  qed
qed simp_all

declare p_value.simps(2) [simp del] p_elements.simps(2) [simp del] p_members.simps(2) [simp del]

lemma p_more:
  "(\<forall>s. 2 * length s + 1 \<le> n \<longrightarrow> p_value (Suc n) s = p_value n s) \<and>
   (\<forall>s. 2 * length s + 2 \<le> n \<longrightarrow> p_elements (Suc n) s = p_elements n s) \<and>
   (\<forall>s m. 2 * length s + 2 \<le> n \<longrightarrow> p_members (Suc n) m s = p_members n m s)"
proof (induction n)
  case (Suc n)
  have v: "p_value (Suc n) s = p_value n s" if "2 * length s + 1 \<le> n" for s
    using Suc.IH that by blast
  have e: "p_elements (Suc n) s = p_elements n s" if "2 * length s + 2 \<le> n" for s
    using Suc.IH that by blast
  have m: "p_members (Suc n) m s = p_members n m s" if "2 * length s + 2 \<le> n" for s m
    using Suc.IH that by blast
  have "p_value (Suc (Suc n)) s = p_value (Suc n) s" if b: "2 * length s + 1 \<le> Suc n" for s
  proof (cases "skip_ws s")
    case (Cons u t)
    have "2 * length t + 2 \<le> n" using skip_ws_Cons [OF Cons] b by simp
    then show ?thesis
      unfolding p_value.simps(2) [of "Suc n"] p_value.simps(2) [of n] using e m Cons by simp
  qed (simp add: p_value.simps(2))
  moreover have "p_elements (Suc (Suc n)) s = p_elements (Suc n) s" if b: "2 * length s + 2 \<le> Suc n" for s
  proof (cases "p_value n s")
    case (Some a)
    obtain x r where a: "a = (x, r)" by fastforce
    have "p_elements (Suc n) r' = p_elements n r'" if "skip_ws r = u # r'" for u r'
      using skip_ws_Cons [OF that] p_value_length [of n s x r] Some a b by (intro e) simp
    then show ?thesis
      unfolding p_elements.simps(2) [of "Suc n"] p_elements.simps(2) [of n] using v [of s] b Some a
      by (auto split: list.splits)
  next
    case None
    then show ?thesis
      unfolding p_elements.simps(2) [of "Suc n"] p_elements.simps(2) [of n] using v [of s] b by simp
  qed
  moreover have "p_members (Suc (Suc n)) mm s = p_members (Suc n) mm s" if b: "2 * length s + 2 \<le> Suc n" for s mm
  proof (cases "\<exists>t k q. skip_ws s = 34 # t \<and> p_chars t = Some (k, q) \<and> skip_ws q \<noteq> [] \<and> hd (skip_ws q) = 58")
    case True
    then obtain t k q where p: "skip_ws s = 34 # t" "p_chars t = Some (k, q)" "skip_ws q \<noteq> []" "hd (skip_ws q) = 58"
      by blast
    let ?q = "tl (skip_ws q)"
    have l: "length ?q < length s"
      using skip_ws_tl [OF p(3)] p_chars_length [OF p(2)] skip_ws_Cons [OF p(1)] by simp
    have vq: "p_value (Suc n) ?q = p_value n ?q" using l b by (intro v) simp
    have "p_members (Suc n) m' r' = p_members n m' r'"
      if "p_value n ?q = Some (x, r)" "skip_ws r = u # r'" for x r u r' m'
      using skip_ws_Cons [OF that(2)] p_value_length [OF that(1)] l b by (intro m) simp
    then show ?thesis
      unfolding p_members.simps(2) [of "Suc n"] p_members.simps(2) [of n] vq using p vq
      by (auto split: option.splits list.splits)
  next
    case False
    then show ?thesis
      unfolding p_members.simps(2) [of "Suc n"] p_members.simps(2) [of n]
      by (auto split: list.splits option.splits)
  qed
  ultimately show ?case by blast
qed simp

lemma json_fuel: "2 * length s + 1 \<le> n \<Longrightarrow> p_value (n + k) s = p_value n s"
  by (induction k) (use p_more in auto)

section \<open>Round trips\<close>

lemma escape_pair: "map_of (map (\<lambda>(e, c). (c, e)) escapes) u = Some e \<Longrightarrow> p_escape (e # r) = Some (u, r)"
  by (auto simp: escapes_def p_escape_def split: if_splits)

lemma four_digits:
  assumes "n < (65536 :: nat)"
  shows "((n div 4096 mod 16 * 16 + n div 256 mod 16) * 16 + n div 16 mod 16) * 16 + n mod 16 = n"
proof -
  have d: "n div 256 = n div 16 div 16" "n div 4096 = n div 16 div 16 div 16"
    by (simp_all add: div_mult2_eq [symmetric])
  have "n div 16 div 16 div 16 mod 16 = n div 16 div 16 div 16" using assms by simp
  then show ?thesis unfolding d by (simp only: div_mult_mod_eq)
qed

lemma hex_digits:
  assumes "a < 16" "b < 16" "c < 16" "d < 16"
  shows "list_all is_hex (map hex_digit [a, b, c, d]) \<and>
    digits_value 16 (map hex_digit [a, b, c, d]) = ((a * 16 + b) * 16 + c) * 16 + d"
  using hex_digit_range [OF assms(1)] hex_digit_range [OF assms(2)] hex_digit_range [OF assms(3)]
    hex_digit_range [OF assms(4)] by (simp add: digits_value_def)

lemma hex4_value: "list_all is_hex (hex4 u) \<and> digits_value 16 (hex4 u) = unat u \<and> length (hex4 u) = 4"
proof -
  let ?n = "unat u"
  have "?n < 65536" using unsigned_less [of u] by simp
  then have "digits_value 16 (hex4 u) = unat u" "list_all is_hex (hex4 u)"
    using hex_digits [of "?n div 4096 mod 16" "?n div 256 mod 16" "?n div 16 mod 16" "?n mod 16"] four_digits [of ?n]
    by (auto simp: hex4_def simp del: mod_less)
  then show ?thesis by (simp add: hex4_def)
qed

lemma is_hex_lower: "is_hex u \<Longrightarrow> lower_unit u = u"
  by (auto simp: is_hex_def is_digit_def lower_unit_def word_le_nat_alt)

lemma hex4_lower: "lower_ascii (hex4 u) = hex4 u"
  using hex4_value [of u] by (simp add: lower_ascii_def map_idI is_hex_lower list_all_iff)

lemma hex4_escape: "p_escape (117 # hex4 u @ r) = Some (u, r)"
  using hex4_value [of u] by (simp add: p_escape_def escapes_def hex4_lower)

lemma surrogate_plain: "is_high u \<or> is_low u \<Longrightarrow> u \<noteq> 34 \<and> u \<noteq> 92 \<and> \<not> u < 32"
  by (auto simp: is_high_def is_low_def word_le_nat_alt word_less_nat_alt)

lemma p_chars_quoted: "p_chars (json_quoted s @ 34 # r) = Some (s, r)"
proof (induction s rule: json_quoted.induct)
  case (2 u s)
  show ?case
  proof (cases "map_of (map (\<lambda>(e, c). (c, e)) escapes) u")
    case (Some e)
    then show ?thesis using 2(5) [OF Some] escape_pair [OF Some] by simp
  next
    case None
    then have u: "u \<noteq> 34" "u \<noteq> 92" by (auto simp: escapes_def)
    consider (ctl) "u < 32" | (pair) "\<not> u < 32" "is_high u \<and> s \<noteq> [] \<and> is_low (hd s)"
      | (lone) "\<not> u < 32" "\<not> (is_high u \<and> s \<noteq> [] \<and> is_low (hd s))" "is_high u \<or> is_low u"
      | (plain) "\<not> u < 32" "\<not> (is_high u \<and> s \<noteq> [] \<and> is_low (hd s))" "\<not> (is_high u \<or> is_low u)"
      by blast
    then show ?thesis
    proof cases
      case ctl
      then show ?thesis using 2(1) [OF None ctl] None hex4_escape [of u] by simp
    next
      case pair
      have "hd s \<noteq> 34 \<and> hd s \<noteq> 92 \<and> \<not> hd s < 32" using surrogate_plain [of "hd s"] pair by blast
      then show ?thesis using 2(2) [OF None pair] None u pair by (cases s) simp_all
    next
      case lone
      have "json_quoted (u # s) = 92 # 117 # hex4 u @ json_quoted s" using None lone by auto
      then show ?thesis using 2(3) [OF None lone] hex4_escape [of u] by simp
    next
      case plain
      have "json_quoted (u # s) = u # json_quoted s" using None plain by auto
      then show ?thesis using 2(4) [OF None plain] u plain by simp
    qed
  qed
qed simp

lemma json_string_value: "p_value (Suc n) (json_string s @ r) = Some (JStr s, r)"
  by (simp add: p_value.simps(2) json_string_def skip_ws_def is_space_def p_chars_quoted)

lemma decimal_head: "10 \<le> n \<Longrightarrow> hd (decimal n) \<noteq> 48"
proof (induction n rule: decimal.induct)
  case (1 n)
  show ?case
  proof (cases "n div 10 < 10")
    case True
    then have "hd (decimal n) = of_nat (48 + n div 10)"
      using 1(2) by (subst decimal.simps, subst decimal.simps) simp
    moreover have "unat (of_nat (48 + n div 10) :: 16 word) = 48 + n div 10"
      using True by (intro unat_unit) simp
    ultimately show ?thesis using 1(2) by auto
  next
    case False
    then have "hd (decimal n) = hd (decimal (n div 10))"
      using 1(2) by (subst decimal.simps) simp
    then show ?thesis using 1 False by simp
  qed
qed

lemma digits_decimal: "\<not> is_digit u \<Longrightarrow> digits (decimal n @ u # r) = (decimal n, u # r)"
  using decimal_value [of n] by (simp add: digits_def list_all_iff)

lemma digit_plain:
  "is_digit u \<Longrightarrow> \<not> is_space u \<and> u \<noteq> 34 \<and> u \<noteq> 91 \<and> u \<noteq> 123 \<and> u \<noteq> 45 \<and> u \<noteq> 116 \<and> u \<noteq> 102 \<and> u \<noteq> 110"
  by (auto simp: is_digit_def is_space_def)

lemma decimal_Cons: "\<exists>d ds. decimal n = d # ds \<and> is_digit d \<and> (d = 48 \<longrightarrow> ds = [])"
proof (cases "n < 10")
  case True
  then show ?thesis using decimal_value [of n] by (subst (asm) decimal.simps, subst decimal.simps) simp
next
  case False
  then show ?thesis using decimal_head [of n] decimal_value [of n] by (cases "decimal n") auto
qed

lemma json_int_value:
  assumes "0 \<le> i" "u = 44 \<or> u = 93"
  shows "p_value (Suc n) (json_int i @ u # r) = Some (JNum (Fin (of_int i)), u # r)"
proof -
  obtain d ds where d: "decimal (nat i) = d # ds" "is_digit d" "d = 48 \<longrightarrow> ds = []" using decimal_Cons by blast
  have u: "\<not> is_digit u" "u \<noteq> 46" "u \<noteq> 101" "u \<noteq> 69" using assms(2) by (auto simp: is_digit_def)
  have "digits ((d # ds) @ u # r) = (d # ds, u # r)" using digits_decimal [OF u(1), of "nat i" r] d(1) by simp
  moreover have "of_nat (digits_value 10 (d # ds)) = (of_int i :: rat)"
    using decimal_value [of "nat i"] d(1) assms(1) by simp
  ultimately have "p_number ((d # ds) @ u # r) = Some (JNum (Fin (of_int i)), u # r)"
    using d digit_plain [OF d(2)] u by (auto simp: p_number_def p_fraction_def p_exponent_def Let_def)
  then show ?thesis
    using d(1) digit_plain [OF d(2)] assms(1)
    by (simp add: p_value.simps(2) json_int_def skip_ws_def p_literal_def startsWith_def js_def)
qed

text \<open>An array of two integers, a string and an integer is read back.\<close>

lemma json_array_value:
  assumes "0 \<le> a" "0 \<le> b" "0 \<le> c"
  shows "JSON_parse (json_array [json_int a, json_int b, json_string p, json_int c]) =
    Inr (JArr [JNum (Fin (of_int a)), JNum (Fin (of_int b)), JStr p, JNum (Fin (of_int c))])"
proof -
  let ?t = "json_int a @ 44 # json_int b @ 44 # json_string p @ 44 # json_int c @ [93]"
  have s: "json_array [json_int a, json_int b, json_string p, json_int c] = 91 # ?t"
    by (simp add: json_array_def)
  have e: "p_elements (Suc (Suc (Suc (Suc (Suc n))))) ?t =
      Some ([JNum (Fin (of_int a)), JNum (Fin (of_int b)), JStr p, JNum (Fin (of_int c))], [])" for n
    using json_int_value [OF assms(1), of 44] json_int_value [OF assms(2), of 44] json_int_value [OF assms(3), of 93]
      json_string_value [of _ p]
    by (simp add: p_elements.simps(2) skip_ws_def is_space_def)
  obtain n where n: "2 * length (91 # ?t) + 2 = Suc (Suc (Suc (Suc (Suc (Suc n)))))"
    by (rule that [of "2 * length (91 # ?t) + 2 - 6"]) (simp add: json_string_def)
  obtain d ds where d: "decimal (nat a) = d # ds" "is_digit d" using decimal_Cons by blast
  have h: "skip_ws ?t \<noteq> []" "hd (skip_ws ?t) \<noteq> 93"
    using d digit_plain [OF d(2)] assms(1) by (auto simp: json_int_def skip_ws_def is_digit_def)
  have "skip_ws (91 # ?t) = 91 # ?t" by (simp add: skip_ws_def is_space_def)
  then have "p_value (2 * length (91 # ?t) + 2) (91 # ?t) =
      Some (JArr [JNum (Fin (of_int a)), JNum (Fin (of_int b)), JStr p, JNum (Fin (of_int c))], [])"
    unfolding n using e h by (simp add: p_value.simps(2))
  then show ?thesis unfolding JSON_parse_def s by (simp add: skip_ws_def)
qed

end
