(* ===== verification/Store_Memory.thy ===== *)
theory Store_Memory
  imports Store Js_Json Context
begin

text \<open>
  \<open>packages/store/memory/src/store.ts\<close>: the process-local Store. Its state is the map of records and
  the mutation generation. Every method body runs without an \<open>await\<close>, so a call is one atomic step; it
  takes the value that the clock returns during the call and returns the new state with its result,
  because \<open>list\<close> may purge expired records before it throws. The Context of a call is a context of
  the package \<open>context\<close> in its current state.
\<close>

section \<open>State and checks\<close>

record memory =
  records :: "(jsstr, store_record) jsmap"
  revision :: int

definition MaximumRevision :: int where
  "MaximumRevision = max_safe"

definition MaximumTTLMilliseconds :: rat where
  "MaximumTTLMilliseconds = 2147483647"

definition contextFailure :: "'v world \<Rightarrow> 'v ctx \<Rightarrow> thrown option" where
  "contextFailure w c =
     (case resolveErr w c of
        None \<Rightarrow> None
      | Some failure \<Rightarrow> Some (case readCause w c of Some k \<Rightarrow> k | None \<Rightarrow> failure))"

definition checkContext :: "'v world \<Rightarrow> 'v ctx \<Rightarrow> unit res" where
  "checkContext w c = (case contextFailure w c of None \<Rightarrow> Inr () | Some e \<Rightarrow> Inl e)"

definition storeKey :: "jsstr \<Rightarrow> jsstr res" where
  "storeKey v =
     bindE (snapshotStoreRecordInput \<lparr>i_key = v, i_value = [], i_metadata = None\<rparr>) (\<lambda>i. Inr (i_key i))"

definition timestamp :: "js_number \<Rightarrow> int res" where
  "timestamp v =
     (if \<not> isSafeInteger v \<or> num_less v (Fin 0)
      then Inl (RangeError ''Memory Store clock must return a non-negative safe integer'')
      else Inr (int_of v))"

definition expiry :: "int \<Rightarrow> js_number option \<Rightarrow> js_number option res" where
  "expiry now durationMs =
     (case durationMs of
        None \<Rightarrow> Inr None
      | Some d \<Rightarrow>
          if num_less (Fin MaximumTTLMilliseconds) d
          then Inl (RangeError ''Memory Store ttl is outside provider bounds'')
          else
            let expiresAt = Fin (of_int now + rat_of d) in
            if \<not> isSafeInteger expiresAt
            then Inl (RangeError ''Memory Store expiry exceeds safe timestamp bounds'')
            else Inr (Some expiresAt))"

record decoded_cursor =
  dc_revision :: js_number
  dc_prefix :: jsstr
  dc_offset :: js_number

definition CursorVersion :: int where
  "CursorVersion = 1"

definition encodeCursor :: "int \<Rightarrow> jsstr \<Rightarrow> int \<Rightarrow> jsstr" where
  "encodeCursor rv pfx offset =
     json_array [json_int CursorVersion, json_int rv, json_string pfx, json_int offset]"

definition stale_cursor :: thrown where
  "stale_cursor = TypeError ''Memory Store cursor is invalid or stale''"

definition natural_number :: "js_number \<Rightarrow> bool" where
  "natural_number n \<longleftrightarrow> isSafeInteger n \<and> \<not> num_less n (Fin 0)"

definition decodeCursor :: "jsstr \<Rightarrow> decoded_cursor res" where
  "decodeCursor v =
     (case JSON_parse v of
        Inr (JArr [version, JNum rv, JStr pfx, JNum offset]) \<Rightarrow>
          if version = JNum (Fin (of_int CursorVersion)) \<and> natural_number rv \<and> natural_number offset
          then Inr \<lparr>dc_revision = rv, dc_prefix = pfx, dc_offset = offset\<rparr>
          else Inl stale_cursor
      | _ \<Rightarrow> Inl stale_cursor)"

definition initialRevision :: "js_number \<Rightarrow> int res" where
  "initialRevision v =
     (if \<not> isSafeInteger v \<or> num_less v (Fin 0) \<or> num_less (Fin (of_int MaximumRevision)) v
      then Inl (RangeError ''Memory Store initial revision is invalid'') else Inr (int_of v))"

definition newMemoryStoreAtRevision :: "js_number \<Rightarrow> memory res" where
  "newMemoryStoreAtRevision seeded = bindE (initialRevision seeded) (\<lambda>r. Inr \<lparr>records = [], revision = r\<rparr>)"

definition newMemoryStore :: "memory res" where
  "newMemoryStore = newMemoryStoreAtRevision (Fin 0)"

section \<open>Expiry\<close>

definition nextRevision :: "memory \<Rightarrow> int res" where
  "nextRevision m =
     (if MaximumRevision \<le> revision m then Inl (RangeError ''Memory Store revision is exhausted'')
      else Inr (revision m + 1))"

definition expiredKeys :: "int \<Rightarrow> memory \<Rightarrow> jsstr list" where
  "expiredKeys now m = map fst (filter (\<lambda>(k, r). expires_by now r) (records m))"

definition isExpired :: "jsstr \<Rightarrow> jsstr list \<Rightarrow> bool" where
  "isExpired key expired \<longleftrightarrow> key \<in> set expired"

definition delete_keys :: "jsstr list \<Rightarrow> (jsstr, store_record) jsmap \<Rightarrow> (jsstr, store_record) jsmap" where
  "delete_keys ks m = fold map_delete ks m"

definition purgeExpired :: "jsstr list \<Rightarrow> memory \<Rightarrow> memory res" where
  "purgeExpired expired m =
     (if length expired = 0 then Inr m
      else bindE (nextRevision m) (\<lambda>candidate.
             Inr (m\<lparr>records := delete_keys expired (records m), revision := candidate\<rparr>)))"

section \<open>Operations\<close>

definition read ::
    "'v world \<Rightarrow> 'v ctx \<Rightarrow> jsstr \<Rightarrow> js_number \<Rightarrow> memory \<Rightarrow> memory \<times> store_record option res" where
  "read w c key clock m =
     (case bindE (checkContext w c) (\<lambda>_. bindE (storeKey key) (\<lambda>k. bindE (timestamp clock) (\<lambda>now.
           bindE (purgeExpired (expiredKeys now m) m) (\<lambda>m'. Inr (k, m'))))) of
        Inl e \<Rightarrow> (m, Inl e)
      | Inr (k, m') \<Rightarrow>
          (m', case map_get (records m') k of
                 None \<Rightarrow> Inr None
               | Some r \<Rightarrow> bindE (snapshotStoreRecord r) (\<lambda>s. Inr (Some s))))"

definition write_candidate ::
    "'v world \<Rightarrow> 'v ctx \<Rightarrow> store_input \<Rightarrow> write_options reducer list \<Rightarrow> js_number \<Rightarrow> memory \<Rightarrow>
     (jsstr list \<times> int \<times> store_record) res" where
  "write_candidate w c v options clock m =
     bindE (checkContext w c) (\<lambda>_.
     bindE (snapshotStoreRecordInput v) (\<lambda>input.
     bindE (writeOptions options) (\<lambda>resolved.
     bindE (timestamp clock) (\<lambda>now.
     bindE (expiry now (expiresInMs resolved)) (\<lambda>expiresAt.
     let expired = expiredKeys now m;
         current = (if isExpired (i_key input) expired then None else map_get (records m) (i_key input))
     in
     if w_ifAbsent resolved = Some True \<and> current \<noteq> None
     then Inl (newStoreConflictError (i_key input) None (map_option r_revision current))
     else if w_ifRevision resolved \<noteq> None \<and> map_option r_revision current \<noteq> w_ifRevision resolved
     then Inl (newStoreConflictError (i_key input) (w_ifRevision resolved) (map_option r_revision current))
     else
       bindE (nextRevision m) (\<lambda>candidate.
       bindE (snapshotStoreRecord \<lparr>r_key = i_key input, r_value = i_value input,
                r_metadata = (case i_metadata input of None \<Rightarrow> [] | Some x \<Rightarrow> x),
                r_revision = decimal (nat candidate), r_expiresAt = expiresAt\<rparr>) (\<lambda>r.
       Inr (expired, candidate, r))))))))"

definition write_record ::
    "'v world \<Rightarrow> 'v ctx \<Rightarrow> store_input \<Rightarrow> write_options reducer list \<Rightarrow> js_number \<Rightarrow> memory \<Rightarrow>
     memory \<times> store_record res" where
  "write_record w c v options clock m =
     (case write_candidate w c v options clock m of
        Inl e \<Rightarrow> (m, Inl e)
      | Inr (expired, candidate, r) \<Rightarrow>
          (m\<lparr>records := map_set (r_key r) r (delete_keys expired (records m)), revision := candidate\<rparr>,
           snapshotStoreRecord r))"

definition delete ::
    "'v world \<Rightarrow> 'v ctx \<Rightarrow> jsstr \<Rightarrow> delete_options reducer list \<Rightarrow> js_number \<Rightarrow> memory \<Rightarrow> memory \<times> bool res" where
  "delete w c key options clock m =
     (case bindE (checkContext w c) (\<lambda>_. bindE (storeKey key) (\<lambda>k. bindE (deleteOptions options) (\<lambda>resolved.
           bindE (timestamp clock) (\<lambda>now. Inr (k, resolved, now))))) of
        Inl e \<Rightarrow> (m, Inl e)
      | Inr (k, resolved, now) \<Rightarrow>
          let expired = expiredKeys now m;
              current = (if isExpired k expired then None else map_get (records m) k)
          in
          if d_ifRevision resolved \<noteq> None \<and> map_option r_revision current \<noteq> d_ifRevision resolved
          then (m, Inl (newStoreConflictError k (d_ifRevision resolved) (map_option r_revision current)))
          else if current = None
          then (case purgeExpired expired m of Inl e \<Rightarrow> (m, Inl e) | Inr m' \<Rightarrow> (m', Inr False))
          else (case nextRevision m of
                  Inl e \<Rightarrow> (m, Inl e)
                | Inr candidate \<Rightarrow>
                    (m\<lparr>records := map_delete k (delete_keys expired (records m)), revision := candidate\<rparr>,
                     Inr True)))"

definition matching :: "jsstr \<Rightarrow> memory \<Rightarrow> store_record list" where
  "matching pfx m = sort_by r_key (filter (\<lambda>r. startsWith (r_key r) pfx) (map snd (records m)))"

definition page :: "list_options \<Rightarrow> decoded_cursor option \<Rightarrow> memory \<Rightarrow> store_page res" where
  "page resolved decoded m =
     (if (case decoded of None \<Rightarrow> False
          | Some d \<Rightarrow> dc_revision d \<noteq> Fin (of_int (revision m)) \<or> dc_prefix d \<noteq> l_prefix resolved)
      then Inl stale_cursor
      else
        let ms = matching (l_prefix resolved) m;
            offset = (case decoded of None \<Rightarrow> 0 | Some d \<Rightarrow> nat (int_of (dc_offset d)))
        in
        if length ms < offset then Inl stale_cursor
        else
          let count = (case l_limit resolved of
                         None \<Rightarrow> length ms - offset
                       | Some n \<Rightarrow> min (nat (int_of n)) (length ms - offset));
              pageRecords = take count (drop offset ms);
              nextOffset = offset + length pageRecords
          in snapshotStorePage \<lparr>p_records = pageRecords,
               p_cursor = (if nextOffset < length ms
                           then Some (encodeCursor (revision m) (l_prefix resolved) (int nextOffset)) else None)\<rparr>)"

definition list ::
    "'v world \<Rightarrow> 'v ctx \<Rightarrow> list_options reducer list \<Rightarrow> js_number \<Rightarrow> memory \<Rightarrow> memory \<times> store_page res" where
  "list w c options clock m =
     (case bindE (checkContext w c) (\<lambda>_. bindE (listOptions options) (\<lambda>resolved.
           bindE (nullable decodeCursor (l_cursor resolved)) (\<lambda>decoded.
           bindE (timestamp clock) (\<lambda>now.
           bindE (purgeExpired (expiredKeys now m) m) (\<lambda>m'. Inr (resolved, decoded, m')))))) of
        Inl e \<Rightarrow> (m, Inl e)
      | Inr (resolved, decoded, m') \<Rightarrow> (m', page resolved decoded m'))"

section \<open>The invariant and the visible records\<close>

definition mem_ok :: "memory \<Rightarrow> bool" where
  "mem_ok m \<longleftrightarrow> distinct (map fst (records m)) \<and> 0 \<le> revision m \<and> revision m \<le> max_safe \<and>
     (\<forall>(k, r) \<in> set (records m). r_key r = k \<and> clean r \<and>
        (\<exists>j. 1 \<le> j \<and> j \<le> revision m \<and> r_revision r = decimal (nat j)))"

definition visible :: "memory \<Rightarrow> int \<Rightarrow> jsstr \<Rightarrow> store_record option" where
  "visible m now k =
     (case map_get (records m) k of None \<Rightarrow> None | Some r \<Rightarrow> if expires_by now r then None else Some r)"

lemma mem_okD:
  assumes "mem_ok m"
  shows "distinct (map fst (records m))" "0 \<le> revision m" "revision m \<le> max_safe"
    "(k, r) \<in> set (records m) \<Longrightarrow> r_key r = k \<and> clean r \<and>
       (\<exists>j. 1 \<le> j \<and> j \<le> revision m \<and> r_revision r = decimal (nat j))"
  using assms by (auto simp: mem_ok_def)

lemma mem_okI:
  assumes "distinct (map fst (records m))" "0 \<le> revision m" "revision m \<le> max_safe"
    and "\<And>k r. (k, r) \<in> set (records m) \<Longrightarrow> r_key r = k \<and> clean r \<and>
       (\<exists>j. 1 \<le> j \<and> j \<le> revision m \<and> r_revision r = decimal (nat j))"
  shows "mem_ok m"
  using assms by (auto simp: mem_ok_def)

lemma expires_mono: "now \<le> t \<Longrightarrow> expires_by now r \<Longrightarrow> expires_by t r"
proof (cases "r_expiresAt r")
  case (Some e)
  assume "now \<le> t" "expires_by now r"
  then show ?thesis using Some by (cases e) (auto simp: expires_by_def)
qed (simp add: expires_by_def)

lemma delete_keys_get: "map_get (delete_keys ks m) k = (if k \<in> set ks then None else map_get m k)"
  unfolding delete_keys_def by (induction ks arbitrary: m) auto

lemma delete_keys_set: "set (delete_keys ks m) \<subseteq> set m"
  unfolding delete_keys_def
proof (induction ks arbitrary: m)
  case (Cons k ks)
  have "set (map_delete k m) \<subseteq> set m" by (auto simp: AList.delete_eq)
  then show ?case using Cons by fastforce
qed simp

lemma delete_keys_distinct: "distinct (map fst m) \<Longrightarrow> distinct (map fst (delete_keys ks m))"
  unfolding delete_keys_def by (induction ks arbitrary: m) (auto simp: distinct_delete)

lemma expiredKeys_iff:
  assumes "distinct (map fst (records m))"
  shows "k \<in> set (expiredKeys now m) \<longleftrightarrow> (\<exists>r. map_get (records m) k = Some r \<and> expires_by now r)"
  using assms by (force simp: expiredKeys_def)

lemma visible_current:
  assumes "mem_ok m"
  shows "(if isExpired k (expiredKeys now m) then None else map_get (records m) k) = visible m now k"
  using expiredKeys_iff [OF mem_okD(1) [OF assms], of k now]
  by (auto simp: isExpired_def visible_def split: option.splits)

lemma visible_purged:
  assumes "mem_ok m" "now \<le> t" "\<forall>k. map_get (records m') k = map_get (delete_keys (expiredKeys now m) (records m)) k"
  shows "visible m' t = visible m t"
proof
  fix k
  show "visible m' t k = visible m t k"
    using assms(3) expiredKeys_iff [OF mem_okD(1) [OF assms(1)], of k now] expires_mono [OF assms(2)]
    by (auto simp: visible_def delete_keys_get split: option.splits)
qed

lemma visible_record:
  assumes "mem_ok m" "visible m now k = Some r"
  shows "r_key r = k" "clean r" "\<exists>j. 1 \<le> j \<and> j \<le> revision m \<and> r_revision r = decimal (nat j)"
proof -
  have "(k, r) \<in> set (records m)"
    using assms(2) by (auto simp: visible_def map_of_SomeD split: option.splits if_splits)
  then show "r_key r = k" "clean r" "\<exists>j. 1 \<le> j \<and> j \<le> revision m \<and> r_revision r = decimal (nat j)"
    using mem_okD(4) [OF assms(1)] by auto
qed

lemma nextRevision_Inr [js_res]: "nextRevision m = Inr r \<longleftrightarrow> r = revision m + 1 \<and> revision m < max_safe"
  by (auto simp: nextRevision_def MaximumRevision_def)

lemma mem_ok_delete:
  assumes "mem_ok m" "revision m < max_safe"
  shows "mem_ok (m\<lparr>records := delete_keys ks (records m), revision := revision m + 1\<rparr>)"
proof (rule mem_okI)
  show "distinct (map fst (records (m\<lparr>records := delete_keys ks (records m), revision := revision m + 1\<rparr>)))"
    using delete_keys_distinct [OF mem_okD(1) [OF assms(1)]] by simp
  fix k r
  assume "(k, r) \<in> set (records (m\<lparr>records := delete_keys ks (records m), revision := revision m + 1\<rparr>))"
  then have "(k, r) \<in> set (records m)" using delete_keys_set by auto
  from mem_okD(4) [OF assms(1) this]
  show "r_key r = k \<and> clean r \<and>
      (\<exists>j. 1 \<le> j \<and> j \<le> revision (m\<lparr>records := delete_keys ks (records m), revision := revision m + 1\<rparr>) \<and>
        r_revision r = decimal (nat j))" by force
qed (use assms mem_okD(2) [OF assms(1)] in auto)

lemma purge_run:
  assumes "mem_ok m" "purgeExpired (expiredKeys now m) m = Inr m'"
  shows "mem_ok m'" "now \<le> t \<Longrightarrow> visible m' t = visible m t" "revision m \<le> revision m'"
    "expiredKeys now m' = []"
proof -
  consider "m' = m" "expiredKeys now m = []" |
    "m' = m\<lparr>records := delete_keys (expiredKeys now m) (records m), revision := revision m + 1\<rparr>" "revision m < max_safe"
    using assms(2) by (auto simp: purgeExpired_def js_res split: if_splits)
  note c = this
  show "mem_ok m'" using c assms(1) mem_ok_delete by cases auto
  show "visible m' t = visible m t" if "now \<le> t" using c visible_purged [OF assms(1) that, of m'] by cases auto
  show "revision m \<le> revision m'" using c by cases auto
  show "expiredKeys now m' = []"
    using c
  proof cases
    case 2
    have "\<not> expires_by now r" if "(k, r) \<in> set (records m')" for k r
    proof -
      have m: "(k, r) \<in> set (records m)" using that 2 delete_keys_set by auto
      have d: "distinct (map fst (records m))" using assms(1) by (simp add: mem_ok_def)
      have "map_get (delete_keys (expiredKeys now m) (records m)) k = Some r"
        using that 2 delete_keys_distinct [OF d] by simp
      then have "k \<notin> set (expiredKeys now m)" by (auto simp: delete_keys_get split: if_splits)
      then show ?thesis using m d by (auto simp: expiredKeys_iff)
    qed
    then show ?thesis by (auto simp: expiredKeys_def filter_empty_conv)
  qed auto
qed

section \<open>The memory Store keeps the contract\<close>

definition used_revisions :: "memory \<Rightarrow> jsstr set" where
  "used_revisions m = {decimal (nat j) | j. 1 \<le> j \<and> j \<le> revision m}"

lemma used_mono: "revision m \<le> revision m' \<Longrightarrow> used_revisions m \<subseteq> used_revisions m'"
  by (force simp: used_revisions_def)

lemma fresh_revision: "0 \<le> revision m \<Longrightarrow> decimal (nat (revision m + 1)) \<notin> used_revisions m"
  by (auto simp: used_revisions_def decimal_inj)

lemma purge_law:
  assumes "mem_ok m" "purgeExpired (expiredKeys now m) m = Inr m'"
  shows "mem_ok m' \<and> used_revisions m \<subseteq> used_revisions m' \<and> (\<forall>t j. visible m' t j \<in> {None, visible m t j}) \<and>
    (\<forall>t \<ge> now. visible m' t = visible m t) \<and> map_get (records m') k = visible m now k"
proof -
  have "map_get (records m') j \<in> {None, map_get (records m) j}" for j
    using assms(2) by (auto simp: purgeExpired_def js_res delete_keys_get split: if_splits)
  then have "visible m' t j \<in> {None, visible m t j}" for t j
    unfolding visible_def by (metis (no_types, lifting) insertCI insertE option.case(1) singletonD)
  moreover have "map_get (records m') k = visible m now k"
    using visible_current [OF purge_run(1) [OF assms], of k now] purge_run(2) [OF assms, of now] purge_run(4) [OF assms]
    by (simp add: isExpired_def)
  ultimately show ?thesis
    using purge_run [OF assms] used_mono by blast
qed

lemma read_law:
  assumes "mem_ok m" "read w c k (Fin (of_int now)) m = (m', res)"
  shows "mem_ok m' \<and> used_revisions m \<subseteq> used_revisions m' \<and> (\<forall>t j. visible m' t j \<in> {None, visible m t j}) \<and>
    (\<forall>t \<ge> now. visible m' t = visible m t) \<and> (\<forall>r. res = Inr r \<longrightarrow> r = visible m now k)"
proof (cases "\<exists>k' m1. bindE (checkContext w c) (\<lambda>_. bindE (storeKey k) (\<lambda>k. bindE (timestamp (Fin (of_int now))) (\<lambda>now.
           bindE (purgeExpired (expiredKeys now m) m) (\<lambda>m'. Inr (k, m'))))) = Inr (k', m1)")
  case True
  then obtain k' m1 where r: "bindE (checkContext w c) (\<lambda>_. bindE (storeKey k) (\<lambda>k.
      bindE (timestamp (Fin (of_int now))) (\<lambda>now. bindE (purgeExpired (expiredKeys now m) m) (\<lambda>m'. Inr (k, m'))))) = Inr (k', m1)"
    by blast
  then have p: "k' = k" "purgeExpired (expiredKeys now m) m = Inr m1"
    by (auto simp: js_res storeKey_def snapshotStoreRecordInput_def timestamp_def split: if_splits)
  note l = purge_law [OF assms(1) p(2), of k]
  have "snapshotStoreRecord x = Inr x" if "visible m now k = Some x" for x
    using visible_record(2) [OF assms(1) that] clean_snapshot by blast
  then show ?thesis using assms(2) r p(1) l by (auto simp: read_def split: option.splits)
next
  case False
  then have "m' = m" "\<exists>e. res = Inl e"
    using assms(2) by (auto simp: read_def split: sum.splits)
  then show ?thesis using assms(1) by auto
qed

lemma snapshotStoreRecordInput_Inr [js_res]:
  "snapshotStoreRecordInput v = Inr y \<longleftrightarrow>
     text_ok True (i_key v) \<and>
     (\<forall>e \<in> set (case i_metadata v of None \<Rightarrow> [] | Some m \<Rightarrow> m). isWellFormed (fst e) \<and> isWellFormed (snd e)) \<and>
     y = v\<lparr>i_metadata := Some (sorted_entries (case i_metadata v of None \<Rightarrow> [] | Some m \<Rightarrow> m))\<rparr>"
  by (cases v) (simp add: snapshotStoreRecordInput_def js_res, blast)

lemma timestamp_Inr [js_res]: "timestamp v = Inr now \<longleftrightarrow> v = Fin (of_int now) \<and> 0 \<le> now \<and> now \<le> max_safe"
proof -
  have "isSafeInteger v \<Longrightarrow> v = Fin (of_int (int_of v)) \<and> \<bar>int_of v\<bar> \<le> max_safe" using isSafeInteger_int_of by blast
  then show ?thesis using num_less_safe(1) [of v 0] by (auto simp: timestamp_def)
qed

definition write_admitted ::
    "store_input \<Rightarrow> write_options reducer list \<Rightarrow> int \<Rightarrow> memory \<Rightarrow> jsstr list \<Rightarrow> int \<Rightarrow> store_record \<Rightarrow> bool" where
  "write_admitted v os now m expired candidate r \<longleftrightarrow>
     expired = expiredKeys now m \<and> candidate = revision m + 1 \<and> revision m < max_safe \<and>
     r_key r = i_key v \<and> r_value r = i_value v \<and> r_revision r = decimal (nat (revision m + 1)) \<and> clean r \<and>
     (\<exists>o'. writeOptions os = Inr o' \<and> expiry now (expiresInMs o') = Inr (r_expiresAt r) \<and>
        (w_ifAbsent o' = Some True \<longrightarrow> visible m now (i_key v) = None) \<and>
        (w_ifRevision o' = None \<or> w_ifRevision o' = map_option r_revision (visible m now (i_key v))))"

lemma write_candidate_Inr:
  assumes "mem_ok m" "write_candidate w c v os (Fin (of_int now)) m = Inr (expired, candidate, r)"
  shows "write_admitted v os now m expired candidate r"
proof -
  obtain input o' ex where s: "snapshotStoreRecordInput v = Inr input" "writeOptions os = Inr o'"
      "expiry now (expiresInMs o') = Inr ex"
    and g: "\<not> (w_ifAbsent o' = Some True \<and> visible m now (i_key input) \<noteq> None)"
      "\<not> (w_ifRevision o' \<noteq> None \<and> map_option r_revision (visible m now (i_key input)) \<noteq> w_ifRevision o')"
    and n: "nextRevision m = Inr candidate" "expired = expiredKeys now m"
    and r: "snapshotStoreRecord \<lparr>r_key = i_key input, r_value = i_value input,
        r_metadata = (case i_metadata input of None \<Rightarrow> [] | Some x \<Rightarrow> x),
        r_revision = decimal (nat candidate), r_expiresAt = ex\<rparr> = Inr r"
    using assms(2) unfolding write_candidate_def Let_def visible_current [OF assms(1)]
    by (auto simp: bindE_Inr_iff timestamp_Inr split: if_splits)
  have "i_key input = i_key v" "i_value input = i_value v" using s(1) by (auto simp: js_res)
  then show ?thesis
    using s(2,3) g n snapshot_clean [OF r] r by (auto simp: write_admitted_def js_res)
qed

lemma update_records:
  assumes "mem_ok m" "revision m < max_safe" "clean r" "r_revision r = decimal (nat (revision m + 1))"
    and m': "m' = m\<lparr>records := map_set (r_key r) r (delete_keys (expiredKeys now m) (records m)), revision := revision m + 1\<rparr>"
  shows "mem_ok m'" "visible m' t (r_key r) \<in> {None, Some r}" "j \<noteq> r_key r \<Longrightarrow> visible m' t j \<in> {None, visible m t j}"
    "now \<le> t \<Longrightarrow> visible m' t = (visible m t)(r_key r := if expires_by t r then None else Some r)"
proof -
  let ?d = "m\<lparr>records := delete_keys (expiredKeys now m) (records m), revision := revision m + 1\<rparr>"
  note d = mem_ok_delete [OF assms(1,2), of "expiredKeys now m"]
  have dist: "distinct (map fst (records m'))" using distinct_update mem_okD(1) [OF d] by (simp add: m')
  show "mem_ok m'"
  proof (rule mem_okI)
    show "distinct (map fst (records m'))" by (rule dist)
    show "0 \<le> revision m'" "revision m' \<le> max_safe" using mem_okD(2) [OF assms(1)] assms(2) by (simp_all add: m')
    fix k x
    assume "(k, x) \<in> set (records m')"
    then have "map_get (records m') k = Some x" using dist by simp
    then consider "k = r_key r" "x = r" | "(k, x) \<in> set (records ?d)"
      by (auto simp: m' split: if_splits dest!: map_of_SomeD)
    then show "r_key x = k \<and> clean x \<and> (\<exists>j. 1 \<le> j \<and> j \<le> revision m' \<and> r_revision x = decimal (nat j))"
    proof cases
      case 1
      then show ?thesis
        using assms(3,4) mem_okD(2) [OF assms(1)] by (auto simp: m' intro!: exI [of _ "revision m + 1"])
    next
      case 2
      then show ?thesis using mem_okD(4) [OF d 2] by (simp add: m')
    qed
  qed
  show "visible m' t (r_key r) \<in> {None, Some r}" by (simp add: visible_def m')
  show "visible m' t j \<in> {None, visible m t j}" if "j \<noteq> r_key r"
    using that by (auto simp: visible_def m' delete_keys_get split: option.splits)
  have v: "visible ?d t = visible m t" if "now \<le> t" using visible_purged [OF assms(1) that, of ?d] by simp
  show "visible m' t = (visible m t)(r_key r := if expires_by t r then None else Some r)" if "now \<le> t"
    unfolding v [OF that, symmetric] by (auto simp: visible_def m' fun_eq_iff)
qed

lemma write_law:
  assumes "mem_ok m" "write_record w c i os (Fin (of_int now)) m = (m', res)"
  shows "mem_ok m' \<and> used_revisions m \<subseteq> used_revisions m' \<and>
    (case res of
       Inl e \<Rightarrow> m' = m
     | Inr r \<Rightarrow>
         r_key r = i_key i \<and> r_value r = i_value i \<and> r_revision r \<notin> used_revisions m \<and>
         (\<forall>t. visible m' t (i_key i) \<in> {None, Some r}) \<and>
         (\<forall>t j. j \<noteq> i_key i \<longrightarrow> visible m' t j \<in> {None, visible m t j}) \<and>
         (\<forall>t \<ge> now. visible m' t = (visible m t)(i_key i := if expires_by t r then None else Some r)) \<and>
         (\<exists>w. writeOptions os = Inr w \<and>
            (w_ifRevision w = None \<or> w_ifRevision w = map_option r_revision (visible m now (i_key i))) \<and>
            (w_ifAbsent w = Some True \<longrightarrow> visible m now (i_key i) = None)))"
proof (cases "write_candidate w c i os (Fin (of_int now)) m")
  case (Inl e)
  then show ?thesis using assms by (auto simp: write_record_def)
next
  case (Inr y)
  obtain expired candidate r where y: "y = (expired, candidate, r)" by (metis prod_cases3)
  have a: "write_admitted i os now m expired candidate r" using write_candidate_Inr [OF assms(1)] Inr y by blast
  then have r: "clean r" "r_key r = i_key i" "revision m < max_safe" "r_revision r = decimal (nat (revision m + 1))"
    by (auto simp: write_admitted_def)
  have m': "m' = m\<lparr>records := map_set (r_key r) r (delete_keys (expiredKeys now m) (records m)), revision := revision m + 1\<rparr>"
    and res: "res = Inr r"
    using assms(2) Inr y a clean_snapshot [OF r(1)] by (auto simp: write_record_def write_admitted_def)
  note u = update_records [OF assms(1) r(3,1,4) m']
  have ex: "\<exists>w. writeOptions os = Inr w \<and>
      (w_ifRevision w = None \<or> w_ifRevision w = map_option r_revision (visible m now (i_key i))) \<and>
      (w_ifAbsent w = Some True \<longrightarrow> visible m now (i_key i) = None)"
    using a unfolding write_admitted_def by blast
  have "r_value r = i_value i" "r_revision r \<notin> used_revisions m" "used_revisions m \<subseteq> used_revisions m'"
    using a used_mono [of m m'] fresh_revision [OF mem_okD(2) [OF assms(1)]] by (simp_all add: write_admitted_def m')
  then show ?thesis using u r(2) ex unfolding res by simp
qed

lemma delete_law:
  assumes "mem_ok m" "delete w c k ds (Fin (of_int now)) m = (m', res)"
  shows "mem_ok m' \<and> used_revisions m \<subseteq> used_revisions m' \<and> (\<forall>t j. visible m' t j \<in> {None, visible m t j}) \<and>
    (case res of
       Inl e \<Rightarrow> m' = m
     | Inr b \<Rightarrow> (b \<longleftrightarrow> visible m now k \<noteq> None) \<and> (\<forall>t \<ge> now. visible m' t = (visible m t)(k := None)))"
proof -
  have key: "storeKey k = Inr k' \<Longrightarrow> k' = k" for k' by (auto simp: js_res storeKey_def)
  consider (err) e where "res = Inl e" "m' = m"
    | (none) "visible m now k = None" "purgeExpired (expiredKeys now m) m = Inr m'" "res = Inr False"
    | (some) "visible m now k \<noteq> None" "revision m < max_safe" "res = Inr True"
        "m' = m\<lparr>records := map_delete k (delete_keys (expiredKeys now m) (records m)), revision := revision m + 1\<rparr>"
  proof (cases "bindE (checkContext w c) (\<lambda>_. bindE (storeKey k) (\<lambda>k. bindE (deleteOptions ds) (\<lambda>resolved.
      bindE (timestamp (Fin (of_int now))) (\<lambda>now. Inr (k, resolved, now)))))")
    case (Inl e)
    then show thesis using assms(2) err by (auto simp: delete_def)
  next
    case (Inr y)
    then obtain o' where y: "y = (k, o', now)" by (auto simp: bindE_Inr_iff timestamp_Inr dest!: key)
    have d: "delete w c k ds (Fin (of_int now)) m =
      (if d_ifRevision o' \<noteq> None \<and> map_option r_revision (visible m now k) \<noteq> d_ifRevision o'
       then (m, Inl (newStoreConflictError k (d_ifRevision o') (map_option r_revision (visible m now k))))
       else if visible m now k = None
       then (case purgeExpired (expiredKeys now m) m of Inl e \<Rightarrow> (m, Inl e) | Inr m' \<Rightarrow> (m', Inr False))
       else (case nextRevision m of
               Inl e \<Rightarrow> (m, Inl e)
             | Inr candidate \<Rightarrow>
                 (m\<lparr>records := map_delete k (delete_keys (expiredKeys now m) (records m)), revision := candidate\<rparr>,
                  Inr True)))"
      unfolding delete_def Inr y Let_def visible_current [OF assms(1)] by simp
    then show thesis
      using assms(2) err none some by (auto split: if_splits sum.splits simp: nextRevision_Inr)
  qed
  then show ?thesis
  proof cases
    case err
    then show ?thesis using assms(1) by simp
  next
    case none
    note l = purge_law [OF assms(1) none(2)]
    have "visible m t k = None" if "now \<le> t" for t
      using none(1) expires_mono [OF that] by (auto simp: visible_def split: option.splits if_splits)
    then show ?thesis using l none(1,3) by (auto simp: fun_upd_idem)
  next
    case some
    let ?d = "m\<lparr>records := delete_keys (k # expiredKeys now m) (records m), revision := revision m + 1\<rparr>"
    have get: "map_get (records m') j = map_get (records ?d) j" for j
      by (simp add: some(4) delete_keys_get)
    have v: "visible m' t j = (if j = k \<or> j \<in> set (expiredKeys now m) then None else visible m t j)" for t j
      unfolding visible_def get by (simp add: delete_keys_get)
    have "mem_ok m'"
    proof (rule mem_okI)
      note d = mem_ok_delete [OF assms(1) some(2), of "expiredKeys now m"]
      show "distinct (map fst (records m'))" using mem_okD(1) [OF d] distinct_delete by (simp add: some(4))
      show "0 \<le> revision m'" "revision m' \<le> max_safe" using mem_okD(2) [OF assms(1)] some(2) by (simp_all add: some(4))
      fix j x
      assume "(j, x) \<in> set (records m')"
      then have "(j, x) \<in> set (records (m\<lparr>records := delete_keys (expiredKeys now m) (records m), revision := revision m + 1\<rparr>))"
        by (auto simp: some(4) AList.delete_eq)
      from mem_okD(4) [OF d this]
      show "r_key x = j \<and> clean x \<and> (\<exists>i. 1 \<le> i \<and> i \<le> revision m' \<and> r_revision x = decimal (nat i))"
        by (simp add: some(4))
    qed
    moreover have "visible m' t = (visible m t)(k := None)" if "now \<le> t" for t
    proof
      fix j
      have "j \<in> set (expiredKeys now m) \<Longrightarrow> visible m t j = None"
        using expiredKeys_iff [OF mem_okD(1) [OF assms(1)], of j now] expires_mono [OF that] by (auto simp: visible_def)
      then show "visible m' t j = ((visible m t)(k := None)) j" by (simp add: v)
    qed
    moreover have "used_revisions m \<subseteq> used_revisions m'" by (rule used_mono) (simp add: some(4))
    ultimately show ?thesis using some(1,3) v by simp
  qed
qed

lemma visible_used: "mem_ok m \<Longrightarrow> visible m t k = Some r \<Longrightarrow> r_revision r \<in> used_revisions m"
  using visible_record(3) by (force simp: used_revisions_def)

lemma list_law:
  assumes "mem_ok m" "list w c qs (Fin (of_int now)) m = (m', res)"
  shows "mem_ok m' \<and> used_revisions m \<subseteq> used_revisions m' \<and> (\<forall>t j. visible m' t j \<in> {None, visible m t j}) \<and>
    (\<forall>t \<ge> now. visible m' t = visible m t)"
proof -
  consider "m' = m" | "purgeExpired (expiredKeys now m) m = Inr m'"
    using assms(2) by (auto simp: list_def bindE_Inr_iff timestamp_Inr split: sum.splits)
  then show ?thesis
  proof cases
    case 2
    show ?thesis using purge_law [OF assms(1) 2] by blast
  qed (use assms(1) in simp)
qed

interpretation mem: store_contract mem_ok used_revisions visible
    "\<lambda>(w :: nat world, c) k now. read w c k (Fin (of_int now))"
    "\<lambda>(w, c) i os now. write_record w c i os (Fin (of_int now))"
    "\<lambda>(w, c) k ds now. delete w c k ds (Fin (of_int now))"
    "\<lambda>(w, c) qs now. list w c qs (Fin (of_int now))"
proof (unfold_locales, goal_cases)
  case (1 s t k r)
  then show ?case by (rule visible_used)
next
  case (2 s x k now s' res)
  obtain w c where x: "x = (w, c)" by fastforce
  show ?case using 2 unfolding x prod.case by (rule read_law)
next
  case (3 s x i os now s' res)
  obtain w c where x: "x = (w, c)" by fastforce
  show ?case using 3 unfolding x prod.case by (rule write_law)
next
  case (4 s x k ds now s' res)
  obtain w c where x: "x = (w, c)" by fastforce
  show ?case using 4 unfolding x prod.case by (rule delete_law)
next
  case (5 s x qs now s' res)
  obtain w c where x: "x = (w, c)" by fastforce
  show ?case using 5 unfolding x prod.case by (rule list_law)
qed

section \<open>Runs\<close>

text \<open>A call by any caller, with any clock.\<close>

inductive mem_step :: "memory \<Rightarrow> memory \<Rightarrow> bool" where
  step_read: "read (w :: nat world) c k clock m = (m', res) \<Longrightarrow> mem_step m m'"
| step_write: "write_record (w :: nat world) c i os clock m = (m', wres) \<Longrightarrow> mem_step m m'"
| step_delete: "delete (w :: nat world) c k ds clock m = (m', dres) \<Longrightarrow> mem_step m m'"
| step_list: "list (w :: nat world) c qs clock m = (m', lres) \<Longrightarrow> mem_step m m'"

inductive mem_reach :: "memory \<Rightarrow> bool" where
  reach_new: "newMemoryStoreAtRevision v = Inr m \<Longrightarrow> mem_reach m"
| reach_call: "mem_reach m \<Longrightarrow> mem_step m m' \<Longrightarrow> mem_reach m'"

lemma bad_clock:
  assumes "\<nexists>now. clock = Fin (of_int now)"
  shows "fst (read w c k clock m) = m" "fst (write_record w c i os clock m) = m"
    "fst (delete w c k ds clock m) = m" "fst (list w c qs clock m) = m"
proof -
  have t: "timestamp clock \<noteq> Inr now" for now using assms by (auto simp: timestamp_Inr)
  show "fst (read w c k clock m) = m"
    by (auto simp: read_def t bindE_Inr_iff split: sum.splits)
  show "fst (write_record w c i os clock m) = m"
    by (auto simp: write_record_def write_candidate_def t bindE_Inr_iff split: sum.splits)
  show "fst (delete w c k ds clock m) = m"
    by (auto simp: delete_def t bindE_Inr_iff split: sum.splits)
  show "fst (list w c qs clock m) = m"
    by (auto simp: list_def t bindE_Inr_iff split: sum.splits)
qed

lemma step_call: "mem_step m m' \<Longrightarrow> m' = m \<or> mem.call m m'"
proof (induction rule: mem_step.induct)
  case (step_read w c k clock m m' res)
  show ?case
  proof (cases "\<exists>now. clock = Fin (of_int now)")
    case True
    then show ?thesis using step_read unfolding mem.call_def by fastforce
  qed (use bad_clock(1) [of clock w c k m] step_read in simp)
next
  case (step_write w c i os clock m m' res)
  show ?case
  proof (cases "\<exists>now. clock = Fin (of_int now)")
    case True
    then show ?thesis using step_write unfolding mem.call_def by fastforce
  qed (use bad_clock(2) [of clock w c i os m] step_write in simp)
next
  case (step_delete w c k ds clock m m' res)
  show ?case
  proof (cases "\<exists>now. clock = Fin (of_int now)")
    case True
    then show ?thesis using step_delete unfolding mem.call_def by fastforce
  qed (use bad_clock(3) [of clock w c k ds m] step_delete in simp)
next
  case (step_list w c qs clock m m' res)
  show ?case
  proof (cases "\<exists>now. clock = Fin (of_int now)")
    case True
    then show ?thesis using step_list unfolding mem.call_def by fastforce
  qed (use bad_clock(4) [of clock w c qs m] step_list in simp)
qed

end
