(* ===== verification/Store_Spec.thy ===== *)
theory Store_Spec
  imports Store_Memory
begin

text \<open>
  What callers may rely on in every reachable state of the memory Store: it refines a map from keys
  to unexpired records, conditional writes never lose an update, every outcome of a write is
  determined, and following cursors lists every matching record once, in order.
\<close>

lemma reach_ok: "mem_reach m \<Longrightarrow> mem_ok m"
proof (induction rule: mem_reach.induct)
  case (reach_new v m)
  then obtain r where r: "initialRevision v = Inr r" "m = \<lparr>records = [], revision = r\<rparr>"
    by (auto simp: newMemoryStoreAtRevision_def js_res)
  then have "0 \<le> r" "r \<le> max_safe"
    using num_less_safe(1) [of v 0] isSafeInteger_int_of [of v] by (auto simp: initialRevision_def split: if_splits)
  then show ?case by (simp add: r mem_ok_def)
next
  case (reach_call m m')
  have "mem_ok m'" if "mem.call m m'"
    using that unfolding mem.call_def
    by (auto dest: read_law [OF reach_call.IH] write_law [OF reach_call.IH] delete_law [OF reach_call.IH]
        list_law [OF reach_call.IH])
  then show ?case using step_call [OF reach_call.hyps(2)] reach_call.IH by blast
qed

lemma storeKey_Inr [js_res]: "storeKey k = Inr k' \<longleftrightarrow> k' = k \<and> text_ok True k"
  by (auto simp: storeKey_def js_res)

lemma purge_total: "revision m < max_safe \<Longrightarrow> \<exists>m'. purgeExpired ks m = Inr m'"
  by (cases "ks = []") (auto simp: purgeExpired_def nextRevision_def MaximumRevision_def)

section \<open>A concrete store\<close>

abbreviation w0 :: "nat world" where
  "w0 \<equiv> initial_world"

definition item :: store_input where
  "item = \<lparr>i_key = [97], i_value = [1], i_metadata = Some []\<rparr>"

definition cas :: "jsstr \<Rightarrow> write_options reducer" where
  "cas rv = (\<lambda>o'. Inr (o'\<lparr>w_ifAbsent := Some False, w_ifRevision := Some rv\<rparr>))"

definition store0 :: memory where
  "store0 = \<lparr>records = [], revision = 0\<rparr>"

definition store1 :: memory where
  "store1 = fst (write_record w0 background item [] (Fin (of_int 0)) store0)"

definition store2 :: memory where
  "store2 = fst (write_record w0 background item [cas [49]] (Fin (of_int 1)) store1)"

lemma store_context: "checkContext w0 background = Inr ()"
  by (simp add: checkContext_def contextFailure_def background_def initial_world_def newEmptyContext_def)

lemma decimal_small: "decimal 1 = [49]" "decimal 2 = [50]"
  by (simp_all add: decimal.simps)

lemma plain_unit:
  "\<not> is_high 97 \<and> \<not> is_low 97" "\<not> is_high 49 \<and> \<not> is_low 49" "\<not> is_high 50 \<and> \<not> is_low 50"
  by (simp_all add: is_high_def is_low_def)

lemmas store_eval =
  write_record_def write_candidate_def store_context item_def snapshotStoreRecordInput_def snapshotMetadata_def
  sort_by_def sort_with_def fromEntries_def exactString_def writeOptions_def DefaultWriteOptions_def snapshotWriteOptions_def cas_def nullable_def
  timestamp_def expiry_def expiredKeys_def isExpired_def nextRevision_def MaximumRevision_def snapshotStoreRecord_def
  delete_keys_def expires_by_def Let_def max_safe_def int_of_def plain_unit

lemma store1_eq: "store1 = \<lparr>records = [([97], \<lparr>r_key = [97], r_value = [1], r_metadata = [], r_revision = [49],
    r_expiresAt = None\<rparr>)], revision = 1\<rparr>"
  using decimal_small by (simp add: store1_def store0_def store_eval)

lemma store2_run:
  "write_record w0 background item [cas [49]] (Fin (of_int 1)) store1 =
     (store2, Inr \<lparr>r_key = [97], r_value = [1], r_metadata = [], r_revision = [50], r_expiresAt = None\<rparr>)"
  using decimal_small by (simp add: store2_def store1_eq store_eval)

lemma store_reach: "mem_reach store0" "mem_reach store1"
proof -
  have "newMemoryStoreAtRevision (Fin 0) = Inr store0"
    by (simp add: newMemoryStoreAtRevision_def initialRevision_def store0_def max_safe_def MaximumRevision_def int_of_def)
  then show 0: "mem_reach store0" by (rule reach_new)
  show "mem_reach store1"
    unfolding store1_def by (rule reach_call [OF 0 step_write [OF prod.collapse [symmetric]]])
qed

section \<open>Refinement\<close>

text \<open>
  C8: the store is a map from keys to records that have not expired. A read by a live Context of a
  legal key returns the record visible at its time, and changes nothing that is visible from then
  on; a write and a delete change the map at their key only.
\<close>

theorem memory_refines_map:
  fixes w :: "nat world"
  assumes "mem_reach m" "0 \<le> now" "now \<le> max_safe"
  shows "(checkContext w c = Inr () \<and> text_ok True k \<and> revision m < max_safe \<longrightarrow>
      (\<exists>m'. read w c k (Fin (of_int now)) m = (m', Inr (visible m now k)) \<and> (\<forall>t \<ge> now. visible m' t = visible m t))) \<and>
    (\<forall>m' r. write_record w c i os (Fin (of_int now)) m = (m', Inr r) \<longrightarrow>
      (\<forall>t \<ge> now. visible m' t = (visible m t)(i_key i := if expires_by t r then None else Some r))) \<and>
    (\<forall>m' b. delete w c k ds (Fin (of_int now)) m = (m', Inr b) \<longrightarrow>
      (b \<longleftrightarrow> visible m now k \<noteq> None) \<and> (\<forall>t \<ge> now. visible m' t = (visible m t)(k := None)))"
proof (intro conjI impI allI)
  have ok: "mem_ok m" using reach_ok [OF assms(1)] .
  show "\<exists>m'. read w c k (Fin (of_int now)) m = (m', Inr (visible m now k)) \<and> (\<forall>t \<ge> now. visible m' t = visible m t)"
    if h: "checkContext w c = Inr () \<and> text_ok True k \<and> revision m < max_safe"
  proof -
    obtain m1 where p: "purgeExpired (expiredKeys now m) m = Inr m1" using purge_total h by blast
    note l = purge_law [OF ok p, of k]
    have "storeKey k = Inr k" "timestamp (Fin (of_int now)) = Inr now" using h assms by (auto simp: js_res timestamp_Inr)
    moreover have "snapshotStoreRecord r = Inr r" if "visible m now k = Some r" for r
      using visible_record(2) [OF ok that] clean_snapshot by blast
    ultimately have "read w c k (Fin (of_int now)) m = (m1, Inr (visible m now k))"
      using h p l by (auto simp: read_def split: option.splits)
    then show ?thesis using l by blast
  qed
  fix m'
  show "visible m' t = (visible m t)(i_key i := if expires_by t r then None else Some r)"
    if "write_record w c i os (Fin (of_int now)) m = (m', Inr r)" "now \<le> t" for r t
    using mem.wr_Inr(6) [of m "(w, c)" i os now m' r t] ok that by simp
  fix b
  assume d: "delete w c k ds (Fin (of_int now)) m = (m', Inr b)"
  show "b \<longleftrightarrow> visible m now k \<noteq> None" using delete_law [OF ok d] by simp
  show "visible m' t = (visible m t)(k := None)" if "now \<le> t" for t using delete_law [OF ok d] that by simp
qed

theorem memory_refines_map_witness:
  "visible store1 5 [97] \<noteq> None \<and>
   (\<exists>m'. read w0 background [97] (Fin (of_int 5)) store1 = (m', Inr (visible store1 5 [97])))"
  using memory_refines_map [OF store_reach(2), of 5 w0 background "[97]" item "[]" "[]"] store_context
  by (auto simp: store1_eq max_safe_def text_ok_def plain_unit visible_def expires_by_def)

section \<open>Conditional writes\<close>

text \<open>
  C9: once a conditional write on a revision has succeeded, no later conditional write on the same
  key and revision succeeds, whatever callers and clocks come in between; it leaves the store as it
  was.
\<close>

theorem no_lost_update:
  fixes w w' :: "nat world"
  assumes "mem_reach m" "writeOptions os = Inr o1" "w_ifRevision o1 = Some rv"
    and "write_record w c i os (Fin (of_int now)) m = (m1, Inr r)" "mem_step\<^sup>*\<^sup>* m1 m2"
    and "writeOptions os' = Inr o2" "w_ifRevision o2 = Some rv" "i_key i' = i_key i"
  shows "\<exists>e. write_record w' c' i' os' (Fin (of_int now')) m2 = (m2, Inl e)"
proof -
  have "mem.call\<^sup>*\<^sup>* m1 m2"
    using assms(5) by (induction rule: rtranclp.induct) (auto dest!: step_call intro: rtranclp.rtrancl_into_rtrancl)
  moreover obtain m3 res where "write_record w' c' i' os' (Fin (of_int now')) m2 = (m3, res)" by fastforce
  ultimately show ?thesis
    using mem.cas_once [of m os o1 rv "(w, c)" i now m1 r m2 os' o2 i' "(w', c')" now' m3 res] reach_ok [OF assms(1)] assms
    by auto
qed

theorem no_lost_update_witness:
  "\<exists>e. write_record w0 background item [cas [49]] (Fin (of_int 7)) store2 = (store2, Inl e)"
proof -
  have o: "writeOptions [cas [49]] = Inr \<lparr>expiresInMs = None, w_ifAbsent = Some False, w_ifRevision = Some [49]\<rparr>"
    by (simp add: store_eval)
  show ?thesis by (rule no_lost_update [OF store_reach(2) o _ store2_run rtranclp.rtrancl_refl o]) simp_all
qed

lemma detail_ok: "text_ok True v \<Longrightarrow> detail v name = Inr v"
  by (auto simp: detail_def text_ok_def)

lemma conflict_error:
  assumes "text_ok True k" "pred_option (text_ok True) e" "pred_option (text_ok True) a"
  shows "newStoreConflictError k e a = StoreConflict k e a"
  using assms by (cases e; cases a) (simp_all add: newStoreConflictError_def nullable_def detail_ok)

lemma decimal_text_ok: "text_ok True (decimal n)"
proof -
  have "list_all is_digit (decimal n)" using decimal_value by blast
  then have "\<forall>u \<in> set (decimal n). is_ascii u"
    by (auto simp: list_all_iff is_digit_def is_ascii_def word_le_nat_alt word_less_nat_alt)
  then show ?thesis by (simp add: text_ok_def isWellFormed_ascii)
qed

lemma expiry_time:
  assumes "expiry now d = Inr ex" "0 \<le> now" "pred_option positive_ok d"
  shows "pred_option time_ok ex"
proof (cases d)
  case (Some v)
  then obtain i where i: "v = Fin (of_int i)" "1 \<le> i" using assms(3) by (auto simp: positive_ok_def)
  have "ex = Some (Fin (of_int (now + i)))" "\<bar>now + i\<bar> \<le> max_safe"
    using assms(1) Some i by (auto simp: expiry_def Let_def split: if_splits simp flip: of_int_add)
  then show ?thesis using i assms(2) by (auto simp: time_ok_def intro!: exI [of _ "now + i"])
qed (use assms(1) in \<open>simp add: expiry_def\<close>)

text \<open>
  C37: the outcome of a legal write by a live Context. A condition that does not hold at the time of
  the call gives the conflict error with the expected and the actual revision, an exhausted revision
  counter its range error, and the store is unchanged; otherwise the record is stored under the next
  revision.
\<close>

theorem write_outcome:
  fixes w :: "nat world"
  assumes "mem_reach m" "checkContext w c = Inr ()" "0 \<le> now" "now \<le> max_safe" "text_ok True (i_key i)"
    and "i_metadata i = Some md" "\<forall>e \<in> set md. isWellFormed (fst e) \<and> isWellFormed (snd e)"
    and "writeOptions os = Inr o'" "expiry now (expiresInMs o') = Inr ex"
  shows "write_record w c i os (Fin (of_int now)) m =
    (let cur = visible m now (i_key i); r = \<lparr>r_key = i_key i, r_value = i_value i, r_metadata = sorted_entries md,
           r_revision = decimal (nat (revision m + 1)), r_expiresAt = ex\<rparr> in
     if w_ifAbsent o' = Some True \<and> cur \<noteq> None
     then (m, Inl (StoreConflict (i_key i) None (map_option r_revision cur)))
     else if w_ifRevision o' \<noteq> None \<and> map_option r_revision cur \<noteq> w_ifRevision o'
     then (m, Inl (StoreConflict (i_key i) (w_ifRevision o') (map_option r_revision cur)))
     else if revision m = max_safe then (m, Inl (RangeError ''Memory Store revision is exhausted''))
     else (m\<lparr>records := map_set (i_key i) r (delete_keys (expiredKeys now m) (records m)),
             revision := revision m + 1\<rparr>, Inr r))"
proof -
  let ?cur = "visible m now (i_key i)"
  let ?r = "\<lparr>r_key = i_key i, r_value = i_value i, r_metadata = sorted_entries md,
     r_revision = decimal (nat (revision m + 1)), r_expiresAt = ex\<rparr>"
  have ok: "mem_ok m" using reach_ok [OF assms(1)] .
  have "write_ok o'" using snapshotWriteOptions_ok reduce_options_inv [of snapshotWriteOptions DefaultWriteOptions os o' write_ok]
      assms(8) by (auto simp: writeOptions_def DefaultWriteOptions_def write_ok_def)
  then have w: "pred_option positive_ok (expiresInMs o')" "pred_option (text_ok True) (w_ifRevision o')"
    by (auto simp: write_ok_def)
  have cur: "pred_option (text_ok True) (map_option r_revision ?cur)"
    using visible_record(2) [OF ok, of now "i_key i"] by (cases ?cur) (auto simp: clean_def)
  have ce: "newStoreConflictError (i_key i) None (map_option r_revision ?cur) = StoreConflict (i_key i) None (map_option r_revision ?cur)"
    "newStoreConflictError (i_key i) (w_ifRevision o') (map_option r_revision ?cur) =
       StoreConflict (i_key i) (w_ifRevision o') (map_option r_revision ?cur)"
    using conflict_error [OF assms(5) _ cur] w(2) by simp_all
  have snap: "snapshotStoreRecordInput i = Inr (i\<lparr>i_metadata := Some (sorted_entries md)\<rparr>)"
    "timestamp (Fin (of_int now)) = Inr now"
    using assms by (simp_all add: snapshotStoreRecordInput_Inr timestamp_Inr)
  have cl: "clean ?r"
    using assms(5,7) decimal_text_ok expiry_time [OF assms(9,3) w(1)] by (simp add: clean_def sorted_entries_idem)
  have cand: "write_candidate w c i os (Fin (of_int now)) m =
    (if w_ifAbsent o' = Some True \<and> ?cur \<noteq> None then Inl (StoreConflict (i_key i) None (map_option r_revision ?cur))
     else if w_ifRevision o' \<noteq> None \<and> map_option r_revision ?cur \<noteq> w_ifRevision o'
     then Inl (StoreConflict (i_key i) (w_ifRevision o') (map_option r_revision ?cur))
     else bindE (nextRevision m) (\<lambda>candidate. bindE (snapshotStoreRecord (?r\<lparr>r_revision := decimal (nat candidate)\<rparr>))
            (\<lambda>r. Inr (expiredKeys now m, candidate, r))))"
    unfolding write_candidate_def Let_def assms(2,8) snap bindE_simps assms(9) visible_current [OF ok] by (auto simp: ce)
  show ?thesis
  proof (cases "revision m = max_safe")
    case True
    then show ?thesis
      unfolding write_record_def cand Let_def by (auto simp: nextRevision_def MaximumRevision_def)
  next
    case False
    then have "nextRevision m = Inr (revision m + 1)" using mem_okD(3) [OF ok] by (simp add: nextRevision_Inr)
    then show ?thesis
      unfolding write_record_def cand Let_def using False clean_snapshot [OF cl] by auto
  qed
qed

theorem write_outcome_witness:
  "write_record w0 background item [ifAbsent] (Fin (of_int 3)) store1 = (store1, Inl (StoreConflict [97] None (Some [49])))"
proof -
  have o: "writeOptions [ifAbsent] = Inr \<lparr>expiresInMs = None, w_ifAbsent = Some True, w_ifRevision = None\<rparr>"
    by (simp add: store_eval ifAbsent_def)
  have e: "expiry 3 (expiresInMs \<lparr>expiresInMs = None, w_ifAbsent = Some True, w_ifRevision = None\<rparr>) = Inr None"
    by (simp add: expiry_def)
  have v: "visible store1 3 [97] = Some \<lparr>r_key = [97], r_value = [1], r_metadata = [], r_revision = [49], r_expiresAt = None\<rparr>"
    by (simp add: store1_eq visible_def expires_by_def)
  show ?thesis
    using write_outcome [OF store_reach(2) store_context _ _ _ _ _ o e, of item "[]"] v
    by (simp add: item_def max_safe_def text_ok_def plain_unit)
qed

section \<open>Cursors\<close>

lemma wf_ascii_append: "\<forall>u \<in> set a. is_ascii u \<Longrightarrow> isWellFormed b \<Longrightarrow> isWellFormed (a @ b)"
  by (simp add: isWellFormed_append isWellFormed_ascii)

lemma hex4_ascii: "u \<in> set (hex4 v) \<Longrightarrow> is_ascii u"
  using hex4_value [of v]
  by (auto simp: list_all_iff is_hex_def is_digit_def is_ascii_def word_le_nat_alt word_less_nat_alt)

lemma ascii_numeral: "is_ascii 92" "is_ascii 117" "is_ascii 34" "is_ascii 44" "is_ascii 91" "is_ascii 93"
  by (simp_all add: is_ascii_def)

lemma escape_ascii: "map_of (map (\<lambda>(e, c). (c, e)) escapes) u = Some e \<Longrightarrow> is_ascii e"
  by (auto simp: escapes_def is_ascii_def split: if_splits)

lemma json_quoted_wf: "isWellFormed (json_quoted s)"
proof (induction s rule: json_quoted.induct)
  case (2 u s)
  have esc: "isWellFormed ([92, 117] @ hex4 u @ x)" if "isWellFormed x" for x
    using wf_ascii_append [of "[92, 117] @ hex4 u" x] that hex4_ascii ascii_numeral by auto
  show ?case
  proof (cases "map_of (map (\<lambda>(e, c). (c, e)) escapes) u")
    case (Some e)
    have "isWellFormed ([92, e] @ json_quoted s)"
      by (rule wf_ascii_append) (use 2(5) [OF Some] escape_ascii [OF Some] ascii_numeral in auto)
    then show ?thesis using Some by simp
  next
    case None
    then show ?thesis
      using 2(1-4) [OF None] esc by (auto simp del: isWellFormed.simps(2)) (auto simp: isWellFormed.simps)
  qed
qed simp

lemma json_int_ascii: "0 \<le> i \<Longrightarrow> u \<in> set (json_int i) \<Longrightarrow> is_ascii u"
  using decimal_value [of "nat i"]
  by (auto simp: json_int_def list_all_iff is_digit_def is_ascii_def word_le_nat_alt word_less_nat_alt)

lemma encodeCursor_ok:
  assumes "0 \<le> rv" "0 \<le> offset"
  shows "text_ok True (encodeCursor rv pfx offset)"
proof -
  let ?a = "[91] @ json_int 1 @ [44] @ json_int rv @ [44, 34]" and ?b = "[34, 44] @ json_int offset @ [93]"
  have "encodeCursor rv pfx offset = ?a @ json_quoted pfx @ ?b"
    by (simp add: encodeCursor_def json_array_def json_string_def CursorVersion_def)
  moreover have "isWellFormed ?a" "isWellFormed ?b"
    using json_int_ascii [of 1] json_int_ascii [OF assms(1)] json_int_ascii [OF assms(2)] ascii_numeral
    by (intro isWellFormed_ascii; force)+
  ultimately show ?thesis
    using isWellFormed_append [of ?a "json_quoted pfx @ ?b"] isWellFormed_append [of "json_quoted pfx" ?b] json_quoted_wf
    by (simp add: text_ok_def)
qed

lemma cursor_roundtrip:
  assumes "0 \<le> rv" "rv \<le> max_safe" "0 \<le> offset" "offset \<le> max_safe"
  shows "decodeCursor (encodeCursor rv pfx offset) =
    Inr \<lparr>dc_revision = Fin (of_int rv), dc_prefix = pfx, dc_offset = Fin (of_int offset)\<rparr>"
proof -
  have "JSON_parse (encodeCursor rv pfx offset) =
      Inr (JArr [JNum (Fin (of_int CursorVersion)), JNum (Fin (of_int rv)), JStr pfx, JNum (Fin (of_int offset))])"
    using json_array_value [of CursorVersion rv offset pfx] assms by (simp add: encodeCursor_def CursorVersion_def)
  then show ?thesis using assms by (simp add: decodeCursor_def natural_number_def)
qed

section \<open>Pages\<close>

lemma delete_keys_length: "length (delete_keys ks m) \<le> length m"
  unfolding delete_keys_def
proof (induction ks arbitrary: m)
  case (Cons k ks)
  have "length (map_delete k m) \<le> length m" by (simp add: AList.delete_eq)
  then show ?case using Cons [of "map_delete k m"] by simp
qed simp

lemma page_loop_clean:
  "\<forall>r \<in> set xs. clean r \<Longrightarrow> distinct (map r_key xs) \<Longrightarrow> keys \<inter> r_key ` set xs = {} \<Longrightarrow> page_loop keys xs = Inr xs"
  by (induction xs arbitrary: keys) (auto simp: clean_snapshot)

lemma snapshotStorePage_clean:
  assumes "\<forall>r \<in> set xs. clean r" "distinct (map r_key xs)" "sorted (map (\<lambda>r. code_points (r_key r)) xs)"
    and "pred_option (text_ok True) cur"
  shows "snapshotStorePage \<lparr>p_records = xs, p_cursor = cur\<rparr> = Inr \<lparr>p_records = xs, p_cursor = cur\<rparr>"
proof -
  have "sort_by r_key xs = xs"
    using assms(1,3) by (subst sort_by_key) (auto simp: clean_def text_ok_def sort_key_id_if_sorted)
  moreover have "nullable (\<lambda>c. exactString c ''Store page cursor'' True) cur = Inr cur"
    using assms(4) by (cases cur) (auto simp: js_res)
  ultimately show ?thesis using page_loop_clean [OF assms(1,2), of "{}"] by (simp add: snapshotStorePage_def)
qed

lemma matching_facts:
  assumes "mem_ok m"
  shows "\<forall>r \<in> set (matching pfx m). clean r" "distinct (map r_key (matching pfx m))"
    "sorted (map (\<lambda>r. code_points (r_key r)) (matching pfx m))"
    "set (matching pfx m) = {r. \<exists>k. map_get (records m) k = Some r \<and> startsWith k pfx}"
    "length (matching pfx m) \<le> length (records m)"
proof -
  let ?xs = "filter (\<lambda>r. startsWith (r_key r) pfx) (map snd (records m))"
  have e: "clean r \<and> r_key r = k" if "(k, r) \<in> set (records m)" for k r using mem_okD(4) [OF assms that] by blast
  then have cl: "\<forall>r \<in> set ?xs. clean r" by auto
  then have eq: "matching pfx m = sort_key (\<lambda>r. code_points (r_key r)) ?xs"
    unfolding matching_def by (intro sort_by_key) (auto simp: clean_def text_ok_def)
  have d: "distinct (map fst (records m))" using mem_okD(1) [OF assms] .
  have "map r_key (map snd (records m)) = map fst (records m)" using e by (auto intro!: map_cong)
  then have "distinct (map r_key (map snd (records m)))" using d by metis
  then have "distinct (map r_key ?xs)" by (rule distinct_map_filter)
  then show "distinct (map r_key (matching pfx m))"
    unfolding eq by (metis distinct_map distinct_sort set_sort)
  show "\<forall>r \<in> set (matching pfx m). clean r" "sorted (map (\<lambda>r. code_points (r_key r)) (matching pfx m))"
    using cl by (simp_all add: eq)
  show "set (matching pfx m) = {r. \<exists>k. map_get (records m) k = Some r \<and> startsWith k pfx}"
    using e d by (auto simp: eq) force
  show "length (matching pfx m) \<le> length (records m)"
    using length_filter_le [of _ "map snd (records m)"] by (simp add: eq)
qed

lemma int_of_nat [simp]: "int_of (Fin (of_nat k)) = int k"
  by (simp add: int_of_def)

text \<open>One page at an offset.\<close>

lemma page_at:
  assumes "mem_ok m" "off \<le> length (matching pfx m)" "1 \<le> n"
    and dec: "decoded = (if off = 0 then decoded0 else
        Some \<lparr>dc_revision = Fin (of_int (revision m)), dc_prefix = pfx, dc_offset = Fin (of_int (int off))\<rparr>)"
      "decoded0 = None"
  shows "page \<lparr>l_prefix = pfx, l_limit = Some (Fin (of_int n)), l_cursor = cur\<rparr> decoded m =
    Inr \<lparr>p_records = take (nat n) (drop off (matching pfx m)),
         p_cursor = (if off + nat n < length (matching pfx m)
           then Some (encodeCursor (revision m) pfx (int (off + nat n))) else None)\<rparr>"
proof -
  let ?ms = "matching pfx m"
  let ?count = "min (nat n) (length ?ms - off)"
  let ?next = "off + length (take ?count (drop off ?ms))"
  let ?cur = "if ?next < length ?ms then Some (encodeCursor (revision m) pfx (int ?next)) else None"
  note f = matching_facts [OF assms(1), of pfx]
  have t: "take ?count (drop off ?ms) = take (nat n) (drop off ?ms)" by (simp add: min_def)
  have sub: "set (take k (drop off ?ms)) \<subseteq> set ?ms" for k using set_take_subset set_drop_subset by fastforce
  have "snapshotStorePage \<lparr>p_records = take ?count (drop off ?ms), p_cursor = ?cur\<rparr> =
      Inr \<lparr>p_records = take ?count (drop off ?ms), p_cursor = ?cur\<rparr>"
  proof (rule snapshotStorePage_clean)
    show "\<forall>r \<in> set (take ?count (drop off ?ms)). clean r" using f(1) sub by blast
    show "distinct (map r_key (take ?count (drop off ?ms)))"
      using f(2) by (simp add: take_map [symmetric] drop_map [symmetric])
    show "sorted (map (\<lambda>r. code_points (r_key r)) (take ?count (drop off ?ms)))"
      using f(3) by (simp add: take_map [symmetric] drop_map [symmetric] sorted_wrt_take sorted_wrt_drop)
    show "pred_option (text_ok True) ?cur" using encodeCursor_ok mem_okD(2) [OF assms(1)] by simp
  qed
  moreover have "(if ?next < length ?ms then Some (encodeCursor (revision m) pfx (int ?next)) else None) =
      (if off + nat n < length ?ms then Some (encodeCursor (revision m) pfx (int (off + nat n))) else None)"
    using assms(2) by (auto simp: min_def)
  moreover have "page \<lparr>l_prefix = pfx, l_limit = Some (Fin (of_int n)), l_cursor = cur\<rparr> decoded m =
      snapshotStorePage \<lparr>p_records = take ?count (drop off ?ms), p_cursor = ?cur\<rparr>"
    using assms(2) dec by (cases "off = 0") (simp_all add: page_def Let_def)
  ultimately show ?thesis unfolding t by simp
qed

text \<open>
  A caller that follows the cursors: the records of all pages, \<open>None\<close> if a call throws or the pages do
  not end within the fuel.
\<close>

definition page_options :: "jsstr \<Rightarrow> int \<Rightarrow> jsstr option \<Rightarrow> list_options reducer list" where
  "page_options pfx n cur = [\<lambda>_. Inr \<lparr>l_prefix = pfx, l_limit = Some (Fin (of_int n)), l_cursor = cur\<rparr>]"

fun collect :: "nat \<Rightarrow> nat world \<Rightarrow> nat ctx \<Rightarrow> jsstr \<Rightarrow> int \<Rightarrow> int \<Rightarrow> jsstr option \<Rightarrow> memory \<Rightarrow> store_record list option" where
  "collect 0 w c pfx n now cur m = None"
| "collect (Suc f) w c pfx n now cur m =
     (case list w c (page_options pfx n cur) (Fin (of_int now)) m of
        (m', Inl e) \<Rightarrow> None
      | (m', Inr p) \<Rightarrow>
          (case p_cursor p of
             None \<Rightarrow> Some (p_records p)
           | Some q \<Rightarrow> map_option (\<lambda>rs. p_records p @ rs) (collect f w c pfx n now (Some q) m')))"

declare collect.simps(2) [simp del]

lemma list_page:
  assumes "checkContext w c = Inr ()" "0 \<le> now" "now \<le> max_safe" "isWellFormed pfx" "1 \<le> n" "n \<le> max_safe"
    and "purgeExpired (expiredKeys now m) m = Inr m'" "pred_option (text_ok True) cur" "nullable decodeCursor cur = Inr decoded"
  shows "list w c (page_options pfx n cur) (Fin (of_int now)) m =
    (m', page \<lparr>l_prefix = pfx, l_limit = Some (Fin (of_int n)), l_cursor = cur\<rparr> decoded m')"
proof -
  have "positive_ok (Fin (of_int n))" using assms(5,6) by (auto simp: positive_ok_def)
  then have "snapshotListOptions \<lparr>l_prefix = pfx, l_limit = Some (Fin (of_int n)), l_cursor = cur\<rparr> =
      Inr \<lparr>l_prefix = pfx, l_limit = Some (Fin (of_int n)), l_cursor = cur\<rparr>"
    using assms(4,8) by (cases cur) (auto simp: snapshotListOptions_def js_res text_ok_def)
  then have "listOptions (page_options pfx n cur) = Inr \<lparr>l_prefix = pfx, l_limit = Some (Fin (of_int n)), l_cursor = cur\<rparr>"
    by (simp add: listOptions_def page_options_def)
  moreover have "timestamp (Fin (of_int now)) = Inr now" using assms(2,3) by (simp add: timestamp_Inr)
  ultimately show ?thesis using assms(1,7,9) by (simp add: list_def)
qed

lemma collect_from:
  assumes "checkContext w c = Inr ()" "0 \<le> now" "now \<le> max_safe" "isWellFormed pfx" "1 \<le> n" "n \<le> max_safe"
    and m: "mem_ok m" "expiredKeys now m = []" "int (length (records m)) \<le> max_safe"
    and "off \<le> length (matching pfx m)" "length (matching pfx m) - off < f"
    and cur: "cur = (if off = 0 then None else Some (encodeCursor (revision m) pfx (int off)))"
  shows "collect f w c pfx n now cur m = Some (drop off (matching pfx m))"
  using assms(10-12)
proof (induction f arbitrary: off cur)
  case (Suc f)
  let ?ms = "matching pfx m" and ?next = "off + nat n"
  let ?dec = "if off = 0 then None else
      Some \<lparr>dc_revision = Fin (of_int (revision m)), dc_prefix = pfx, dc_offset = Fin (of_int (int off))\<rparr>"
  have len: "length ?ms \<le> length (records m)" using matching_facts(5) [OF m(1)] .
  have rv: "0 \<le> revision m" "revision m \<le> max_safe" using mem_okD [OF m(1)] by auto
  have dec: "nullable decodeCursor cur = Inr ?dec" "pred_option (text_ok True) cur"
    using Suc.prems(1,3) cursor_roundtrip [OF rv, of "int off" pfx] encodeCursor_ok [OF rv(1), of "int off" pfx] len m(3)
    by (auto simp: nullable_def)
  have p: "purgeExpired (expiredKeys now m) m = Inr m" using m(2) by (simp add: purgeExpired_def)
  have l: "list w c (page_options pfx n cur) (Fin (of_int now)) m =
      (m, Inr \<lparr>p_records = take (nat n) (drop off ?ms),
         p_cursor = (if ?next < length ?ms then Some (encodeCursor (revision m) pfx (int ?next)) else None)\<rparr>)"
    unfolding list_page [OF assms(1-6) p dec(2,1)]
    using page_at [OF m(1) Suc.prems(1) assms(5) refl refl, where cur = cur] by simp
  show ?case
  proof (cases "?next < length ?ms")
    case True
    have "collect f w c pfx n now (Some (encodeCursor (revision m) pfx (int ?next))) m = Some (drop ?next ?ms)"
      using True Suc.prems(2) assms(5) by (intro Suc.IH) auto
    moreover have "take (nat n) (drop off ?ms) @ drop ?next ?ms = drop off ?ms"
      by (metis append_take_drop_id drop_drop add.commute)
    ultimately show ?thesis using l True by (simp add: collect.simps(2))
  next
    case False
    then show ?thesis using l by (simp add: collect.simps(2))
  qed
qed simp

text \<open>
  C10: a caller that follows cursors from the first page, at one time and with any positive page
  size, gets every record visible at that time whose key has the prefix, once, in code point order.
\<close>

theorem pages_complete:
  assumes "mem_reach m" "checkContext w c = Inr ()" "0 \<le> now" "now \<le> max_safe" "isWellFormed pfx" "1 \<le> n" "n \<le> max_safe"
    and "revision m < max_safe" "int (length (records m)) \<le> max_safe"
  shows "\<exists>rs. collect (Suc (length (records m))) w c pfx n now None m = Some rs \<and>
    set rs = {r. \<exists>k. visible m now k = Some r \<and> startsWith k pfx} \<and>
    distinct (map r_key rs) \<and> sorted (map (\<lambda>r. code_points (r_key r)) rs)"
proof -
  have ok: "mem_ok m" using reach_ok [OF assms(1)] .
  obtain m1 where p: "purgeExpired (expiredKeys now m) m = Inr m1" using purge_total [OF assms(8)] by blast
  note r = purge_run [OF ok p]
  note f = matching_facts [OF r(1), of pfx]
  have len: "length (records m1) \<le> length (records m)"
    using p delete_keys_length by (auto simp: purgeExpired_def js_res split: if_splits)
  have same: "collect (Suc (length (records m))) w c pfx n now None m = collect (Suc (length (records m))) w c pfx n now None m1"
  proof -
    have p1: "purgeExpired (expiredKeys now m1) m1 = Inr m1" using r(4) by (simp add: purgeExpired_def)
    show ?thesis
      using list_page [OF assms(2-7) p, of None None] list_page [OF assms(2-7) p1, of None None]
      by (simp add: nullable_def collect.simps(2))
  qed
  have "length (matching pfx m1) < Suc (length (records m))" using f(5) len by simp
  then have "collect (Suc (length (records m))) w c pfx n now None m = Some (matching pfx m1)"
    unfolding same using collect_from [OF assms(2-7) r(1,4), of 0] len assms(9) by simp
  moreover have "map_get (records m1) k = visible m now k" for k using purge_law [OF ok p] by blast
  ultimately show ?thesis using f by simp
qed

theorem pages_complete_witness:
  "\<exists>rs. collect (Suc 1) w0 background [] 1 3 None store1 = Some rs \<and> map r_key rs = [[97]]"
proof -
  have "{r. \<exists>k. visible store1 3 k = Some r} = {\<lparr>r_key = [97], r_value = [1], r_metadata = [], r_revision = [49], r_expiresAt = None\<rparr>}"
    by (auto simp: store1_eq visible_def expires_by_def split: if_splits)
  then obtain rs where rs: "collect (Suc 1) w0 background [] 1 3 None store1 = Some rs" "distinct (map r_key rs)"
      "set rs = {\<lparr>r_key = [97], r_value = [1], r_metadata = [], r_revision = [49], r_expiresAt = None\<rparr>}"
    using pages_complete [OF store_reach(2) store_context, of 3 "[]" 1] by (auto simp: store1_eq max_safe_def startsWith_def)
  then have "rs = [\<lparr>r_key = [97], r_value = [1], r_metadata = [], r_revision = [49], r_expiresAt = None\<rparr>]"
    by (cases rs; cases "tl rs") auto
  then show ?thesis using rs(1) by simp
qed

end
