(* ===== verification/Cache.thy ===== *)
theory Cache
  imports Store Context
begin

text \<open>
  \<open>packages/cache\<close>: the put options of the Cache contract (\<open>src/options.ts\<close>) and the process-local
  provider (\<open>memory/src/cache.ts\<close>). The state of the provider is its map of entries. A method body
  runs without an \<open>await\<close>, so a call is one atomic step; \<open>clock\<close> is what the configured clock does if
  the call reads it, returning a number or throwing, and it does not call the cache. Values are byte
  lists, so the copies that \<open>slice\<close> makes are the values themselves.
\<close>

section \<open>Put options\<close>

record put_options =
  p_expiresInMs :: "js_number option"

definition DefaultPutOptions :: put_options where
  "DefaultPutOptions = \<lparr>p_expiresInMs = None\<rparr>"

definition positiveDuration :: "js_number \<Rightarrow> js_number res" where
  "positiveDuration v =
     (if \<not> isSafeInteger v \<or> num_less v (Fin 1)
      then Inl (RangeError ''Cache expiresInMs must be a positive safe integer'') else Inr v)"

definition snapshotPutOptions :: "put_options \<Rightarrow> put_options res" where
  "snapshotPutOptions v =
     bindE (nullable positiveDuration (p_expiresInMs v)) (\<lambda>d. Inr \<lparr>p_expiresInMs = d\<rparr>)"

definition expiresIn :: "js_number \<Rightarrow> put_options reducer res" where
  "expiresIn valueMs =
     bindE (positiveDuration valueMs) (\<lambda>captured. Inr (\<lambda>_. Inr \<lparr>p_expiresInMs = Some captured\<rparr>))"

definition putOptions :: "put_options reducer list \<Rightarrow> put_options res" where
  "putOptions options = reduce_options snapshotPutOptions DefaultPutOptions options"

section \<open>State and checks\<close>

record memory_entry =
  e_value :: "byte list"
  e_expiresAt :: "int option"

type_synonym cache = "(jsstr, memory_entry) jsmap"
type_synonym clock = "js_number res"

definition MinimumTTLMilliseconds :: rat where "MinimumTTLMilliseconds = 1"
definition MaximumTTLMilliseconds :: rat where "MaximumTTLMilliseconds = 2147483647"
definition MaximumKeyBytes :: nat where "MaximumKeyBytes = 4096"
definition MaximumValueBytes :: nat where "MaximumValueBytes = 16777216"

definition contextFailure :: "'v world \<Rightarrow> 'v ctx \<Rightarrow> thrown option" where
  "contextFailure w c =
     (case resolveErr w c of
        None \<Rightarrow> None
      | Some failure \<Rightarrow> Some (case readCause w c of Some k \<Rightarrow> k | None \<Rightarrow> failure))"

definition checkContext :: "'v world \<Rightarrow> 'v ctx \<Rightarrow> unit res" where
  "checkContext w c = (case contextFailure w c of None \<Rightarrow> Inr () | Some e \<Rightarrow> Inl e)"

definition cacheKey :: "jsstr \<Rightarrow> jsstr res" where
  "cacheKey v =
     (if length v = 0 \<or> \<not> isWellFormed v
      then Inl (TypeError ''Memory Cache key must be a non-empty well-formed string'')
      else if MaximumKeyBytes < length (utf8_encode v)
      then Inl (RangeError ''Memory Cache key exceeds maximumKeyBytes'')
      else Inr v)"

definition cacheValue :: "byte list \<Rightarrow> byte list res" where
  "cacheValue v =
     (if MaximumValueBytes < length v
      then Inl (RangeError ''Memory Cache value exceeds maximumValueBytes'') else Inr v)"

definition timestamp :: "clock \<Rightarrow> int res" where
  "timestamp clock =
     bindE clock (\<lambda>v.
       if \<not> isSafeInteger v \<or> num_less v (Fin 0)
       then Inl (RangeError ''Memory Cache clock must return a non-negative safe integer'')
       else Inr (int_of v))"

definition expiry :: "clock \<Rightarrow> js_number option \<Rightarrow> int option res" where
  "expiry clock durationMs =
     (case durationMs of
        None \<Rightarrow> Inr None
      | Some d \<Rightarrow>
          if num_less d (Fin MinimumTTLMilliseconds) \<or> num_less (Fin MaximumTTLMilliseconds) d
          then Inl (RangeError ''Memory Cache ttl is outside provider bounds'')
          else bindE (timestamp clock) (\<lambda>now.
            let expiresAt = Fin (of_int now + rat_of d) in
            if \<not> isSafeInteger expiresAt
            then Inl (RangeError ''Memory Cache expiry exceeds safe timestamp bounds'')
            else Inr (Some (int_of expiresAt))))"

section \<open>Operations\<close>

definition activeEntry :: "clock \<Rightarrow> jsstr \<Rightarrow> cache \<Rightarrow> cache \<times> memory_entry option res" where
  "activeEntry clock key m =
     (case map_get m key of
        None \<Rightarrow> (m, Inr None)
      | Some entry \<Rightarrow>
          (case e_expiresAt entry of
             None \<Rightarrow> (m, Inr (Some entry))
           | Some expiresAt \<Rightarrow>
               (case timestamp clock of
                  Inl e \<Rightarrow> (m, Inl e)
                | Inr now \<Rightarrow>
                    if expiresAt \<le> now then (map_delete key m, Inr None) else (m, Inr (Some entry)))))"

definition get :: "'v world \<Rightarrow> 'v ctx \<Rightarrow> jsstr \<Rightarrow> clock \<Rightarrow> cache \<Rightarrow> cache \<times> byte list option res" where
  "get w c key clock m =
     (case bindE (checkContext w c) (\<lambda>_. cacheKey key) of
        Inl e \<Rightarrow> (m, Inl e)
      | Inr k \<Rightarrow>
          (case activeEntry clock k m of
             (m', r) \<Rightarrow> (m', bindE r (\<lambda>entry. Inr (map_option e_value entry)))))"

definition put_entry ::
    "'v world \<Rightarrow> 'v ctx \<Rightarrow> jsstr \<Rightarrow> byte list \<Rightarrow> put_options reducer list \<Rightarrow> clock \<Rightarrow>
     (jsstr \<times> memory_entry) res" where
  "put_entry w c key v options clock =
     bindE (checkContext w c) (\<lambda>_.
     bindE (cacheKey key) (\<lambda>selectedKey.
     bindE (cacheValue v) (\<lambda>selectedValue.
     bindE (putOptions options) (\<lambda>resolved.
     bindE (expiry clock (p_expiresInMs resolved)) (\<lambda>expiresAt.
     Inr (selectedKey, \<lparr>e_value = selectedValue, e_expiresAt = expiresAt\<rparr>))))))"

definition put ::
    "'v world \<Rightarrow> 'v ctx \<Rightarrow> jsstr \<Rightarrow> byte list \<Rightarrow> put_options reducer list \<Rightarrow> clock \<Rightarrow> cache \<Rightarrow>
     cache \<times> unit res" where
  "put w c key v options clock m =
     (case put_entry w c key v options clock of
        Inl e \<Rightarrow> (m, Inl e)
      | Inr (k, entry) \<Rightarrow> (map_set k entry m, Inr ()))"

definition delete :: "'v world \<Rightarrow> 'v ctx \<Rightarrow> jsstr \<Rightarrow> cache \<Rightarrow> cache \<times> unit res" where
  "delete w c key m =
     (case bindE (checkContext w c) (\<lambda>_. cacheKey key) of
        Inl e \<Rightarrow> (m, Inl e)
      | Inr k \<Rightarrow> (map_delete k m, Inr ()))"

section \<open>Calls\<close>

text \<open>One call by any caller, with the state of its Context at the time of the call.\<close>

datatype 'v cache_call =
    GetCall "'v world" "'v ctx" jsstr clock
  | PutCall "'v world" "'v ctx" jsstr "byte list" "put_options reducer list" clock
  | DeleteCall "'v world" "'v ctx" jsstr

fun cache_step :: "'v cache_call \<Rightarrow> cache \<Rightarrow> cache" where
  "cache_step (GetCall w c k clock) m = fst (get w c k clock m)"
| "cache_step (PutCall w c k v os clock) m = fst (put w c k v os clock m)"
| "cache_step (DeleteCall w c k) m = fst (delete w c k m)"

fun changes_key :: "jsstr \<Rightarrow> 'v cache_call \<Rightarrow> bool" where
  "changes_key k (GetCall _ _ _ _) = False"
| "changes_key k (PutCall _ _ k' _ _ _) = (k' = k)"
| "changes_key k (DeleteCall _ _ k') = (k' = k)"

text \<open>The clock of a call does not pass \<open>t\<close>: it reads at most \<open>t\<close>, or the call rejects its reading.\<close>

definition reads_until :: "int \<Rightarrow> clock \<Rightarrow> bool" where
  "reads_until t clock = (case timestamp clock of Inl _ \<Rightarrow> True | Inr now \<Rightarrow> now \<le> t)"

fun call_until :: "int \<Rightarrow> 'v cache_call \<Rightarrow> bool" where
  "call_until t (GetCall _ _ _ clock) = reads_until t clock"
| "call_until t (PutCall _ _ _ _ _ clock) = reads_until t clock"
| "call_until t (DeleteCall _ _ _) = True"

text \<open>The value of a key that has not expired at time \<open>t\<close>: the abstract state of the cache.\<close>

definition lives :: "int \<Rightarrow> memory_entry \<Rightarrow> bool" where
  "lives t entry = (case e_expiresAt entry of None \<Rightarrow> True | Some x \<Rightarrow> t < x)"

definition live :: "cache \<Rightarrow> int \<Rightarrow> jsstr \<Rightarrow> byte list option" where
  "live m t k = (case map_get m k of
     None \<Rightarrow> None | Some entry \<Rightarrow> if lives t entry then Some (e_value entry) else None)"

text \<open>What a call has stored under a key, and until when; what a read has answered, and at what time.\<close>

definition alive :: "int option \<Rightarrow> int \<Rightarrow> bool" where
  "alive ends t = (case ends of None \<Rightarrow> True | Some x \<Rightarrow> t < x)"

fun stores :: "'v cache_call \<Rightarrow> cache \<Rightarrow> (jsstr \<times> byte list \<times> int option) option" where
  "stores (PutCall w c k v os clock) m =
     (case put_entry w c k v os clock of
        Inl _ \<Rightarrow> None | Inr (k', entry) \<Rightarrow> Some (k', v, e_expiresAt entry))"
| "stores _ m = None"

fun answers :: "'v cache_call \<Rightarrow> cache \<Rightarrow> (int \<times> jsstr \<times> byte list option) option" where
  "answers (GetCall w c k clock) m =
     (case (timestamp clock, snd (get w c k clock m)) of
        (Inr now, Inr r) \<Rightarrow> Some (now, k, r) | _ \<Rightarrow> None)"
| "answers _ m = None"

section \<open>The contract of a cache\<close>

locale cache_contract =
  fixes step :: "'op \<Rightarrow> 's \<Rightarrow> 's"
    and view :: "'s \<Rightarrow> int \<Rightarrow> 'k \<Rightarrow> 'b option"
    and changes :: "'k \<Rightarrow> 'op \<Rightarrow> bool"
    and until :: "int \<Rightarrow> 'op \<Rightarrow> bool"
    and stored :: "'op \<Rightarrow> 's \<Rightarrow> ('k \<times> 'b \<times> int option) option"
    and answer :: "'op \<Rightarrow> 's \<Rightarrow> (int \<times> 'k \<times> 'b option) option"
  assumes frame: "\<not> changes k op \<Longrightarrow> until t op \<Longrightarrow> view (step op m) t k = view m t k"
    and stored_law: "stored op m = Some (k, v, ends) \<Longrightarrow>
      view (step op m) t k = (if alive ends t then Some v else None)"
    and answer_law: "answer op m = Some (t, k, r) \<Longrightarrow> r = view m t k"
begin

lemma frame_run:
  "\<forall>op \<in> set ops. \<not> changes k op \<and> until t op \<Longrightarrow> view (fold step ops m) t k = view m t k"
  by (induction ops arbitrary: m) (simp_all add: frame)

lemma lifetime:
  assumes "stored op m = Some (k, v, ends)" "\<forall>op' \<in> set ops. \<not> changes k op' \<and> until t op'"
    and "answer g (fold step ops (step op m)) = Some (t, k, r)"
  shows "r = (if alive ends t then Some v else None)"
  using answer_law [OF assms(3)] frame_run [OF assms(2), of "step op m"] stored_law [OF assms(1), of t] by simp

end

section \<open>The memory provider keeps the contract\<close>

lemma cacheKey_Inr [js_res]:
  "cacheKey k = Inr k' \<longleftrightarrow> k' = k \<and> k \<noteq> [] \<and> isWellFormed k \<and> length (utf8_encode k) \<le> MaximumKeyBytes"
  by (auto simp: cacheKey_def)

lemma put_entry_Inr:
  "put_entry w c k v os clock = Inr (k', entry) \<Longrightarrow> k' = k \<and> e_value entry = v"
  by (auto simp: put_entry_def cacheValue_def js_res split: if_splits)

lemma activeEntry_laws:
  assumes "activeEntry clock k m = (m', r)"
  shows "reads_until t clock \<Longrightarrow> live m' t = live m t"
    and "r = Inr entry \<Longrightarrow> timestamp clock = Inr now \<Longrightarrow> map_option e_value entry = live m now k"
    and "r = Inl e \<Longrightarrow> m' = m"
  using assms
  by (cases "map_get m k"; auto simp: activeEntry_def live_def lives_def reads_until_def fun_eq_iff
      split: option.splits sum.splits if_splits)+

lemma get_laws:
  assumes "get w c k clock m = (m', r)"
  shows "reads_until t clock \<Longrightarrow> live m' t = live m t"
    and "r = Inr v \<Longrightarrow> timestamp clock = Inr now \<Longrightarrow> v = live m now k"
    and "r = Inl e \<Longrightarrow> m' = m"
proof -
  obtain m1 r1 where a: "activeEntry clock k m = (m1, r1)" by (cases "activeEntry clock k m")
  note l = activeEntry_laws [OF a]
  consider e where "bindE (checkContext w c) (\<lambda>_. cacheKey k) = Inl e" "m' = m" "r = Inl e"
    | "m' = m1" "r = bindE r1 (\<lambda>entry. Inr (map_option e_value entry))"
    using assms a by (auto simp: get_def js_res split: sum.splits)
  note outcome = this
  show "reads_until t clock \<Longrightarrow> live m' t = live m t" using outcome l(1) by cases simp_all
  show "r = Inr v \<Longrightarrow> timestamp clock = Inr now \<Longrightarrow> v = live m now k"
    using outcome l(2) by cases (auto simp: js_res)
  show "r = Inl e \<Longrightarrow> m' = m" using outcome l(3) by cases (auto simp: js_res)
qed

lemma put_laws:
  assumes "put w c k v os clock m = (m', r)"
  shows "r = Inr u \<Longrightarrow> \<exists>entry. put_entry w c k v os clock = Inr (k, entry) \<and> e_value entry = v \<and>
      live m' t = (live m t)(k := if lives t entry then Some v else None)"
    and "r = Inl e \<Longrightarrow> m' = m"
  using assms put_entry_Inr [of w c k v os clock]
  by (cases "put_entry w c k v os clock"; auto simp: put_def live_def fun_eq_iff)+

lemma delete_laws:
  assumes "delete w c k m = (m', r)"
  shows "r = Inr u \<Longrightarrow> live m' t = (live m t)(k := None)" and "r = Inl e \<Longrightarrow> m' = m"
  using assms by (auto simp: delete_def live_def fun_eq_iff js_res split: sum.splits)

lemma lives_alive: "lives t entry = alive (e_expiresAt entry) t"
  by (simp add: lives_def alive_def)

interpretation memory_cache: cache_contract cache_step live changes_key call_until stores answers
proof unfold_locales
  fix k t m and op :: "'v cache_call"
  assume h: "\<not> changes_key k op" "call_until t op"
  show "live (cache_step op m) t k = live m t k"
  proof (cases op)
    case (GetCall w c k' clock)
    obtain m' r where "get w c k' clock m = (m', r)" by (cases "get w c k' clock m")
    then show ?thesis using h GetCall get_laws(1) [of w c k' clock m m' r t] by simp
  next
    case (PutCall w c k' v os clock)
    obtain m' r where "put w c k' v os clock m = (m', r)" by (cases "put w c k' v os clock m")
    then show ?thesis using h PutCall put_laws(2) [of w c k' v os clock m m' r]
      put_laws(1) [of w c k' v os clock m m' r _ t] by (cases r) auto
  next
    case (DeleteCall w c k')
    obtain m' r where "delete w c k' m = (m', r)" by (cases "delete w c k' m")
    then show ?thesis using h DeleteCall delete_laws [of w c k' m m' r] by (cases r) auto
  qed
next
  fix k t m v ends and op :: "'v cache_call"
  assume "stores op m = Some (k, v, ends)"
  then show "live (cache_step op m) t k = (if alive ends t then Some v else None)"
    by (cases op) (auto simp: put_def live_def lives_alive split: sum.splits dest!: put_entry_Inr)
next
  fix k t m r and op :: "'v cache_call"
  assume "answers op m = Some (t, k, r)"
  then show "r = live m t k"
    using get_laws(2) [OF prod.collapse [symmetric]] by (cases op) (auto split: sum.splits)
qed

section \<open>What callers may rely on\<close>

definition duration_ok :: "js_number option \<Rightarrow> bool" where
  "duration_ok ms \<longleftrightarrow> (\<forall>d. ms = Some d \<longrightarrow> isSafeInteger d \<and> 1 \<le> int_of d)"

lemma positiveDuration_Inr [js_res]: "positiveDuration v = Inr d \<longleftrightarrow> d = v \<and> isSafeInteger v \<and> 1 \<le> int_of v"
  using num_less_safe(1) [of v 1] by (auto simp: positiveDuration_def)

lemma putOptions_ok: "putOptions os = Inr o' \<Longrightarrow> duration_ok (p_expiresInMs o')"
  unfolding putOptions_def
  by (erule reduce_options_inv [where P = "\<lambda>x. duration_ok (p_expiresInMs x)"])
    (auto simp: DefaultPutOptions_def snapshotPutOptions_def duration_ok_def js_res split: option.splits)

lemma cache_timestamp_Inr:
  "timestamp clock = Inr now \<longleftrightarrow> clock = Inr (Fin (of_int now)) \<and> 0 \<le> now \<and> now \<le> max_safe"
proof (cases clock)
  case (Inr v)
  then show ?thesis
    using isSafeInteger_int_of [of v] num_less_safe(1) [of v 0] by (auto simp: timestamp_def)
qed (simp add: timestamp_def)

lemma expiry_total:
  assumes "timestamp clock = Inr now" "duration_ok ms"
    and "\<forall>d. ms = Some d \<longrightarrow> int_of d \<le> 2147483647 \<and> now + int_of d \<le> max_safe"
  shows "expiry clock ms = Inr (map_option (\<lambda>d. now + int_of d) ms)"
proof (cases ms)
  case (Some d)
  have d: "isSafeInteger d" "1 \<le> int_of d" using assms(2) by (simp_all add: duration_ok_def Some)
  then have r: "rat_of d = of_int (int_of d)" by (metis isSafeInteger_int_of rat_of.simps(1))
  have "\<not> num_less d (Fin 1)" using d num_less_safe(1) [of d 1] by simp
  moreover have "\<not> num_less (Fin 2147483647) d" using d num_less_safe(2) [of d 2147483647] assms(3) Some by simp
  moreover have "0 \<le> now" using assms(1) by (simp add: cache_timestamp_Inr)
  ultimately show ?thesis
    using assms(1,3) Some d r isSafeInteger_Fin_int [of "now + int_of d"] int_of_Fin_int [of "now + int_of d"]
    by (simp add: expiry_def MinimumTTLMilliseconds_def MaximumTTLMilliseconds_def Let_def)
qed (simp add: expiry_def)

lemma put_succeeds:
  assumes "checkContext w c = Inr ()" "cacheKey k = Inr k" "timestamp clock = Inr now"
    and "length v \<le> MaximumValueBytes" "putOptions os = Inr \<lparr>p_expiresInMs = ms\<rparr>"
    and "\<forall>d. ms = Some d \<longrightarrow> int_of d \<le> 2147483647 \<and> now + int_of d \<le> max_safe"
  shows "put w c k v os clock m =
    (map_set k \<lparr>e_value = v, e_expiresAt = map_option (\<lambda>d. now + int_of d) ms\<rparr> m, Inr ())"
  using assms expiry_total [OF assms(3) _ assms(6)] putOptions_ok [OF assms(5)]
  by (simp add: put_def put_entry_def cacheValue_def)

lemma get_succeeds:
  assumes "checkContext w c = Inr ()" "cacheKey k = Inr k" "timestamp clock = Inr now"
  shows "\<exists>m'. get w c k clock m = (m', Inr (live m now k))"
  using assms by (auto simp: get_def activeEntry_def live_def lives_def split: option.splits)

text \<open>
  C29: the cache is a map from keys to values that have not expired. With a live Context and a legal
  key, a get at time \<open>now\<close> answers the value visible then and changes nothing that is visible from
  then on; a put with a legal value and lifetime, and a delete, change the map at their key only;
  and whatever call rejects, it leaves the cache as it was.
\<close>

theorem cache_refines_map:
  assumes "checkContext w c = Inr ()" "cacheKey k = Inr k" "timestamp clock = Inr now"
  shows "(\<exists>m'. get w c k clock m = (m', Inr (live m now k)) \<and> (\<forall>t \<ge> now. live m' t = live m t)) \<and>
    (\<forall>v os ms. length v \<le> MaximumValueBytes \<and> putOptions os = Inr \<lparr>p_expiresInMs = ms\<rparr> \<and>
        (\<forall>d. ms = Some d \<longrightarrow> int_of d \<le> 2147483647 \<and> now + int_of d \<le> max_safe) \<longrightarrow>
      (\<exists>m'. put w c k v os clock m = (m', Inr ()) \<and>
        (\<forall>t. live m' t = (live m t)(k := if \<exists>d. ms = Some d \<and> now + int_of d \<le> t then None else Some v)))) \<and>
    (\<exists>m'. delete w c k m = (m', Inr ()) \<and> (\<forall>t. live m' t = (live m t)(k := None))) \<and>
    (\<forall>w' c' k' clock' v os m' e.
      get w' c' k' clock' m = (m', Inl e) \<or> put w' c' k' v os clock' m = (m', Inl e) \<or>
      delete w' c' k' m = (m', Inl e) \<longrightarrow> m' = m)"
proof (intro conjI allI impI)
  obtain m' where g: "get w c k clock m = (m', Inr (live m now k))" using get_succeeds [OF assms] by blast
  have "reads_until t clock" if "now \<le> t" for t using that assms(3) by (simp add: reads_until_def)
  then show "\<exists>m'. get w c k clock m = (m', Inr (live m now k)) \<and> (\<forall>t \<ge> now. live m' t = live m t)"
    using g get_laws(1) [OF g] by blast
  show "\<exists>m'. put w c k v os clock m = (m', Inr ()) \<and>
      (\<forall>t. live m' t = (live m t)(k := if \<exists>d. ms = Some d \<and> now + int_of d \<le> t then None else Some v))"
    if "length v \<le> MaximumValueBytes \<and> putOptions os = Inr \<lparr>p_expiresInMs = ms\<rparr> \<and>
      (\<forall>d. ms = Some d \<longrightarrow> int_of d \<le> 2147483647 \<and> now + int_of d \<le> max_safe)" for v os ms
    using put_succeeds [OF assms, of v os ms m] that
    by (auto simp: live_def lives_def fun_eq_iff split: option.splits)
  show "\<exists>m'. delete w c k m = (m', Inr ()) \<and> (\<forall>t. live m' t = (live m t)(k := None))"
    using assms by (auto simp: delete_def live_def fun_eq_iff)
  show "m' = m"
    if "get w' c' k' clock' m = (m', Inl e) \<or> put w' c' k' v os clock' m = (m', Inl e) \<or>
      delete w' c' k' m = (m', Inl e)" for w' c' k' clock' v os m' e
    using that by (auto dest: get_laws(3) put_laws(2) delete_laws(2))
qed

text \<open>A cache with a live background Context, an entry that lives for five milliseconds, and a later get.\<close>

abbreviation cw :: "nat world" where
  "cw \<equiv> initial_world"

definition lease :: "put_options reducer list" where
  "lease = [\<lambda>_. Inr \<lparr>p_expiresInMs = Some (Fin 5)\<rparr>]"

definition at_time :: "int \<Rightarrow> clock" where
  "at_time t = Inr (Fin (of_int t))"

lemma cache_context: "checkContext cw background = Inr ()"
  by (simp add: checkContext_def contextFailure_def background_def initial_world_def newEmptyContext_def)

lemma lease_eval: "putOptions lease = Inr \<lparr>p_expiresInMs = Some (Fin 5)\<rparr>" "int_of (Fin 5) = 5"
  by (simp_all add: lease_def putOptions_def snapshotPutOptions_def nullable_def positiveDuration_def int_of_def
      max_safe_def)

lemma at_time_eval: "0 \<le> t \<Longrightarrow> t \<le> max_safe \<Longrightarrow> timestamp (at_time t) = Inr t"
  by (simp add: cache_timestamp_Inr at_time_def)

lemma key_eval: "cacheKey [97] = Inr [97]"
  by (simp add: cacheKey_def is_high_def is_low_def utf8_encode_def utf8_point_def scalar_value_def
      MaximumKeyBytes_def)

theorem cache_refines_map_witness:
  "\<exists>m' m''. put cw background [97] [1] lease (at_time 10) [] = (m', Inr ()) \<and> live m' 14 [97] = Some [1] \<and>
     live m' 15 [97] = None \<and> get cw background [97] (at_time 10) m' = (m'', Inr (Some [1]))"
proof -
  have t: "timestamp (at_time 10) = Inr 10" by (simp add: at_time_eval max_safe_def)
  note run = cache_refines_map [OF cache_context key_eval t]
  obtain m' where m': "put cw background [97] [1] lease (at_time 10) [] = (m', Inr ())"
      "\<forall>t. live m' t = (live [] t)([97] := if \<exists>d. Some (Fin 5) = Some d \<and> 10 + int_of d \<le> t then None else Some [1])"
    using run [of "[]", THEN conjunct2, THEN conjunct1, rule_format, of "[1]" lease "Some (Fin 5)"] lease_eval
    by (auto simp: MaximumValueBytes_def max_safe_def)
  then have "live m' 10 [97] = Some [1]" "live m' 14 [97] = Some [1]" "live m' 15 [97] = None"
    using lease_eval(2) by auto
  then show ?thesis using m'(1) run [of m', THEN conjunct1] by metis
qed

text \<open>
  C30: a stored value is served until its lifetime ends and never after. Whatever calls on other keys
  and gets on this key come in between, with any Contexts, options and outcomes, a get at a time \<open>t\<close>
  that no clock has passed answers the value exactly when \<open>t\<close> is before the end of the lifetime that
  the options have set.
\<close>

theorem cache_lifetime:
  fixes w w' :: "'v world" and ops :: "'v cache_call list"
  assumes "put w c k v os clock m = (m', Inr ())" "putOptions os = Inr \<lparr>p_expiresInMs = ms\<rparr>"
    and "timestamp clock = Inr now" "\<forall>op \<in> set ops. \<not> changes_key k op \<and> call_until t op"
    and "get w' c' k clock' (fold cache_step ops m') = (m'', Inr r)" "timestamp clock' = Inr t"
  shows "r = (if \<exists>d. ms = Some d \<and> now + int_of d \<le> t then None else Some v)"
proof -
  obtain entry where e: "put_entry w c k v os clock = Inr (k, entry)" using put_laws(1) [OF assms(1)] by blast
  then have ms: "expiry clock ms = Inr (e_expiresAt entry)" using assms(2) by (auto simp: put_entry_def js_res)
  have "rat_of d = of_int (int_of d)" if "ms = Some d" for d
    using putOptions_ok [OF assms(2)] that isSafeInteger_int_of [of d] by (metis duration_ok_def put_options.select_convs(1) rat_of.simps(1))
  then have ends: "e_expiresAt entry = map_option (\<lambda>d. now + int_of d) ms"
    using ms assms(3) int_of_Fin_int [of "now + int_of (the ms)"]
    by (auto simp: expiry_def Let_def split: option.splits if_splits)
  have stored: "stores (PutCall w c k v os clock) m = Some (k, v, e_expiresAt entry)" using e by simp
  have answer: "answers (GetCall w' c' k clock') (fold cache_step ops m') = Some (t, k, r)"
    using assms(5,6) by simp
  have "m' = cache_step (PutCall w c k v os clock) m" using assms(1) by simp
  then have "r = (if alive (e_expiresAt entry) t then Some v else None)"
    using answer by (intro memory_cache.lifetime [OF stored assms(4)]) (simp only:)
  then show ?thesis by (cases ms) (auto simp: alive_def ends)
qed

theorem cache_lifetime_witness:
  "\<exists>m'. put cw background [97] [1] lease (at_time 10) [] = (m', Inr ()) \<and>
     snd (get cw background [97] (at_time 14) (cache_step (GetCall cw background [97] (at_time 12)) m')) = Inr (Some [1])"
proof -
  have t: "timestamp (at_time 10) = Inr 10" "timestamp (at_time 12) = Inr 12" "timestamp (at_time 14) = Inr 14"
    by (simp_all add: at_time_eval max_safe_def)
  let ?ops = "[GetCall cw background [97] (at_time 12)]"
  obtain m' where m': "put cw background [97] [1] lease (at_time 10) [] = (m', Inr ())"
    using put_succeeds [OF cache_context key_eval t(1), of "[1]" lease "Some (Fin 5)"] lease_eval
    by (auto simp: MaximumValueBytes_def max_safe_def)
  obtain m'' r where g: "get cw background [97] (at_time 14) (fold cache_step ?ops m') = (m'', Inr r)"
    using get_succeeds [OF cache_context key_eval t(3)] by blast
  have "r = Some [1]"
    using cache_lifetime [OF m' lease_eval(1) t(1) _ g t(3)] lease_eval(2) t(2) by (simp add: reads_until_def)
  then show ?thesis using m' g by simp
qed

end
