(* ===== verification/Context_Listeners.thy ===== *)
theory Context_Listeners
  imports Context_Runs
begin

text \<open>
  An after-function is admitted only by the abort of its own signal: in every reachable state the
  signal of an admitted registration is aborted. The invariant is independent of the one of the
  waves, so each operation keeps it on its own.
\<close>

definition admitted_ok :: "'v world \<Rightarrow> bool" where
  "admitted_ok w \<longleftrightarrow>
     (\<forall>s. \<forall>r \<in> set (listeners (signals w s)). r < length (regs w) \<and> r_signal (regs w ! r) = Some s) \<and>
     (\<forall>r < length (regs w). \<forall>s. r_state (regs w ! r) = Admitted \<and> r_signal (regs w ! r) = Some s \<longrightarrow>
        aborted (signals w s))"

lemma admitted_same [simp]:
  "admitted_ok (w\<lparr>cells := cs\<rparr>) = admitted_ok w" "admitted_ok (w\<lparr>timers := ts\<rparr>) = admitted_ok w"
  "admitted_ok (w\<lparr>microtasks := m\<rparr>) = admitted_ok w"
  by (simp_all add: admitted_ok_def)

lemma removeListener_aborted [simp]: "aborted (signals (removeListener r w) s) = aborted (signals w s)"
  by (auto simp: removeListener_def Let_def split: option.splits)

lemma admitted_mono:
  assumes "admitted_ok w" "length (regs w') = length (regs w)"
    and "\<And>q. q < length (regs w) \<Longrightarrow> r_signal (regs w' ! q) = r_signal (regs w ! q) \<and>
      (r_state (regs w' ! q) = Admitted \<longrightarrow> r_state (regs w ! q) = Admitted \<or>
        (\<forall>s. r_signal (regs w ! q) = Some s \<longrightarrow> aborted (signals w s)))"
    and "\<And>s. set (listeners (signals w' s)) \<subseteq> set (listeners (signals w s)) \<and>
      (aborted (signals w s) \<longrightarrow> aborted (signals w' s))"
  shows "admitted_ok w'"
  unfolding admitted_ok_def
proof (intro conjI allI ballI impI)
  fix s r
  assume "r \<in> set (listeners (signals w' s))"
  then have "r \<in> set (listeners (signals w s))" using assms(4) by blast
  then have "r < length (regs w)" "r_signal (regs w ! r) = Some s" using assms(1) by (auto simp: admitted_ok_def)
  then show "r < length (regs w')" "r_signal (regs w' ! r) = Some s" using assms(2,3) by auto
next
  fix r s
  assume "r < length (regs w')" "r_state (regs w' ! r) = Admitted \<and> r_signal (regs w' ! r) = Some s"
  then have "aborted (signals w s)" using assms(1-3) unfolding admitted_ok_def by metis
  then show "aborted (signals w' s)" using assms(4) by blast
qed

lemma removeListener_admitted: "admitted_ok w \<Longrightarrow> admitted_ok (removeListener r w)"
  by (erule admitted_mono) (auto simp: removeListener_def Let_def nth_update_if split: option.splits)

lemma set_state_admitted:
  assumes "admitted_ok w" "x = Admitted \<longrightarrow> (\<forall>s. r_signal (regs w ! r) = Some s \<longrightarrow> aborted (signals w s))"
  shows "admitted_ok (set_reg r ((regs w ! r)\<lparr>r_state := x\<rparr>) w)"
  by (rule admitted_mono [OF assms(1)]) (use assms(2) in \<open>auto simp: nth_update_if split: if_splits\<close>)

lemma admit_admitted:
  assumes "admitted_ok w" "\<forall>s. r_signal (regs w ! r) = Some s \<longrightarrow> aborted (signals w s)"
  shows "admitted_ok (fst (admit r w))" "aborted (signals (fst (admit r w)) s) = aborted (signals w s)"
  using set_state_admitted [OF assms(1), of Admitted r] assms
  by (auto simp: admit_def Let_def intro!: removeListener_admitted split: reg_fn.splits)

lemma stopReg_admitted: "admitted_ok w \<Longrightarrow> admitted_ok (fst (stopReg r w))"
  by (simp add: stopReg_def removeListener_admitted set_state_admitted)

lemma unlisten_admitted:
  "admitted_ok w \<Longrightarrow> admitted_ok (set_signal s ((signals w s)\<lparr>listeners := filter P (listeners (signals w s))\<rparr>) w)"
  by (auto simp: admitted_ok_def)

lemma dispatch_admitted:
  "admitted_ok w \<Longrightarrow> aborted (signals w s) \<Longrightarrow> admitted_ok (fst (dispatch s rs w wv))"
proof (induction rs arbitrary: w wv)
  case (Cons r rs)
  show ?case
  proof (cases "r \<in> set (listeners (signals w s))")
    case True
    let ?w1 = "set_signal s ((signals w s)\<lparr>listeners := filter (\<lambda>l. l \<noteq> r) (listeners (signals w s))\<rparr>) w"
    have "r_signal (regs w ! r) = Some s" using Cons.prems(1) True by (auto simp: admitted_ok_def)
    then have "admitted_ok (fst (admit r ?w1))" "aborted (signals (fst (admit r ?w1)) s)"
      using admit_admitted [OF unlisten_admitted [OF Cons.prems(1), of s "\<lambda>l. l \<noteq> r"], of r] Cons.prems(2) by auto
    then show ?thesis using Cons.IH True by (auto simp: Let_def split: prod.splits option.splits)
  qed (use Cons in simp)
qed simp

lemma abort_admitted: "admitted_ok w \<Longrightarrow> admitted_ok (fst (abort s w wv))"
proof -
  assume "admitted_ok w"
  then have "admitted_ok (set_signal s ((signals w s)\<lparr>aborted := True\<rparr>) w)" by (auto simp: admitted_ok_def)
  then show ?thesis using \<open>admitted_ok w\<close> by (simp add: abort_def dispatch_admitted)
qed

lemma settle_admitted: "admitted_ok w \<Longrightarrow> admitted_ok (fst (settle c e k w wv))"
  using abort_admitted [of "set_cell c x w" "S_Cell c" wv for x]
  by (auto simp: settle_def Let_def split: prod.splits) (metis admitted_same(1) fst_conv)

lemma run_task_admitted: "admitted_ok w \<Longrightarrow> admitted_ok (fst (run_task t w wv))"
  by (auto simp: run_task_def settle_admitted split: task.splits prod.splits)

lemma run_cleanup_admitted: "admitted_ok w \<Longrightarrow> admitted_ok (run_cleanup cl w)"
  by (auto simp: run_cleanup_def clearTimer_def stopReg_admitted split: cleanup.splits)

lemma drain_admitted: "admitted_ok w \<Longrightarrow> admitted_ok (drainCancellationWave w wv)"
proof (induction w wv rule: drainCancellationWave.induct)
  case (1 w wv)
  show ?case
  proof (cases "tasks wv")
    case Nil
    then show ?thesis
      using 1 by (subst drainCancellationWave.simps) (auto simp: run_cleanup_admitted split: list.splits)
  next
    case (Cons t ts)
    obtain w' wv' where r: "run_task t w (wv\<lparr>tasks := ts\<rparr>) = (w', wv')" by fastforce
    then have "admitted_ok w'" using run_task_admitted [OF "1.prems", of t "wv\<lparr>tasks := ts\<rparr>"] by simp
    then show ?thesis using 1(3) [OF Cons r [symmetric]] r Cons by (subst drainCancellationWave.simps) simp
  qed
qed

lemma cancel_admitted: "admitted_ok w \<Longrightarrow> admitted_ok (cancel c e k w)"
  by (simp add: cancel_def runCancellationWave_def drain_admitted)

lemma add_reg_admitted:
  assumes "admitted_ok w" "r_state x = Admitted \<longrightarrow> (\<forall>s. r_signal x = Some s \<longrightarrow> aborted (signals w s))"
  shows "admitted_ok (add_reg x w)"
  unfolding admitted_ok_def
proof (intro conjI allI ballI impI)
  show "r < length (regs (add_reg x w))" "r_signal (regs (add_reg x w) ! r) = Some s"
    if "r \<in> set (listeners (signals (add_reg x w) s))" for r s
  proof -
    have "r < length (regs w) \<and> r_signal (regs w ! r) = Some s" using that assms(1) by (simp add: admitted_ok_def)
    then show "r < length (regs (add_reg x w))" "r_signal (regs (add_reg x w) ! r) = Some s" by auto
  qed
  show "aborted (signals (add_reg x w) s)"
    if "r < length (regs (add_reg x w))" "r_state (regs (add_reg x w) ! r) = Admitted \<and> r_signal (regs (add_reg x w) ! r) = Some s"
    for r s
    using that assms by (cases "r = length (regs w)") (auto simp: admitted_ok_def less_Suc_eq)
qed

lemma listen_admitted:
  assumes "admitted_ok w"
  shows "admitted_ok (listen s fn w)"
  unfolding admitted_ok_def
proof (intro conjI allI ballI impI)
  show "r < length (regs (listen s fn w))" "r_signal (regs (listen s fn w) ! r) = Some s'"
    if "r \<in> set (listeners (signals (listen s fn w) s'))" for r s'
  proof -
    have "(r < length (regs w) \<and> r_signal (regs w ! r) = Some s') \<or> (r = length (regs w) \<and> s' = s)"
      using that assms by (auto simp: admitted_ok_def split: if_splits)
    then show "r < length (regs (listen s fn w))" "r_signal (regs (listen s fn w) ! r) = Some s'" by auto
  qed
  show "aborted (signals (listen s fn w) s')"
    if "r < length (regs (listen s fn w))"
      "r_state (regs (listen s fn w) ! r) = Admitted \<and> r_signal (regs (listen s fn w) ! r) = Some s'" for r s'
    using that assms by (cases "r = length (regs w)") (auto simp: admitted_ok_def less_Suc_eq)
qed

lemma signalAfterFunc_admitted: "admitted_ok w \<Longrightarrow> admitted_ok (fst (signalAfterFunc so fn w))"
  by (simp add: signalAfterFunc_cases add_reg_admitted listen_admitted split: option.split)

lemma newCancelContext_admitted:
  assumes "admitted_ok w"
  shows "admitted_ok (fst (newCancelContext p dl so w))"
proof (cases so)
  case (Some s)
  let ?w1 = "w\<lparr>cells := cells w @ [\<lparr>c_parent = p, observedErr = None, observedCause = None, cleanups = []\<rparr>]\<rparr>"
  obtain w2 r x where r: "signalAfterFunc (Some s) (Propagate (length (cells w))) ?w1 = (w2, r, x)" by (metis prod_cases3)
  have w2: "admitted_ok w2"
    using signalAfterFunc_admitted [of ?w1 "Some s" "Propagate (length (cells w))"] assms r by simp
  have "admitted_ok (runCancellationWave t w2)" for t
    using w2 by (simp add: runCancellationWave_def drain_admitted)
  then show ?thesis
    using w2 Some r
    by (auto simp: newCancelContext_def Let_def addCleanup_def intro!: stopReg_admitted split: option.split prod.split)
qed (use assms in \<open>simp add: newCancelContext_def Let_def\<close>)

lemma timed_admitted:
  assumes "admitted_ok w"
  shows "admitted_ok (fst (newTimedContext p req pe k wall mnow w))"
proof -
  obtain w1 c x where n: "newCancelContext p None (resolveDone w p) w = (w1, c, x)" by (metis prod_cases3)
  obtain w2 d y where n2: "newCancelContext p (Some (Fin req)) (resolveDone w p) w = (w2, d, y)" by (metis prod_cases3)
  have "admitted_ok w1" "admitted_ok w2"
    using newCancelContext_admitted [OF assms] n n2 by (metis fst_conv)+
  moreover have "admitted_ok (fst (startDeadlineTimer c r wl mn kk w))" if "admitted_ok w" for c r wl mn kk and w :: "'a world"
    using that by (auto simp: startDeadlineTimer_def Let_def addCleanup_def arm_def cancel_admitted)
  ultimately show ?thesis
    using n n2 by (auto simp: newTimedContext_def Let_def cancel_admitted split: sum.split prod.split) (metis fst_conv)+
qed

lemma timed_admitted_result: "newTimedContext p req pe k wall mnow w = (w', res) \<Longrightarrow> admitted_ok w \<Longrightarrow> admitted_ok w'"
  using timed_admitted [of w p req pe k wall mnow] by simp

lemma step_admitted: "step w w' \<Longrightarrow> admitted_ok w \<Longrightarrow> admitted_ok w'"
proof (induction rule: step.induct)
  case (step_withCancel w p w' c x)
  then show ?case using newCancelContext_admitted by (metis fst_conv withCancel_def)
next
  case (step_deadline w p dl k wall mnow w' res)
  then show ?case
    by (auto simp: newDeadlineContext_def dest: timed_admitted_result split: if_splits sum.splits)
next
  case (step_timeout w p ms k wall wall2 mnow w' res)
  then show ?case
    by (auto simp: newTimeoutContext_def Let_def dest: timed_admitted_result split: if_splits sum.splits)
next
  case (step_afterFunc w x fn w' r)
  then show ?case
    using signalAfterFunc_admitted [of w "resolveDone w x" "Queued fn"] by (auto simp: afterFunc_def split: prod.splits)
next
  case (step_stop r w fn w' ok)
  then show ?case using stopReg_admitted by (metis fst_conv)
next
  case (step_wake t w now)
  then show ?case by (simp add: wake_def arm_def Let_def cancel_admitted)
qed (simp_all add: cancelFunc_def cancelCauseFunc_def cancel_admitted)

lemma reach_admitted: "reach w \<Longrightarrow> admitted_ok w"
proof (induction rule: reach.induct)
  case (reach_fresh w)
  then show ?case by (simp add: fresh_def admitted_ok_def)
qed (rule step_admitted)

text \<open>A registration on the signal of a cancel context is pending only while that context is live.\<close>

lemma registration_state:
  assumes "reach w" "r < length (regs w)" "r_signal (regs w ! r) = Some (S_Cell c)" "c < length (cells w)"
  shows "r_state (regs w ! r) = Pending \<Longrightarrow> live w c" "r_state (regs w ! r) = Admitted \<Longrightarrow> \<not> live w c"
proof -
  have i: "inv w" using reach_inv [OF assms(1)] .
  then have ok: "reg_ok w r" "signal_ok w (S_Cell c)" using assms(2) by (auto simp: inv_def base_def)
  note s = aborted_settled [OF i assms(4)]
  show "live w c" if "r_state (regs w ! r) = Pending"
    using that ok s assms(3,4) by (auto simp: reg_ok_def signal_ok_def live_def)
  show "\<not> live w c" if "r_state (regs w ! r) = Admitted"
    using that reach_admitted [OF assms(1)] assms(2,3) s by (auto simp: admitted_ok_def live_def)
qed

end
