(* ===== verification/Health.thy ===== *)
theory Health
  imports Js_String Context_Listeners
begin

text \<open>
  \<open>packages/health/src/registry.ts\<close>: the probe registry and the run of one probe. The registry keeps
  its registrations in order, the active names of each kind and, as \<open>handles\<close>, the variables of the
  unregister functions it has returned. A probe run is a state machine over the contexts of the package
  \<open>context\<close>: it owns a child with a timeout and an after-function registration on it.

  A probe is any value of the type \<open>'p\<close>; what its invocation does is the value \<open>invoked\<close>, after
  \<open>observeProbeValue\<close> has looked at what it returned. The checks of \<open>typeof\<close> and of the kind hold by
  the types. \<open>afterFunc\<close> does not throw for the child, which is a context of this package, so the
  branch for a failed registration does not occur.
\<close>

section \<open>Registry\<close>

datatype probe_kind = Live | Ready

record 'p registration =
  rg_kind :: probe_kind
  rg_name :: jsstr
  rg_probe :: 'p
  rg_timeoutMs :: js_number
  rg_active :: bool

record unregister_handle =
  h_kind :: probe_kind
  h_name :: jsstr
  h_active :: bool

record 'p registry =
  registrations :: "'p registration list"
  activeNames :: "probe_kind \<Rightarrow> jsstr list"
  handles :: "unregister_handle list"

definition defaultTimeoutMs :: js_number where
  "defaultTimeoutMs = Fin 1000"

definition public_unit :: "16 word \<Rightarrow> bool" where
  "public_unit u \<longleftrightarrow>
     (65 \<le> unat u \<and> unat u \<le> 90) \<or> (97 \<le> unat u \<and> unat u \<le> 122) \<or> is_digit u \<or>
     u = 0x2E \<or> u = 0x5F \<or> u = 0x2D"

definition publicNamePattern :: "jsstr \<Rightarrow> bool" where
  "publicNamePattern s \<longleftrightarrow> s \<noteq> [] \<and> list_all public_unit s"

definition assertName :: "jsstr \<Rightarrow> unit res" where
  "assertName name =
     (if length name = 0 \<or> \<not> publicNamePattern name
      then Inl (TypeError ''name must be a non-empty public identifier'') else Inr ())"

definition name_text :: "jsstr \<Rightarrow> string" where
  "name_text s = map (\<lambda>u. char_of (unat u)) s"

definition newProbeRegistry :: "'p registry" where
  "newProbeRegistry = \<lparr>registrations = [], activeNames = (\<lambda>_. []), handles = []\<rparr>"

definition register ::
    "probe_kind \<Rightarrow> jsstr \<Rightarrow> 'p \<Rightarrow> js_number option \<Rightarrow> 'p registry \<Rightarrow> 'p registry \<times> nat res" where
  "register kind name probe configuredTimeoutMs rg =
     (let timeoutMs = (case configuredTimeoutMs of None \<Rightarrow> defaultTimeoutMs | Some t \<Rightarrow> t) in
      case assertName name of
        Inl e \<Rightarrow> (rg, Inl e)
      | Inr _ \<Rightarrow>
          if \<not> isFinite timeoutMs \<or> num_less timeoutMs (Fin 0)
          then (rg, Inl (RangeError ''timeoutMs must be finite and non-negative''))
          else if name \<in> set (activeNames rg kind)
          then (rg, Inl (TypeError (''probe \"'' @ name_text name @ ''\" is already registered'')))
          else
            (\<lparr>registrations = registrations rg @
                [\<lparr>rg_kind = kind, rg_name = name, rg_probe = probe, rg_timeoutMs = timeoutMs, rg_active = True\<rparr>],
              activeNames = (activeNames rg)(kind := activeNames rg kind @ [name]),
              handles = handles rg @ [\<lparr>h_kind = kind, h_name = name, h_active = True\<rparr>]\<rparr>,
             Inr (length (handles rg))))"

text \<open>\<open>registrations.findIndex\<close> and \<open>splice(index, 1)\<close>.\<close>

fun splice_first :: "('a \<Rightarrow> bool) \<Rightarrow> 'a list \<Rightarrow> 'a list" where
  "splice_first P [] = []"
| "splice_first P (x # xs) = (if P x then xs else x # splice_first P xs)"

definition unregister :: "nat \<Rightarrow> 'p registry \<Rightarrow> 'p registry \<times> bool" where
  "unregister h rg =
     (let hd = handles rg ! h in
      if \<not> h_active hd then (rg, False)
      else
        (rg\<lparr>handles := (handles rg)[h := hd\<lparr>h_active := False\<rparr>],
            registrations :=
              splice_first (\<lambda>r. rg_kind r = h_kind hd \<and> rg_name r = h_name hd) (registrations rg),
            activeNames :=
              (activeNames rg)(h_kind hd := removeAll (h_name hd) (activeNames rg (h_kind hd)))\<rparr>,
         True))"

section \<open>Reports\<close>

record probe_result =
  pb_name :: jsstr
  pb_ok :: bool
  pb_error :: "thrown option"

record probe_report =
  rp_kind :: probe_kind
  rp_ok :: bool
  rp_checks :: "probe_result list"

definition freezeResult :: "jsstr \<Rightarrow> bool \<Rightarrow> thrown option \<Rightarrow> probe_result" where
  "freezeResult name ok error = \<lparr>pb_name = name, pb_ok = ok, pb_error = error\<rparr>"

definition failedResult :: "jsstr \<Rightarrow> thrown \<Rightarrow> probe_result" where
  "failedResult name error = freezeResult name False (Some error)"

definition snapshot_of :: "probe_kind \<Rightarrow> 'p registry \<Rightarrow> 'p registration list" where
  "snapshot_of kind rg = filter (\<lambda>r. rg_active r \<and> rg_kind r = kind) (registrations rg)"

definition freezeReport :: "probe_kind \<Rightarrow> probe_result list \<Rightarrow> probe_report" where
  "freezeReport kind checks =
     (let checksOk = list_all pb_ok checks in
      \<lparr>rp_kind = kind, rp_ok = (checksOk \<and> (kind = Live \<or> 0 < length checks)), rp_checks = checks\<rparr>)"

text \<open>\<open>check\<close>, given the result that each run of the snapshot resolves with.\<close>

definition check_report :: "probe_kind \<Rightarrow> ('p registration \<Rightarrow> probe_result) \<Rightarrow> 'p registry \<Rightarrow> probe_report" where
  "check_report kind resolved rg = freezeReport kind (map resolved (snapshot_of kind rg))"

section \<open>One probe run\<close>

definition normalizeProbeError :: "jsstr \<Rightarrow> raised \<Rightarrow> thrown" where
  "normalizeProbeError name v =
     (case v of
        R_Error e \<Rightarrow> e
      | R_Other \<Rightarrow> PlainError (js ''probe \"'' @ name @ js ''\" rejected with a non-Error value''))"

definition cancellationError :: "jsstr \<Rightarrow> 'v world \<Rightarrow> 'v ctx \<Rightarrow> thrown" where
  "cancellationError name w c =
     normalizeProbeError name (case readCause w c of Some k \<Rightarrow> R_Error k | None \<Rightarrow> R_Other)"

datatype probe_phase = Invoking | Running | Ended

datatype invoked = Returned | Threw raised | Promised

record 'v probe_run =
  pr_name :: jsstr
  pr_child :: "'v ctx"
  pr_cell :: nat
  pr_reg :: nat
  pr_phase :: probe_phase
  pr_ran :: bool
  pr_settled :: bool
  pr_resolved :: "probe_result list"

type_synonym 'v probing = "'v world \<times> 'v probe_run"

definition timeoutCause :: "jsstr \<Rightarrow> thrown" where
  "timeoutCause name = PlainError (js ''probe \"'' @ name @ js ''\" timed out'')"

text \<open>
  The synchronous start up to the invocation of the probe; \<open>callback\<close> is the identity of
  \<open>finishCancellation\<close>, the numbers are what the clocks return to \<open>withTimeoutCause\<close>.
\<close>

definition runProbe ::
    "'v ctx \<Rightarrow> 'p registration \<Rightarrow> nat \<Rightarrow> js_number \<Rightarrow> js_number \<Rightarrow> js_number \<Rightarrow> 'v world \<Rightarrow>
     'v world \<times> (probe_result + 'v probe_run)" where
  "runProbe parent rg callback dateNow1 dateNow2 monotonicNow w =
     (case newTimeoutContext parent (rg_timeoutMs rg) (Some (timeoutCause (rg_name rg)))
             dateNow1 dateNow2 monotonicNow w of
        (w1, Inl e) \<Rightarrow> (w1, Inl (failedResult (rg_name rg) (normalizeProbeError (rg_name rg) (R_Error e))))
      | (w1, Inr (cell, child)) \<Rightarrow>
          (case afterFunc child callback w1 of
             (w2, r) \<Rightarrow>
               (w2, Inr \<lparr>pr_name = rg_name rg, pr_child = child, pr_cell = cell, pr_reg = r,
                         pr_phase = Invoking, pr_ran = False, pr_settled = False, pr_resolved = []\<rparr>)))"

definition finish :: "probe_result \<Rightarrow> 'v probing \<Rightarrow> 'v probing" where
  "finish result = (\<lambda>(w, pr).
     (cancelFunc (pr_cell pr) w, pr\<lparr>pr_settled := True, pr_resolved := pr_resolved pr @ [result]\<rparr>))"

definition finishCancellation :: "'v probing \<Rightarrow> 'v probing" where
  "finishCancellation = (\<lambda>(w, pr).
     finish (failedResult (pr_name pr) (cancellationError (pr_name pr) w (pr_child pr)))
       (w, pr\<lparr>pr_ran := True\<rparr>))"

definition finishOperation :: "probe_result \<Rightarrow> 'v probing \<Rightarrow> 'v probing" where
  "finishOperation result = (\<lambda>(w, pr).
     if pr_settled pr then (w, pr)
     else (case stopReg (pr_reg pr) w of
             (w1, operationAdmitted) \<Rightarrow>
               if \<not> operationAdmitted then (w1, pr) else finish result (w1, pr)))"

definition operationResult :: "jsstr \<Rightarrow> raised option \<Rightarrow> probe_result" where
  "operationResult name outcome =
     (case outcome of
        None \<Rightarrow> freezeResult name True None
      | Some v \<Rightarrow> failedResult name (normalizeProbeError name v))"

definition invokeProbe :: "invoked \<Rightarrow> 'v probing \<Rightarrow> 'v probing" where
  "invokeProbe outcome = (\<lambda>(w, pr).
     case outcome of
       Returned \<Rightarrow> finishOperation (operationResult (pr_name pr) None) (w, pr\<lparr>pr_phase := Ended\<rparr>)
     | Threw v \<Rightarrow> finishOperation (operationResult (pr_name pr) (Some v)) (w, pr\<lparr>pr_phase := Ended\<rparr>)
     | Promised \<Rightarrow> (w, pr\<lparr>pr_phase := Running\<rparr>))"

definition operationSettles :: "raised option \<Rightarrow> 'v probing \<Rightarrow> 'v probing" where
  "operationSettles outcome = (\<lambda>(w, pr).
     finishOperation (operationResult (pr_name pr) outcome) (w, pr\<lparr>pr_phase := Ended\<rparr>))"

text \<open>
  A run: the environment uses contexts in any way, but only this run has the stop function of its
  registration; the probe returns, throws or gives a promise; the promise settles; the admitted
  callback runs, not before the synchronous part has ended.
\<close>

inductive probe_step :: "'v probing \<Rightarrow> 'v probing \<Rightarrow> bool" where
  probe_env: "step w w' \<Longrightarrow> r_state (regs w ! pr_reg pr) = Pending \<longrightarrow>
      r_state (regs w' ! pr_reg pr) \<in> {Pending, Admitted} \<Longrightarrow> probe_step (w, pr) (w', pr)"
| probe_invoked: "pr_phase pr = Invoking \<Longrightarrow> probe_step (w, pr) (invokeProbe outcome (w, pr))"
| probe_settles: "pr_phase pr = Running \<Longrightarrow> probe_step (w, pr) (operationSettles outcome (w, pr))"
| probe_canceled: "pr_phase pr \<noteq> Invoking \<Longrightarrow> \<not> pr_ran pr \<Longrightarrow> r_state (regs w ! pr_reg pr) = Admitted \<Longrightarrow>
    probe_step (w, pr) (finishCancellation (w, pr))"

section \<open>Invariant of a run\<close>

text \<open>The child and the registration of the run exist, and the registration is on the child's signal.\<close>

definition bound_ok :: "'v world \<Rightarrow> 'v probe_run \<Rightarrow> bool" where
  "bound_ok w pr \<longleftrightarrow> reach w \<and> pr_cell pr < length (cells w) \<and> pr_reg pr < length (regs w) \<and>
     (\<exists>p dl. pr_child pr = CancelCtx (pr_cell pr) p dl) \<and>
     r_signal (regs w ! pr_reg pr) = Some (S_Cell (pr_cell pr)) \<and>
     (\<exists>fn. r_fn (regs w ! pr_reg pr) = Queued fn)"

definition status_ok :: "once_state \<Rightarrow> bool \<Rightarrow> 'v probe_run \<Rightarrow> bool" where
  "status_ok st lives pr \<longleftrightarrow>
     (if pr_settled pr
      then (\<exists>res. pr_resolved pr = [res]) \<and> \<not> lives \<and> (st = Stopped \<or> st = Admitted \<and> pr_ran pr)
      else pr_resolved pr = [] \<and> \<not> pr_ran pr \<and> (st = Admitted \<or> st = Pending \<and> pr_phase pr \<noteq> Ended))"

abbreviation reg_state :: "'v world \<Rightarrow> 'v probe_run \<Rightarrow> once_state" where
  "reg_state w pr \<equiv> r_state (regs w ! pr_reg pr)"

definition run_ok :: "'v probing \<Rightarrow> bool" where
  "run_ok = (\<lambda>(w, pr). bound_ok w pr \<and> status_ok (reg_state w pr) (live w (pr_cell pr)) pr)"

definition same_run :: "'v probe_run \<Rightarrow> 'v probe_run \<Rightarrow> bool" where
  "same_run pr pr' \<longleftrightarrow> pr_cell pr' = pr_cell pr \<and> pr_reg pr' = pr_reg pr \<and> pr_child pr' = pr_child pr"

lemma step_evolves: "reach w \<Longrightarrow> step w w' \<Longrightarrow> reach w' \<and> evolves w w'"
  using step_inv reach_inv reach_step by blast

lemma bound_evolves:
  assumes "bound_ok w pr" "reach w'" "evolves w w'" "same_run pr pr'"
  shows "bound_ok w' pr'"
  using assms by (auto simp: bound_ok_def evolves_def same_run_def)

lemma evolves_status:
  assumes "bound_ok w pr" "evolves w w'"
  shows "reg_state w pr \<noteq> Pending \<Longrightarrow> reg_state w' pr = reg_state w pr"
    and "live w' (pr_cell pr) \<Longrightarrow> live w (pr_cell pr)"
  using assms by (auto simp: bound_ok_def evolves_def live_def)

lemma cancel_kills:
  assumes "bound_ok w pr"
  shows "\<not> live (cancelFunc (pr_cell pr) w) (pr_cell pr)"
proof (cases "live w (pr_cell pr)")
  case True
  have "inv w" "pr_cell pr < length (cells w)" using assms reach_inv by (auto simp: bound_ok_def)
  then have "err_of (cancel (pr_cell pr) Canceled Canceled w) (pr_cell pr) = Some Canceled"
    using cancel_effect [of w "pr_cell pr" Canceled "pr_cell pr" Canceled] True under_self [of w "pr_cell pr"]
    by (auto simp: live_def)
  then show ?thesis by (simp add: cancelFunc_def live_def)
qed (simp add: cancelFunc_def)

lemma finish_ok:
  assumes "bound_ok w pr" "pr_resolved pr = []" "reg_state w pr = Stopped \<or> reg_state w pr = Admitted \<and> pr_ran pr"
  shows "run_ok (finish result (w, pr))"
proof -
  let ?w = "cancelFunc (pr_cell pr) w" and ?pr = "pr\<lparr>pr_settled := True, pr_resolved := [result]\<rparr>"
  have e: "reach ?w" "evolves w ?w" using step_evolves [OF _ step_cancel] assms(1) by (auto simp: bound_ok_def)
  have "bound_ok ?w ?pr" using bound_evolves [OF assms(1) e] by (simp add: same_run_def)
  moreover have "reg_state ?w pr = reg_state w pr" using evolves_status(1) [OF assms(1) e(2)] assms(3) by auto
  ultimately show ?thesis
    using cancel_kills [OF assms(1)] assms(2,3) by (auto simp: finish_def run_ok_def status_ok_def)
qed

lemma finishOperation_cases:
  assumes "run_ok (w, pr)"
  shows "pr_settled pr \<Longrightarrow> finishOperation result (w, pr) = (w, pr)"
    and "\<not> pr_settled pr \<Longrightarrow> reg_state w pr = Admitted \<Longrightarrow> finishOperation result (w, pr) = (w, pr)"
    and "\<not> pr_settled pr \<Longrightarrow> reg_state w pr = Pending \<Longrightarrow>
      \<exists>w1. bound_ok w1 pr \<and> reg_state w1 pr = Stopped \<and>
        (\<forall>ph. finishOperation result (w, pr\<lparr>pr_phase := ph\<rparr>) = finish result (w1, pr\<lparr>pr_phase := ph\<rparr>))"
proof -
  show "pr_settled pr \<Longrightarrow> finishOperation result (w, pr) = (w, pr)" by (simp add: finishOperation_def)
  show "\<not> pr_settled pr \<Longrightarrow> reg_state w pr = Admitted \<Longrightarrow> finishOperation result (w, pr) = (w, pr)"
    by (simp add: finishOperation_def stopReg_def pending_def)
  have b: "bound_ok w pr" using assms by (simp add: run_ok_def)
  obtain fn where r: "reach w" "pr_reg pr < length (regs w)" "r_fn (regs w ! pr_reg pr) = Queued fn"
    using b by (auto simp: bound_ok_def)
  obtain w1 ok where s: "stopReg (pr_reg pr) w = (w1, ok)" by fastforce
  note st = stop_run [OF reach_inv [OF r(1)] r(2,3) s]
  have "bound_ok w1 pr"
    using bound_evolves [OF b _ _, of w1 pr] step_evolves [OF r(1) step_stop [OF r(2,3) s]] by (simp add: same_run_def)
  then show "\<exists>w1. bound_ok w1 pr \<and> reg_state w1 pr = Stopped \<and>
      (\<forall>ph. finishOperation result (w, pr\<lparr>pr_phase := ph\<rparr>) = finish result (w1, pr\<lparr>pr_phase := ph\<rparr>))"
    if "\<not> pr_settled pr" "reg_state w pr = Pending"
    using st s that by (intro exI [of _ w1]) (simp add: finishOperation_def)
qed

lemma run_ok_ended:
  assumes "run_ok (w, pr)" "pr_settled pr \<or> reg_state w pr = Admitted"
  shows "run_ok (w, pr\<lparr>pr_phase := Ended\<rparr>)"
  using assms by (auto simp: run_ok_def bound_ok_def status_ok_def)

lemma finishOperation_ok:
  assumes "run_ok (w, pr)"
  shows "run_ok (finishOperation result (w, pr\<lparr>pr_phase := Ended\<rparr>))"
proof -
  let ?pr = "pr\<lparr>pr_phase := Ended\<rparr>"
  consider (past) "pr_settled pr \<or> reg_state w pr = Admitted" | (wins) "\<not> pr_settled pr" "reg_state w pr = Pending"
    using assms by (auto simp: run_ok_def status_ok_def split: if_splits)
  then show ?thesis
  proof cases
    case past
    note e = run_ok_ended [OF assms past]
    then show ?thesis
      using past finishOperation_cases(1,2) [OF e, of result] by (cases "pr_settled pr") auto
  next
    case wins
    obtain w1 where w1: "bound_ok w1 pr" "reg_state w1 pr = Stopped"
        "finishOperation result (w, ?pr) = finish result (w1, ?pr)"
      using finishOperation_cases(3) [OF assms wins] by blast
    have "pr_resolved pr = []" using assms wins by (simp add: run_ok_def status_ok_def)
    then show ?thesis using finish_ok [of w1 ?pr] w1 by (simp add: bound_ok_def)
  qed
qed

lemma probe_step_ok:
  assumes "probe_step s s'" "run_ok s"
  shows "run_ok s'"
  using assms
proof (induction rule: probe_step.induct)
  case (probe_env w w' pr)
  have b: "bound_ok w pr" using probe_env.prems by (simp add: run_ok_def)
  have e: "reach w'" "evolves w w'"
    using step_evolves [OF _ probe_env.hyps(1)] b by (auto simp: bound_ok_def)
  show ?case
    using probe_env.prems probe_env.hyps(2) bound_evolves [OF b e, of pr] evolves_status [OF b e(2)]
    by (cases "reg_state w pr = Pending") (auto simp: run_ok_def status_ok_def same_run_def split: if_splits)
next
  case (probe_invoked pr w outcome)
  have "run_ok (w, pr\<lparr>pr_phase := Running\<rparr>)"
    using probe_invoked by (auto simp: run_ok_def bound_ok_def status_ok_def)
  then show ?case using finishOperation_ok [OF probe_invoked.prems] by (cases outcome) (auto simp: invokeProbe_def)
next
  case (probe_settles pr w outcome)
  then show ?case using finishOperation_ok by (simp add: operationSettles_def)
next
  case (probe_canceled pr w)
  let ?pr = "pr\<lparr>pr_ran := True\<rparr>"
  have "pr_resolved pr = []" using probe_canceled by (auto simp: run_ok_def status_ok_def split: if_splits)
  moreover have "bound_ok w ?pr" using probe_canceled.prems by (simp add: run_ok_def bound_ok_def)
  ultimately show ?case using finish_ok [of w ?pr] probe_canceled.hyps by (simp add: finishCancellation_def)
qed

lemma run_steps_ok: "probe_step\<^sup>*\<^sup>* s s' \<Longrightarrow> run_ok s \<Longrightarrow> run_ok s'"
  by (induction rule: rtranclp_induct) (auto intro: probe_step_ok)

lemma probe_started:
  assumes "reach w" "ctx_ok w (length (cells w)) parent"
    and "runProbe parent rg callback d1 d2 mn w = (w', Inr pr)"
  shows "run_ok (w', pr)"
proof -
  let ?k = "Some (timeoutCause (rg_name rg))"
  obtain w1 c x where t: "newTimeoutContext parent (rg_timeoutMs rg) ?k d1 d2 mn w = (w1, Inr (c, x))"
    using assms(3) by (auto simp: runProbe_def split: prod.splits sum.splits)
  obtain w2 r where a: "afterFunc x callback w1 = (w2, r)" by fastforce
  have w1: "reach w1" "evolves w w1" using step_evolves [OF assms(1) step_timeout [OF assms(2) t]] by auto
  obtain req pe wl where "newTimedContext parent req pe ?k wl mn w = (w1, Inr (c, x))"
    using t by (auto simp: newTimeoutContext_def Let_def split: if_splits sum.splits)
  then have "created w parent w1 (length (cells w)) \<and> c = length (cells w) \<and> (\<exists>dl. x = CancelCtx c parent dl)"
    using newTimedContext_inv [OF reach_inv [OF assms(1)] assms(2)] by blast
  then obtain dl where c: "c < length (cells w1)" "x = CancelCtx c parent dl" "c_parent (cells w1 ! c) = parent"
    by (auto simp: created_def)
  then have x: "ctx_ok w1 (length (cells w1)) x"
    using reach_inv [OF w1(1)] ctx_ok_mono [of w1 c parent "length (cells w1)"]
    by (auto simp: inv_def base_def cell_ok_def)
  note f = afterFunc_inv [OF reach_inv [OF w1(1)] x a]
  have st: "r_state (regs w2 ! r) = Pending \<or> r_state (regs w2 ! r) = Admitted"
    using a c(2) by (auto simp: afterFunc_def signalAfterFunc_cases add_reg_def nth_append split: if_splits)
  have "w' = w2" "pr = \<lparr>pr_name = rg_name rg, pr_child = x, pr_cell = c, pr_reg = r, pr_phase = Invoking,
      pr_ran = False, pr_settled = False, pr_resolved = []\<rparr>"
    using assms(3) t a by (auto simp: runProbe_def)
  moreover have "reach w2" using reach_step [OF w1(1) step_afterFunc [OF x a]] .
  ultimately show ?thesis
    using f st c by (auto simp: run_ok_def bound_ok_def status_ok_def)
qed

section \<open>What a run resolves with\<close>

lemma resolved_stable:
  assumes "probe_step\<^sup>*\<^sup>* (w, pr) (w', pr')" "pr_settled pr"
  shows "pr_settled pr' \<and> (run_ok (w, pr) \<longrightarrow> pr_resolved pr' = pr_resolved pr)"
  using assms
proof (induction "(w', pr')" arbitrary: w' pr' rule: rtranclp_induct)
  case (step s)
  obtain w1 pr1 where s: "s = (w1, pr1)" by (cases s)
  have i: "pr_settled pr1" "run_ok (w, pr) \<longrightarrow> pr_resolved pr1 = pr_resolved pr" using step.hyps(3) step.prems s by auto
  show ?case
    using step.hyps(2) unfolding s
  proof (cases rule: probe_step.cases)
    case probe_canceled
    have "run_ok (w, pr) \<longrightarrow> run_ok (w1, pr1)" using run_steps_ok step.hyps(1) s by blast
    then have "\<not> run_ok (w, pr)" using probe_canceled i(1) by (auto simp: run_ok_def status_ok_def)
    then show ?thesis using probe_canceled by (simp add: finishCancellation_def finish_def)
  qed (use i in \<open>auto simp: invokeProbe_def operationSettles_def finishOperation_def split: invoked.splits\<close>)
qed simp

lemma run_status:
  assumes "run_ok (w, pr)" "\<not> pr_settled pr"
  shows "pr_resolved pr = []" "\<not> pr_ran pr"
    "live w (pr_cell pr) \<longleftrightarrow> reg_state w pr = Pending" "\<not> live w (pr_cell pr) \<longleftrightarrow> reg_state w pr = Admitted"
  using assms registration_state [of w "pr_reg pr" "pr_cell pr"]
  by (auto simp: run_ok_def status_ok_def bound_ok_def)

text \<open>A probe with a timeout of five milliseconds, started in a world with one other context.\<close>

definition demo_registration :: "unit registration" where
  "demo_registration =
     \<lparr>rg_kind = Ready, rg_name = [97], rg_probe = (), rg_timeoutMs = Fin 5, rg_active = True\<rparr>"

definition probe_world :: "nat world" where
  "probe_world = demo1
     \<lparr>cells := cells demo1 @ [\<lparr>c_parent = Root 0, observedErr = None, observedCause = None, cleanups = [ClearTimer 0]\<rparr>],
      timers := [\<lparr>t_cell = 1, t_target = 15, t_cause = timeoutCause [97], t_active = True, t_delay = Some 5\<rparr>],
      regs := [\<lparr>r_state = Pending, r_listening = True, r_signal = Some (S_Cell 1), r_fn = Queued 9\<rparr>],
      signals := (\<lambda>_. \<lparr>aborted = False, listeners = []\<rparr>)(S_Cell 1 := \<lparr>aborted = False, listeners = [0]\<rparr>)\<rparr>"

definition probe_start :: "nat probe_run" where
  "probe_start = \<lparr>pr_name = [97], pr_child = CancelCtx 1 background (Some (Fin 105)), pr_cell = 1, pr_reg = 0,
     pr_phase = Invoking, pr_ran = False, pr_settled = False, pr_resolved = []\<rparr>"

lemma probe_demo_start:
  "runProbe background demo_registration 9 (Fin 100) (Fin 100) (Fin 10) demo1 = (probe_world, Inr probe_start)"
  by (simp add: runProbe_def demo_registration_def newTimeoutContext_def trunc_def demo1_eq demo_eval probe_world_def
      probe_start_def)

lemma probe_demo_context: "ctx_ok demo1 (length (cells demo1)) background"
  by (simp add: background_def demo1_eq initial_world_def)

lemma probe_demo_run: "probe_step\<^sup>*\<^sup>* (probe_world, probe_start) (probe_world, probe_start\<lparr>pr_phase := Running\<rparr>)"
  using probe_invoked [of probe_start probe_world Promised] by (auto simp: invokeProbe_def probe_start_def)

text \<open>
  C19: the promise of a probe run is resolved at most once, in every interleaving of the probe, its
  promise, the timer and any other use of contexts. The result never changes, and the child context is
  canceled by then. No result is lost: when the operation has ended or the child is canceled and
  nothing is resolved yet, the cancellation callback is admitted and has still to run.
\<close>

theorem probe_settles_once:
  assumes "reach w0" "ctx_ok w0 (length (cells w0)) parent"
    and "runProbe parent rg callback d1 d2 mn w0 = (w1, Inr pr1)" "probe_step\<^sup>*\<^sup>* (w1, pr1) (w, pr)"
  shows "length (pr_resolved pr) \<le> 1 \<and>
    (\<forall>res w' pr'. pr_resolved pr = [res] \<and> probe_step\<^sup>*\<^sup>* (w, pr) (w', pr') \<longrightarrow> pr_resolved pr' = [res]) \<and>
    (pr_resolved pr \<noteq> [] \<longrightarrow> \<not> live w (pr_cell pr)) \<and>
    (pr_resolved pr = [] \<and> (pr_phase pr = Ended \<or> \<not> live w (pr_cell pr)) \<longrightarrow>
       r_state (regs w ! pr_reg pr) = Admitted \<and> \<not> pr_ran pr)"
proof -
  have ok: "run_ok (w, pr)" using run_steps_ok [OF assms(4) probe_started [OF assms(1-3)]] .
  show ?thesis
  proof (cases "pr_settled pr")
    case True
    then have "(\<exists>res. pr_resolved pr = [res]) \<and> \<not> live w (pr_cell pr)" using ok by (auto simp: run_ok_def status_ok_def)
    then show ?thesis using resolved_stable [OF _ True] ok by auto
  next
    case False
    then show ?thesis using run_status [OF ok False] ok by (auto simp: run_ok_def status_ok_def)
  qed
qed

theorem probe_settles_once_witness:
  "length (pr_resolved (snd (operationSettles None (probe_world, probe_start\<lparr>pr_phase := Running\<rparr>)))) \<le> 1"
proof -
  obtain w pr where e: "operationSettles None (probe_world, probe_start\<lparr>pr_phase := Running\<rparr>) = (w, pr)" by fastforce
  have "probe_step (probe_world, probe_start\<lparr>pr_phase := Running\<rparr>) (w, pr)"
    unfolding e [symmetric] by (rule probe_settles) simp
  then have "probe_step\<^sup>*\<^sup>* (probe_world, probe_start) (w, pr)"
    using probe_demo_run by (rule rtranclp.rtrancl_into_rtrancl [rotated])
  from probe_settles_once [OF demo_reach(1) probe_demo_context probe_demo_start this, THEN conjunct1]
  show ?thesis unfolding e snd_conv .
qed

text \<open>
  C21: while the child of an unresolved run is live, the end of the operation resolves the run with its
  own result, ok or the failure of the probe. Once the child is canceled, by its timeout or from its
  parent, the end of the operation is ignored and the callback resolves the run with the cause of the
  child: a probe is never reported ok by a value that comes after its deadline or cancellation.
\<close>

theorem probe_outcome:
  assumes "reach w0" "ctx_ok w0 (length (cells w0)) parent"
    and "runProbe parent rg callback d1 d2 mn w0 = (w1, Inr pr1)" "probe_step\<^sup>*\<^sup>* (w1, pr1) (w, pr)"
    and "pr_resolved pr = []"
  shows "pr_resolved (snd (operationSettles outcome (w, pr))) =
      (if live w (pr_cell pr) then [operationResult (pr_name pr) outcome] else []) \<and>
    (\<not> live w (pr_cell pr) \<longrightarrow>
      (\<exists>k. cause_of w (pr_cell pr) = Some k \<and>
         pr_resolved (snd (finishCancellation (w, pr))) = [failedResult (pr_name pr) k]))"
proof -
  have ok: "run_ok (w, pr)" using run_steps_ok [OF assms(4) probe_started [OF assms(1-3)]] .
  then have ns: "\<not> pr_settled pr" using assms(5) by (auto simp: run_ok_def status_ok_def)
  note st = run_status [OF ok ns]
  have op: "pr_resolved (snd (operationSettles outcome (w, pr))) =
      (if live w (pr_cell pr) then [operationResult (pr_name pr) outcome] else [])"
  proof (cases "live w (pr_cell pr)")
    case True
    then show ?thesis
      using finishOperation_cases(3) [OF ok ns, of "operationResult (pr_name pr) outcome"] st
      by (auto simp: operationSettles_def finish_def)
  next
    case False
    then have "stopReg (pr_reg pr) w = (w, False)" using st(4) by (simp add: stopReg_def pending_def)
    then show ?thesis using False ns st(1) by (simp add: operationSettles_def finishOperation_def)
  qed
  have "\<exists>k. cause_of w (pr_cell pr) = Some k \<and>
      pr_resolved (snd (finishCancellation (w, pr))) = [failedResult (pr_name pr) k]" if dead: "\<not> live w (pr_cell pr)"
  proof -
    have b: "inv w" "pr_cell pr < length (cells w)" "\<exists>p dl. pr_child pr = CancelCtx (pr_cell pr) p dl"
      using ok reach_inv by (auto simp: run_ok_def bound_ok_def)
    obtain e k where "err_of w (pr_cell pr) = Some e" "cause_of w (pr_cell pr) = Some k"
      using dead cause_settled [OF b(1,2)] b(2) by (auto simp: live_def)
    then show ?thesis
      using b(3) st(1)
      by (auto simp: finishCancellation_def finish_def cancellationError_def normalizeProbeError_def readCause_def)
  qed
  then show ?thesis using op by blast
qed

theorem probe_outcome_witness:
  "pr_resolved (snd (operationSettles None (probe_world, probe_start\<lparr>pr_phase := Running\<rparr>))) =
     [\<lparr>pb_name = [97], pb_ok = True, pb_error = None\<rparr>]"
  using probe_outcome [OF demo_reach(1) probe_demo_context probe_demo_start probe_demo_run, of None]
  by (simp add: probe_start_def probe_world_def live_def demo1_eq operationResult_def freezeResult_def)

section \<open>Registrations and handles\<close>

inductive registry_step :: "'p registry \<Rightarrow> 'p registry \<Rightarrow> bool" where
  step_register: "register kind name probe ms rg = (rg', res) \<Longrightarrow> registry_step rg rg'"
| step_unregister: "h < length (handles rg) \<Longrightarrow> unregister h rg = (rg', b) \<Longrightarrow> registry_step rg rg'"

abbreviation registry_reach :: "'p registry \<Rightarrow> bool" where
  "registry_reach rg \<equiv> registry_step\<^sup>*\<^sup>* newProbeRegistry rg"

abbreviation rg_key :: "'p registration \<Rightarrow> probe_kind \<times> jsstr" where
  "rg_key r \<equiv> (rg_kind r, rg_name r)"

abbreviation h_key :: "unregister_handle \<Rightarrow> probe_kind \<times> jsstr" where
  "h_key h \<equiv> (h_kind h, h_name h)"

abbreviation active_handles :: "'p registry \<Rightarrow> (probe_kind \<times> jsstr) list" where
  "active_handles rg \<equiv> map h_key (filter h_active (handles rg))"

definition registry_ok :: "'p registry \<Rightarrow> bool" where
  "registry_ok rg \<longleftrightarrow>
     distinct (map rg_key (registrations rg)) \<and> map rg_key (registrations rg) = active_handles rg \<and>
     (\<forall>r \<in> set (registrations rg). rg_active r) \<and>
     (\<forall>kind. activeNames rg kind = map rg_name (filter (\<lambda>r. rg_kind r = kind) (registrations rg)))"

lemma splice_first_filter:
  "distinct (map f xs) \<Longrightarrow> splice_first (\<lambda>x. f x = a) xs = filter (\<lambda>x. f x \<noteq> a) xs"
proof (induction xs)
  case (Cons x xs)
  then have "filter (\<lambda>y. f y \<noteq> f x) xs = xs" by (intro filter_True) (auto simp: image_iff)
  then show ?case using Cons by auto
qed simp

lemma filter_deactivate:
  "distinct (map f (filter P xs)) \<Longrightarrow> i < length xs \<Longrightarrow> P (xs ! i) \<Longrightarrow> \<not> P y \<Longrightarrow>
    map f (filter P (xs[i := y])) = filter (\<lambda>k. k \<noteq> f (xs ! i)) (map f (filter P xs))"
proof (induction xs arbitrary: i)
  case (Cons x xs)
  show ?case
  proof (cases i)
    case 0
    then have "filter (\<lambda>k. k \<noteq> f x) (map f (filter P xs)) = map f (filter P xs)"
      using Cons.prems(1,3) by (intro filter_True) (auto simp: image_iff)
    then show ?thesis using 0 Cons.prems by simp
  next
    case (Suc j)
    then have j: "distinct (map f (filter P xs))" "j < length xs" "P (xs ! j)" using Cons.prems by (auto split: if_splits)
    then have "f (xs ! j) \<in> f ` set (filter P xs)" by simp
    then have "P x \<longrightarrow> f x \<noteq> f (xs ! j)" using Cons.prems(1) by auto
    then show ?thesis using Cons.IH [OF j Cons.prems(4)] Suc by simp
  qed
qed simp

lemma register_cases:
  assumes "register kind name probe ms rg = (rg', res)"
  obtains e where "res = Inl e" "rg' = rg"
  | t where "res = Inr (length (handles rg))" "name \<notin> set (activeNames rg kind)"
    "registrations rg' = registrations rg @ [\<lparr>rg_kind = kind, rg_name = name, rg_probe = probe, rg_timeoutMs = t, rg_active = True\<rparr>]"
    "activeNames rg' = (activeNames rg)(kind := activeNames rg kind @ [name])"
    "handles rg' = handles rg @ [\<lparr>h_kind = kind, h_name = name, h_active = True\<rparr>]"
proof (cases "assertName name = Inr () \<and> (let t = case_option defaultTimeoutMs (\<lambda>t. t) ms in isFinite t \<and> \<not> num_less t (Fin 0)) \<and>
      name \<notin> set (activeNames rg kind)")
  case True
  then have "rg' = \<lparr>registrations = registrations rg @ [\<lparr>rg_kind = kind, rg_name = name, rg_probe = probe,
        rg_timeoutMs = case_option defaultTimeoutMs (\<lambda>t. t) ms, rg_active = True\<rparr>],
      activeNames = (activeNames rg)(kind := activeNames rg kind @ [name]),
      handles = handles rg @ [\<lparr>h_kind = kind, h_name = name, h_active = True\<rparr>]\<rparr>" "res = Inr (length (handles rg))"
    using assms by (simp_all add: register_def Let_def)
  then show ?thesis using that(2) True by simp
next
  case False
  then have "(rg', res) = (rg, res) \<and> isl res"
    using assms by (auto simp: register_def Let_def assertName_def split: if_splits)
  then show ?thesis using that(1) by (cases res) auto
qed

lemma registry_okD:
  assumes "registry_ok rg"
  shows "distinct (map rg_key (registrations rg))" "map rg_key (registrations rg) = active_handles rg"
    "r \<in> set (registrations rg) \<Longrightarrow> rg_active r"
    "activeNames rg kind = map rg_name (filter (\<lambda>r. rg_kind r = kind) (registrations rg))"
  using assms unfolding registry_ok_def by blast+

lemma register_ok:
  assumes "registry_ok rg" "register kind name probe ms rg = (rg', res)"
  shows "registry_ok rg'"
  using assms(2)
proof (cases rule: register_cases)
  case (2 t)
  note k = registry_okD [OF assms(1)]
  have "(kind, name) \<notin> set (map rg_key (registrations rg))" using 2(2) unfolding k(4) by auto
  then have "distinct (map rg_key (registrations rg'))" using k(1) 2(3) by simp
  moreover have "map rg_key (registrations rg') = active_handles rg'" using k(2) 2(3,5) by simp
  moreover have "\<forall>r \<in> set (registrations rg'). rg_active r" using k(3) 2(3) by auto
  moreover have "activeNames rg' c = map rg_name (filter (\<lambda>r. rg_kind r = c) (registrations rg'))" for c
    using k(4) [of c] k(4) [of kind] 2(3,4) by simp
  ultimately show ?thesis unfolding registry_ok_def by blast
qed (use assms in simp)

lemma unregister_active:
  assumes "registry_ok rg" "h < length (handles rg)" "h_active (handles rg ! h)" "unregister h rg = (rg', b)"
  shows "b" "registrations rg' = filter (\<lambda>r. rg_key r \<noteq> h_key (handles rg ! h)) (registrations rg)"
    "active_handles rg' = filter (\<lambda>k. k \<noteq> h_key (handles rg ! h)) (active_handles rg)"
    "activeNames rg' = (activeNames rg)(h_kind (handles rg ! h) :=
       removeAll (h_name (handles rg ! h)) (activeNames rg (h_kind (handles rg ! h))))"
proof -
  let ?hd = "handles rg ! h"
  note k = registry_okD [OF assms(1)]
  have rg': "handles rg' = (handles rg)[h := ?hd\<lparr>h_active := False\<rparr>]"
      "registrations rg' = splice_first (\<lambda>r. rg_key r = h_key ?hd) (registrations rg)"
    using assms(3,4) by (auto simp: unregister_def Let_def)
  show "b" and "activeNames rg' = (activeNames rg)(h_kind ?hd := removeAll (h_name ?hd) (activeNames rg (h_kind ?hd)))"
    using assms(3,4) by (auto simp: unregister_def Let_def)
  show "registrations rg' = filter (\<lambda>r. rg_key r \<noteq> h_key ?hd) (registrations rg)"
    unfolding rg' by (rule splice_first_filter [OF k(1)])
  have "distinct (active_handles rg)" using k(1) unfolding k(2) .
  then show "active_handles rg' = filter (\<lambda>k. k \<noteq> h_key ?hd) (active_handles rg)"
    unfolding rg' by (rule filter_deactivate) (use assms(2,3) in auto)
qed

lemma unregister_ok:
  assumes "registry_ok rg" "h < length (handles rg)" "unregister h rg = (rg', b)"
  shows "registry_ok rg'"
proof (cases "h_active (handles rg ! h)")
  case True
  note u = unregister_active [OF assms(1,2) True assms(3)] and k = registry_okD [OF assms(1)]
  let ?P = "\<lambda>r. rg_key r \<noteq> h_key (handles rg ! h)"
  have m: "map rg_key (filter ?P rs) = filter (\<lambda>x. x \<noteq> h_key (handles rg ! h)) (map rg_key rs)" for rs :: "'a registration list"
    by (induction rs) auto
  have n: "map rg_name (filter (\<lambda>r. rg_kind r = kind) (filter ?P rs)) =
      (if kind = h_kind (handles rg ! h) then removeAll (h_name (handles rg ! h)) else id)
        (map rg_name (filter (\<lambda>r. rg_kind r = kind) rs))" for kind and rs :: "'a registration list"
    by (induction rs) auto
  show ?thesis
    unfolding registry_ok_def
  proof (intro conjI allI ballI)
    show "distinct (map rg_key (registrations rg'))" unfolding u(2) m by (rule distinct_filter [OF k(1)])
    show "map rg_key (registrations rg') = active_handles rg'" unfolding u(2,3) m k(2) ..
    show "rg_active r" if "r \<in> set (registrations rg')" for r using that k(3) u(2) by simp
    show "activeNames rg' kind = map rg_name (filter (\<lambda>r. rg_kind r = kind) (registrations rg'))" for kind
      unfolding u(2,4) n using k(4) by simp
  qed
qed (use assms in \<open>simp add: unregister_def\<close>)

lemma registry_step_ok: "registry_step rg rg' \<Longrightarrow> registry_ok rg \<Longrightarrow> registry_ok rg'"
  by (induction rule: registry_step.induct) (blast intro: register_ok unregister_ok)+

lemma registry_reach_ok: "registry_reach rg \<Longrightarrow> registry_ok rg"
proof (induction rule: rtranclp_induct)
  case base
  show ?case by (simp add: newProbeRegistry_def registry_ok_def)
qed (rule registry_step_ok)

lemma stale_handle:
  "registry_step\<^sup>*\<^sup>* rg rg' \<Longrightarrow> h < length (handles rg) \<Longrightarrow> \<not> h_active (handles rg ! h) \<Longrightarrow>
    h < length (handles rg') \<and> \<not> h_active (handles rg' ! h)"
proof (induction rule: rtranclp_induct)
  case (step rg1 rg2)
  have i: "h < length (handles rg1)" "\<not> h_active (handles rg1 ! h)" using step.IH step.prems by auto
  show ?case
    using step.hyps(2)
  proof (cases rule: registry_step.cases)
    case (step_register kind name probe ms res)
    then show ?thesis by (cases rule: register_cases) (use i in \<open>auto simp: nth_append\<close>)
  next
    case (step_unregister h' b)
    then show ?thesis using i by (auto simp: unregister_def Let_def nth_list_update split: if_splits)
  qed
qed simp

lemma report_of_registry:
  assumes "registry_ok rg" "\<forall>r. pb_name (f r) = rg_name r"
  shows "map pb_name (rp_checks (check_report kind f rg)) = activeNames rg kind"
    "rp_ok (check_report kind f rg) \<longleftrightarrow>
       (\<forall>r \<in> set (registrations rg). rg_kind r = kind \<longrightarrow> pb_ok (f r)) \<and> (kind = Ready \<longrightarrow> activeNames rg kind \<noteq> [])"
proof -
  note k = registry_okD [OF assms(1)]
  have s: "snapshot_of kind rg = filter (\<lambda>r. rg_kind r = kind) (registrations rg)"
    unfolding snapshot_of_def using k(3) by (intro filter_cong) auto
  show "map pb_name (rp_checks (check_report kind f rg)) = activeNames rg kind"
    using assms(2) by (simp add: check_report_def freezeReport_def s k(4))
  show "rp_ok (check_report kind f rg) \<longleftrightarrow>
      (\<forall>r \<in> set (registrations rg). rg_kind r = kind \<longrightarrow> pb_ok (f r)) \<and> (kind = Ready \<longrightarrow> activeNames rg kind \<noteq> [])"
    unfolding check_report_def freezeReport_def s k(4) by (cases kind) (auto simp: list_all_iff)
qed

text \<open>
  C20: in every reachable registry the active unregister handles are, in order, those of the current
  registrations, whose names are unique in each kind. Calling an active handle removes exactly its own
  registration and frees its name; from then on it answers false and changes nothing, also when the
  name has been registered anew. A report lists the results of the registered probes of its kind in
  registration order, and is ok when all are; a readiness report also needs a probe.
\<close>

theorem registry_handles:
  assumes "registry_reach rg" "h < length (handles rg)" "unregister h rg = (rg1, b)" "registry_step\<^sup>*\<^sup>* rg1 rg2"
  shows "distinct (map rg_key (registrations rg)) \<and> map rg_key (registrations rg) = active_handles rg \<and>
    (b \<longleftrightarrow> h_active (handles rg ! h)) \<and> (\<not> b \<longrightarrow> rg1 = rg) \<and>
    (b \<longrightarrow> registrations rg1 = filter (\<lambda>r. rg_key r \<noteq> h_key (handles rg ! h)) (registrations rg) \<and>
       h_name (handles rg ! h) \<notin> set (activeNames rg1 (h_kind (handles rg ! h)))) \<and>
    unregister h rg2 = (rg2, False) \<and>
    (\<forall>f kind. (\<forall>r. pb_name (f r) = rg_name r) \<longrightarrow>
       map pb_name (rp_checks (check_report kind f rg)) = activeNames rg kind \<and>
       (rp_ok (check_report kind f rg) \<longleftrightarrow>
          (\<forall>r \<in> set (registrations rg). rg_kind r = kind \<longrightarrow> pb_ok (f r)) \<and>
          (kind = Ready \<longrightarrow> activeNames rg kind \<noteq> [])))"
proof -
  have ok: "registry_ok rg" using registry_reach_ok [OF assms(1)] .
  have "h < length (handles rg1) \<and> \<not> h_active (handles rg1 ! h)"
    using assms(2,3) by (auto simp: unregister_def Let_def split: if_splits)
  then have "unregister h rg2 = (rg2, False)" using stale_handle [OF assms(4)] by (simp add: unregister_def)
  moreover have "b \<longleftrightarrow> h_active (handles rg ! h)" "\<not> b \<longrightarrow> rg1 = rg"
    using assms(3) by (auto simp: unregister_def Let_def split: if_splits)
  ultimately show ?thesis
    using registry_okD(1,2) [OF ok] unregister_active(2,4) [OF ok assms(2) _ assms(3)] report_of_registry [OF ok] by simp
qed

definition demo_registry :: "unit registry" where
  "demo_registry = fst (register Ready [97] () None newProbeRegistry)"

lemma demo_registry_run:
  "demo_registry = \<lparr>registrations = [\<lparr>rg_kind = Ready, rg_name = [97], rg_probe = (), rg_timeoutMs = Fin 1000, rg_active = True\<rparr>],
     activeNames = (\<lambda>_. [])(Ready := [[97]]), handles = [\<lparr>h_kind = Ready, h_name = [97], h_active = True\<rparr>]\<rparr>"
  by (simp add: demo_registry_def register_def newProbeRegistry_def assertName_def publicNamePattern_def
      public_unit_def defaultTimeoutMs_def)

theorem registry_handles_witness:
  "\<exists>rg1. unregister 0 demo_registry = (rg1, True) \<and> registrations rg1 = [] \<and> unregister 0 rg1 = (rg1, False)"
proof -
  obtain rg1 b where u: "unregister 0 demo_registry = (rg1, b)" by fastforce
  have "registry_reach demo_registry"
    unfolding demo_registry_def by (rule r_into_rtranclp, rule step_register [OF prod.collapse [symmetric]])
  then show ?thesis
    using registry_handles [OF _ _ u rtranclp.rtrancl_refl] u by (simp add: demo_registry_run)
qed

end
