(* ===== verification/Broker.thy ===== *)
theory Broker
  imports Context
begin

text \<open>
  \<open>packages/broker/memory/src/index.ts\<close>: the process-local Broker. Its state is the topics with their
  subscriptions; a subscription holds its \<open>tail\<close> as the list of the deliveries chained on it, the calls
  its handler has received, its drain and its terminal promise.

  A delivery is the promise \<open>tail.then(...)\<close>: it waits for the one before it, is skipped with the same
  failure when that one has failed, and otherwise calls the handler. \<open>publish\<close> and \<open>subscribe\<close> run
  without an \<open>await\<close> up to the admission, so each is one step; the other steps are the reactions of the
  promises. \<open>waitForContext\<close> only lets a caller stop waiting, so what it waits for is the model. The
  checks of \<open>typeof\<close> hold by the types; headers are the list of the own enumerable entries.
\<close>

section \<open>State\<close>

record message =
  ms_headers :: "(jsstr \<times> jsstr) list"
  ms_body :: "byte list"

datatype delivery_status = Waiting | Started | Fulfilled | Failed thrown | Skipped thrown

record delivery =
  dl_message :: message
  dl_status :: delivery_status

record subscription =
  sb_topic :: jsstr
  sb_accepting :: bool
  sb_tail :: "delivery list"
  sb_calls :: "message list"
  sb_draining :: bool
  sb_terminal :: "thrown option option"

record broker =
  subscriptions :: "subscription list"
  topics :: "(jsstr, nat list) jsmap"

definition newMemoryBroker :: broker where
  "newMemoryBroker = \<lparr>subscriptions = [], topics = []\<rparr>"

abbreviation sub_at :: "broker \<Rightarrow> nat \<Rightarrow> subscription" where
  "sub_at b s \<equiv> subscriptions b ! s"

definition change :: "nat \<Rightarrow> (subscription \<Rightarrow> subscription) \<Rightarrow> broker \<Rightarrow> broker" where
  "change s f b = b\<lparr>subscriptions := (subscriptions b)[s := f (sub_at b s)]\<rparr>"

section \<open>Admission checks\<close>

definition contextFailure :: "'v world \<Rightarrow> 'v ctx \<Rightarrow> thrown option" where
  "contextFailure w c =
     (case resolveErr w c of
        None \<Rightarrow> None
      | Some failure \<Rightarrow> Some (case readCause w c of Some k \<Rightarrow> k | None \<Rightarrow> failure))"

definition checkContext :: "'v world \<Rightarrow> 'v ctx \<Rightarrow> unit res" where
  "checkContext w c = (case contextFailure w c of None \<Rightarrow> Inr () | Some e \<Rightarrow> Inl e)"

definition brokerTopic :: "jsstr \<Rightarrow> jsstr res" where
  "brokerTopic v =
     (if length v = 0 \<or> \<not> isWellFormed v
      then Inl (TypeError ''Memory Broker topic must be a non-empty well-formed string'') else Inr v)"

definition defineHeader :: "jsstr \<Rightarrow> jsstr \<Rightarrow> (jsstr \<times> jsstr) list \<Rightarrow> (jsstr \<times> jsstr) list" where
  "defineHeader name v target = target @ [(name, v)]"

fun prepare_headers :: "(jsstr \<times> jsstr) list \<Rightarrow> (jsstr \<times> jsstr) list \<Rightarrow> (jsstr \<times> jsstr) list res" where
  "prepare_headers target [] = Inr target"
| "prepare_headers target ((name, v) # hs) =
     (if length name = 0 \<or> \<not> isWellFormed name \<or> \<not> isWellFormed v
      then Inl (TypeError ''Memory Broker message headers must contain well-formed string entries'')
      else prepare_headers (defineHeader name v target) hs)"

definition prepareMessage :: "message \<Rightarrow> message res" where
  "prepareMessage m =
     bindE (prepare_headers [] (ms_headers m)) (\<lambda>headers. Inr \<lparr>ms_headers = headers, ms_body = ms_body m\<rparr>)"

definition deliveryMessage :: "message \<Rightarrow> message" where
  "deliveryMessage prepared =
     \<lparr>ms_headers = fold (\<lambda>(name, v). defineHeader name v) (ms_headers prepared) [], ms_body = ms_body prepared\<rparr>"

definition handlerFailure :: "raised \<Rightarrow> thrown" where
  "handlerFailure v =
     (case v of
        R_Error e \<Rightarrow> e
      | R_Other \<Rightarrow> PlainError (js ''Memory Broker handler rejected with a non-Error value''))"

section \<open>Operations\<close>

definition remove :: "nat \<Rightarrow> broker \<Rightarrow> broker" where
  "remove s b =
     (if \<not> sb_accepting (sub_at b s) then b
      else
        let b1 = change s (\<lambda>x. x\<lparr>sb_accepting := False\<rparr>) b; topic = sb_topic (sub_at b s) in
        case map_get (topics b1) topic of
          None \<Rightarrow> b1
        | Some members \<Rightarrow>
            let members' = filter (\<lambda>m. m \<noteq> s) members in
            b1\<lparr>topics := if length members' = 0 then map_delete topic (topics b1)
                         else map_set topic members' (topics b1)\<rparr>)"

definition settle :: "thrown option \<Rightarrow> subscription \<Rightarrow> subscription" where
  "settle error x = (case sb_terminal x of None \<Rightarrow> x\<lparr>sb_terminal := Some error\<rparr> | Some _ \<Rightarrow> x)"

definition admit :: "nat \<Rightarrow> message \<Rightarrow> broker \<Rightarrow> broker" where
  "admit s prepared b =
     change s (\<lambda>x. x\<lparr>sb_tail := sb_tail x @ [\<lparr>dl_message = prepared, dl_status = Waiting\<rparr>]\<rparr>) b"

text \<open>The loop over the members of a topic; a delivery is named by its subscription and position.\<close>

fun admit_all :: "nat list \<Rightarrow> message \<Rightarrow> broker \<Rightarrow> broker \<times> (nat \<times> nat) list" where
  "admit_all [] prepared b = (b, [])"
| "admit_all (s # members) prepared b =
     (if sb_accepting (sub_at b s)
      then (case admit_all members prepared (admit s prepared b) of
              (b', ds) \<Rightarrow> (b', (s, length (sb_tail (sub_at b s))) # ds))
      else admit_all members prepared b)"

definition publish ::
    "'v world \<Rightarrow> 'v ctx \<Rightarrow> jsstr \<Rightarrow> message \<Rightarrow> bool \<Rightarrow> broker \<Rightarrow> broker \<times> (nat \<times> nat) list res" where
  "publish w c topic message with_options b =
     (case bindE (checkContext w c) (\<lambda>_. bindE (brokerTopic topic) (\<lambda>selectedTopic.
           bindE (prepareMessage message) (\<lambda>prepared.
           if with_options then Inl (TypeError ''Memory Broker publish options are not supported'')
           else Inr (selectedTopic, prepared)))) of
        Inl e \<Rightarrow> (b, Inl e)
      | Inr (selectedTopic, prepared) \<Rightarrow>
          (case map_get (topics b) selectedTopic of
             None \<Rightarrow> (b, Inr [])
           | Some members \<Rightarrow> (case admit_all members prepared b of (b', ds) \<Rightarrow> (b', Inr ds))))"

text \<open>What the promise of a publish settles with: nothing as long as a delivery is open.\<close>

definition failure_of :: "delivery_status \<Rightarrow> thrown option" where
  "failure_of st = (case st of Failed e \<Rightarrow> Some e | Skipped e \<Rightarrow> Some e | _ \<Rightarrow> None)"

definition is_open :: "delivery_status \<Rightarrow> bool" where
  "is_open st \<longleftrightarrow> st = Waiting \<or> st = Started"

definition settleDeliveries :: "delivery_status list \<Rightarrow> unit res option" where
  "settleDeliveries results =
     (if list_ex is_open results then None
      else
        case List.map_filter failure_of results of
          [] \<Rightarrow> Some (Inr ())
        | [first] \<Rightarrow> Some (Inl first)
        | failures \<Rightarrow> Some (Inl (AggregateError ''Memory Broker deliveries failed'' failures)))"

definition published :: "(nat \<times> nat) list \<Rightarrow> broker \<Rightarrow> unit res option" where
  "published ds b = settleDeliveries (map (\<lambda>(s, i). dl_status (sb_tail (sub_at b s) ! i)) ds)"

definition subscribe :: "'v world \<Rightarrow> 'v ctx \<Rightarrow> jsstr \<Rightarrow> bool \<Rightarrow> broker \<Rightarrow> broker \<times> nat res" where
  "subscribe w c topic with_options b =
     (case bindE (checkContext w c) (\<lambda>_. bindE (brokerTopic topic) (\<lambda>selectedTopic.
           if with_options then Inl (TypeError ''Memory Broker subscribe options are not supported'')
           else Inr selectedTopic)) of
        Inl e \<Rightarrow> (b, Inl e)
      | Inr selectedTopic \<Rightarrow>
          let s = length (subscriptions b);
              members = (case map_get (topics b) selectedTopic of None \<Rightarrow> [] | Some ms \<Rightarrow> ms) in
          (\<lparr>subscriptions = subscriptions b @
              [\<lparr>sb_topic = selectedTopic, sb_accepting = True, sb_tail = [], sb_calls = [],
                sb_draining = False, sb_terminal = None\<rparr>],
            topics = map_set selectedTopic (members @ [s]) (topics b)\<rparr>, Inr s))"

definition beginDrain :: "nat \<Rightarrow> broker \<Rightarrow> broker" where
  "beginDrain s b =
     (if sb_draining (sub_at b s) then b else change s (\<lambda>x. x\<lparr>sb_draining := True\<rparr>) (remove s b))"

section \<open>Deliveries\<close>

abbreviation status_at :: "broker \<Rightarrow> nat \<Rightarrow> nat \<Rightarrow> delivery_status" where
  "status_at b s i \<equiv> dl_status (sb_tail (sub_at b s) ! i)"

definition set_status :: "nat \<Rightarrow> delivery_status \<Rightarrow> subscription \<Rightarrow> subscription" where
  "set_status i st x = x\<lparr>sb_tail := (sb_tail x)[i := (sb_tail x ! i)\<lparr>dl_status := st\<rparr>]\<rparr>"

definition call_handler :: "nat \<Rightarrow> nat \<Rightarrow> broker \<Rightarrow> broker" where
  "call_handler s i b =
     change s (\<lambda>x. set_status i Started
       (x\<lparr>sb_calls := sb_calls x @ [deliveryMessage (dl_message (sb_tail x ! i))]\<rparr>)) b"

definition handler_returns :: "nat \<Rightarrow> nat \<Rightarrow> broker \<Rightarrow> broker" where
  "handler_returns s i b = change s (set_status i Fulfilled) b"

definition handler_throws :: "nat \<Rightarrow> nat \<Rightarrow> raised \<Rightarrow> broker \<Rightarrow> broker" where
  "handler_throws s i v b =
     (let failure = handlerFailure v in
      change s (set_status i (Failed failure) \<circ> settle (Some failure)) (remove s b))"

definition skip_delivery :: "nat \<Rightarrow> nat \<Rightarrow> thrown \<Rightarrow> broker \<Rightarrow> broker" where
  "skip_delivery s i e b = change s (set_status i (Skipped e)) b"

text \<open>The promise \<open>tail\<close>: open, fulfilled, or rejected.\<close>

definition tail_result :: "subscription \<Rightarrow> thrown option option" where
  "tail_result x =
     (if sb_tail x = [] then Some None
      else let st = dl_status (last (sb_tail x)) in if is_open st then None else Some (failure_of st))"

definition drain_settles :: "nat \<Rightarrow> thrown option \<Rightarrow> broker \<Rightarrow> broker" where
  "drain_settles s result b = change s (settle result) b"

text \<open>Delivery \<open>i\<close> reacts when its predecessor has settled.\<close>

definition before :: "broker \<Rightarrow> nat \<Rightarrow> nat \<Rightarrow> delivery_status" where
  "before b s i = (if i = 0 then Fulfilled else status_at b s (i - 1))"

inductive broker_step :: "broker \<Rightarrow> broker \<Rightarrow> bool" where
  step_publish: "publish (w :: nat world) c topic m opts b = (b', res) \<Longrightarrow> broker_step b b'"
| step_subscribe: "subscribe (w :: nat world) c topic opts b = (b', res) \<Longrightarrow> broker_step b b'"
| step_unsubscribe: "s < length (subscriptions b) \<Longrightarrow> broker_step b (beginDrain s b)"
| step_call: "s < length (subscriptions b) \<Longrightarrow> i < length (sb_tail (sub_at b s)) \<Longrightarrow>
    status_at b s i = Waiting \<Longrightarrow> before b s i = Fulfilled \<Longrightarrow> broker_step b (call_handler s i b)"
| step_skip: "s < length (subscriptions b) \<Longrightarrow> i < length (sb_tail (sub_at b s)) \<Longrightarrow>
    status_at b s i = Waiting \<Longrightarrow> failure_of (before b s i) = Some e \<Longrightarrow> broker_step b (skip_delivery s i e b)"
| step_returns: "s < length (subscriptions b) \<Longrightarrow> i < length (sb_tail (sub_at b s)) \<Longrightarrow>
    status_at b s i = Started \<Longrightarrow> broker_step b (handler_returns s i b)"
| step_throws: "s < length (subscriptions b) \<Longrightarrow> i < length (sb_tail (sub_at b s)) \<Longrightarrow>
    status_at b s i = Started \<Longrightarrow> broker_step b (handler_throws s i v b)"
| step_drained: "s < length (subscriptions b) \<Longrightarrow> sb_draining (sub_at b s) \<Longrightarrow>
    tail_result (sub_at b s) = Some result \<Longrightarrow> broker_step b (drain_settles s result b)"

abbreviation broker_reach :: "broker \<Rightarrow> bool" where
  "broker_reach b \<equiv> broker_step\<^sup>*\<^sup>* newMemoryBroker b"

section \<open>One subscription\<close>

text \<open>What a step of the broker does to one subscription.\<close>

definition pred_status :: "subscription \<Rightarrow> nat \<Rightarrow> delivery_status" where
  "pred_status x i = (if i = 0 then Fulfilled else dl_status (sb_tail x ! (i - 1)))"

inductive sub_step :: "subscription \<Rightarrow> subscription \<Rightarrow> bool" where
  sub_admit: "sb_accepting x \<Longrightarrow> sub_step x (x\<lparr>sb_tail := sb_tail x @ [\<lparr>dl_message = m, dl_status = Waiting\<rparr>]\<rparr>)"
| sub_drain: "sub_step x (x\<lparr>sb_accepting := False, sb_draining := True\<rparr>)"
| sub_call: "i < length (sb_tail x) \<Longrightarrow> dl_status (sb_tail x ! i) = Waiting \<Longrightarrow> pred_status x i = Fulfilled \<Longrightarrow>
    sub_step x (set_status i Started (x\<lparr>sb_calls := sb_calls x @ [deliveryMessage (dl_message (sb_tail x ! i))]\<rparr>))"
| sub_skip: "i < length (sb_tail x) \<Longrightarrow> dl_status (sb_tail x ! i) = Waiting \<Longrightarrow> failure_of (pred_status x i) = Some e \<Longrightarrow>
    sub_step x (set_status i (Skipped e) x)"
| sub_returns: "i < length (sb_tail x) \<Longrightarrow> dl_status (sb_tail x ! i) = Started \<Longrightarrow>
    sub_step x (set_status i Fulfilled x)"
| sub_throws: "i < length (sb_tail x) \<Longrightarrow> dl_status (sb_tail x ! i) = Started \<Longrightarrow>
    sub_step x (set_status i (Failed e) (settle (Some e) (x\<lparr>sb_accepting := False\<rparr>)))"
| sub_drained: "sb_draining x \<Longrightarrow> tail_result x = Some result \<Longrightarrow> sub_step x (settle result x)"

lemma change_sel [simp]:
  "length (subscriptions (change s f b)) = length (subscriptions b)" "topics (change s f b) = topics b"
  "t < length (subscriptions b) \<Longrightarrow> sub_at (change s f b) t = (if t = s then f (sub_at b s) else sub_at b t)"
  by (auto simp: change_def)

lemma set_status_sel [simp]:
  "sb_topic (set_status i st x) = sb_topic x" "sb_accepting (set_status i st x) = sb_accepting x"
  "sb_calls (set_status i st x) = sb_calls x" "sb_draining (set_status i st x) = sb_draining x"
  "sb_terminal (set_status i st x) = sb_terminal x" "length (sb_tail (set_status i st x)) = length (sb_tail x)"
  by (simp_all add: set_status_def)

lemma set_status_nth [simp]:
  "j < length (sb_tail x) \<Longrightarrow> sb_tail (set_status i st x) ! j =
     (if j = i then (sb_tail x ! i)\<lparr>dl_status := st\<rparr> else sb_tail x ! j)"
  by (auto simp: set_status_def)

lemma settle_sel [simp]:
  "sb_topic (settle e x) = sb_topic x" "sb_accepting (settle e x) = sb_accepting x"
  "sb_calls (settle e x) = sb_calls x" "sb_draining (settle e x) = sb_draining x" "sb_tail (settle e x) = sb_tail x"
  "sb_terminal (settle e x) = (case sb_terminal x of None \<Rightarrow> Some e | Some r \<Rightarrow> Some r)"
  by (auto simp: settle_def split: option.splits)

lemma remove_sel [simp]:
  "length (subscriptions (remove s b)) = length (subscriptions b)"
  "t < length (subscriptions b) \<Longrightarrow>
     sub_at (remove s b) t = (if t = s then (sub_at b s)\<lparr>sb_accepting := False\<rparr> else sub_at b t)"
  by (auto simp: remove_def Let_def split: option.splits)

lemma admit_all_sel:
  assumes "admit_all members m b = (b', ds)" "distinct members" "\<forall>s \<in> set members. s < length (subscriptions b)"
  shows "length (subscriptions b') = length (subscriptions b) \<and> topics b' = topics b \<and>
    ds = map (\<lambda>s. (s, length (sb_tail (sub_at b s)))) (filter (\<lambda>s. sb_accepting (sub_at b s)) members) \<and>
    (\<forall>t < length (subscriptions b). sub_at b' t =
       (if t \<in> set members \<and> sb_accepting (sub_at b t)
        then (sub_at b t)\<lparr>sb_tail := sb_tail (sub_at b t) @ [\<lparr>dl_message = m, dl_status = Waiting\<rparr>]\<rparr>
        else sub_at b t))"
  using assms
proof (induction members arbitrary: b b' ds)
  case (Cons s members)
  show ?case
  proof (cases "sb_accepting (sub_at b s)")
    case True
    obtain b1 ds1 where r: "admit_all members m (admit s m b) = (b1, ds1)" by fastforce
    have eq: "b' = b1" "ds = (s, length (sb_tail (sub_at b s))) # ds1" using Cons.prems(1) True r by auto
    note ih = Cons.IH [OF r]
    have same: "sub_at (admit s m b) t = sub_at b t" if "t \<in> set members" for t
      using that Cons.prems(2,3) by (auto simp: admit_def)
    have f: "filter (\<lambda>t. sb_accepting (sub_at (admit s m b) t)) members = filter (\<lambda>t. sb_accepting (sub_at b t)) members"
      by (intro filter_cong) (auto simp: same)
    have g: "map (\<lambda>t. (t, length (sb_tail (sub_at (admit s m b) t)))) ts = map (\<lambda>t. (t, length (sb_tail (sub_at b t)))) ts"
      if "set ts \<subseteq> set members" for ts
      using that by (auto simp: same)
    have "set (filter (\<lambda>t. sb_accepting (sub_at b t)) members) \<subseteq> set members" by auto
    note g = g [OF this]
    have d: "distinct members" "\<forall>t \<in> set members. t < length (subscriptions (admit s m b))"
      using Cons.prems(2,3) by (auto simp: admit_def)
    show ?thesis
      using ih [OF d] Cons.prems(2,3) True unfolding f g eq by (auto simp: admit_def)
  qed (use Cons in auto)
qed simp

section \<open>Topics\<close>

definition members_of :: "broker \<Rightarrow> jsstr \<Rightarrow> nat list" where
  "members_of b topic = (case map_get (topics b) topic of None \<Rightarrow> [] | Some ms \<Rightarrow> ms)"

definition accepts :: "broker \<Rightarrow> jsstr \<Rightarrow> nat \<Rightarrow> bool" where
  "accepts b topic s \<longleftrightarrow> sb_accepting (sub_at b s) \<and> sb_topic (sub_at b s) = topic"

text \<open>The members of a topic are its accepting subscriptions, in the order of their creation.\<close>

definition topics_ok :: "broker \<Rightarrow> bool" where
  "topics_ok b \<longleftrightarrow> (\<forall>topic. members_of b topic = filter (accepts b topic) [0..<length (subscriptions b)])"

lemma topics_okD:
  assumes "topics_ok b"
  shows "members_of b topic = filter (accepts b topic) [0..<length (subscriptions b)]"
    "map_get (topics b) topic = Some ms \<Longrightarrow>
       ms = filter (accepts b topic) [0..<length (subscriptions b)]"
  using assms by (auto simp: topics_ok_def members_of_def split: option.splits)

text \<open>A change that keeps topic and acceptance of every subscription keeps the topics.\<close>

lemma topics_ok_cong:
  assumes "topics_ok b" "topics b' = topics b" "length (subscriptions b') = length (subscriptions b)"
    and "\<forall>t < length (subscriptions b). sb_accepting (sub_at b' t) = sb_accepting (sub_at b t) \<and>
      sb_topic (sub_at b' t) = sb_topic (sub_at b t)"
  shows "topics_ok b'"
proof -
  have "filter (accepts b' topic) [0..<length (subscriptions b)] = filter (accepts b topic) [0..<length (subscriptions b)]" for topic
    using assms(4) by (intro filter_cong) (auto simp: accepts_def)
  then show ?thesis using assms(1-3) by (simp add: topics_ok_def members_of_def)
qed

lemma members_set:
  "members_of (x\<lparr>topics := map_set topic ms (topics b)\<rparr>) t = (if t = topic then ms else members_of b t)"
  "members_of (x\<lparr>topics := map_delete topic (topics b)\<rparr>) t = (if t = topic then [] else members_of b t)"
  by (auto simp: members_of_def)

lemma remove_members:
  assumes "topics_ok b" "s < length (subscriptions b)" "sb_accepting (sub_at b s)"
  shows "members_of (remove s b) topic = filter (\<lambda>m. m \<noteq> s) (members_of b topic)"
proof -
  let ?t = "sb_topic (sub_at b s)" and ?b = "change s (\<lambda>x. x\<lparr>sb_accepting := False\<rparr>) b"
  have m: "s \<in> set (members_of b ?t)" using assms by (auto simp: topics_okD(1) accepts_def)
  then obtain ms where ms: "map_get (topics b) ?t = Some ms" "members_of b ?t = ms"
    by (cases "map_get (topics b) ?t") (auto simp: members_of_def)
  have other: "filter (\<lambda>m. m \<noteq> s) (members_of b topic) = members_of b topic" if "topic \<noteq> ?t"
    using that assms(1) by (intro filter_True) (auto simp: topics_okD(1) accepts_def)
  have "members_of ?b t = members_of b t" for t by (simp add: members_of_def)
  moreover have "remove s b = ?b\<lparr>topics := if filter (\<lambda>m. m \<noteq> s) ms = [] then map_delete ?t (topics ?b)
      else map_set ?t (filter (\<lambda>m. m \<noteq> s) ms) (topics ?b)\<rparr>"
    using assms(3) ms by (simp add: remove_def Let_def)
  ultimately show ?thesis using ms(2) other by (auto simp: members_set)
qed

lemma remove_topics:
  assumes "topics_ok b" "s < length (subscriptions b)"
  shows "topics_ok (remove s b)"
proof (cases "sb_accepting (sub_at b s)")
  case True
  have "filter (\<lambda>m. m \<noteq> s) (filter (accepts b topic) [0..<length (subscriptions b)]) =
      filter (accepts (remove s b) topic) [0..<length (subscriptions b)]" for topic
    using assms(2) by (auto simp: accepts_def intro!: filter_cong split: if_splits)
  then show ?thesis
    using remove_members [OF assms True] topics_okD(1) [OF assms(1)] by (simp add: topics_ok_def)
qed (use assms in \<open>simp add: remove_def\<close>)

lemma subscribe_cases:
  assumes "subscribe w c topic opts b = (b', res)"
  shows "(\<exists>e. res = Inl e \<and> b' = b) \<or>
    (res = Inr (length (subscriptions b)) \<and>
     b' = \<lparr>subscriptions = subscriptions b @ [\<lparr>sb_topic = topic, sb_accepting = True, sb_tail = [], sb_calls = [],
             sb_draining = False, sb_terminal = None\<rparr>],
           topics = map_set topic (members_of b topic @ [length (subscriptions b)]) (topics b)\<rparr>)"
  using assms
  by (auto simp: subscribe_def brokerTopic_def Let_def members_of_def bindE_def split: sum.splits if_splits)

lemma subscribe_topics:
  assumes "topics_ok b" "subscribe w c topic opts b = (b', res)"
  shows "topics_ok b'"
proof -
  let ?n = "length (subscriptions b)"
  consider "b' = b" | (new) "b' = \<lparr>subscriptions = subscriptions b @ [\<lparr>sb_topic = topic, sb_accepting = True, sb_tail = [],
        sb_calls = [], sb_draining = False, sb_terminal = None\<rparr>],
      topics = map_set topic (members_of b topic @ [?n]) (topics b)\<rparr>"
    using subscribe_cases [OF assms(2)] by blast
  then show ?thesis
  proof cases
    case new
    have "filter (accepts b' t) [0..<?n] = filter (accepts b t) [0..<?n]" for t
      using new by (intro filter_cong) (auto simp: accepts_def nth_append)
    moreover have "accepts b' t ?n \<longleftrightarrow> t = topic" for t using new by (auto simp: accepts_def)
    moreover have "members_of b' t = (if t = topic then members_of b topic @ [?n] else members_of b t)" for t
      using new by (auto simp: members_of_def)
    ultimately show ?thesis using topics_okD(1) [OF assms(1)] new by (auto simp: topics_ok_def)
  qed (use assms in simp)
qed

lemma prepare_headers_eq: "prepare_headers target hs = Inr out \<Longrightarrow> out = target @ hs"
  by (induction target hs rule: prepare_headers.induct) (auto simp: defineHeader_def split: if_splits)

lemma prepareMessage_eq: "prepareMessage m = Inr m' \<Longrightarrow> m' = m"
  by (auto simp: prepareMessage_def js_res dest: prepare_headers_eq)

lemma deliveryMessage_eq [simp]: "deliveryMessage m = m"
proof -
  have "fold (\<lambda>(name, v). defineHeader name v) hs t = t @ hs" for hs t
    by (induction hs arbitrary: t) (auto simp: defineHeader_def)
  then show ?thesis by (cases m) (simp add: deliveryMessage_def)
qed

lemma publish_admits:
  assumes "publish w c topic m opts b = (b', res)"
  shows "(\<exists>e. res = Inl e \<and> b' = b) \<or>
    (b', res) = (case map_get (topics b) topic of
       None \<Rightarrow> (b, Inr [])
     | Some members \<Rightarrow> (case admit_all members m b of (b', ds) \<Rightarrow> (b', Inr ds)))"
proof (cases "bindE (checkContext w c) (\<lambda>_. bindE (brokerTopic topic) (\<lambda>t. bindE (prepareMessage m) (\<lambda>p.
    if opts then Inl (TypeError ''Memory Broker publish options are not supported'') else Inr (t, p))))")
  case (Inl e)
  then show ?thesis using assms by (auto simp: publish_def)
next
  case (Inr y)
  then have "y = (topic, m)"
    by (auto simp: js_res brokerTopic_def dest!: prepareMessage_eq split: if_splits)
  then show ?thesis using assms Inr unfolding publish_def by (simp split: option.split prod.split)
qed

text \<open>A publish that is admitted chains the message on every subscription the topic has, and on no other.\<close>

lemma publish_cases:
  assumes "topics_ok b" "publish w c topic m opts b = (b', res)"
  shows "(\<exists>e. res = Inl e \<and> b' = b) \<or>
    (res = Inr (map (\<lambda>s. (s, length (sb_tail (sub_at b s)))) (members_of b topic)) \<and>
     length (subscriptions b') = length (subscriptions b) \<and> topics b' = topics b \<and>
     (\<forall>t < length (subscriptions b). sub_at b' t =
       (if accepts b topic t then (sub_at b t)\<lparr>sb_tail := sb_tail (sub_at b t) @ [\<lparr>dl_message = m, dl_status = Waiting\<rparr>]\<rparr>
        else sub_at b t)))"
proof -
  consider e where "res = Inl e" "b' = b" | (none) "map_get (topics b) topic = None" "res = Inr []" "b' = b"
    | (some) ms ds where "map_get (topics b) topic = Some ms" "admit_all ms m b = (b', ds)" "res = Inr ds"
    using publish_admits [OF assms(2)]
    by (cases "map_get (topics b) topic") (auto split: prod.splits)
  then show ?thesis
  proof cases
    case none
    have "\<not> accepts b topic t" if "t < length (subscriptions b)" for t
    proof
      assume "accepts b topic t"
      then have "t \<in> set (members_of b topic)" using that by (simp add: topics_okD(1) [OF assms(1)])
      then show False using none by (simp add: members_of_def)
    qed
    then show ?thesis using none by (simp add: members_of_def)
  next
    case some
    have ms: "ms = filter (accepts b topic) [0..<length (subscriptions b)]" using topics_okD(2) [OF assms(1) some(1)] .
    then have f: "filter (\<lambda>s. sb_accepting (sub_at b s)) ms = ms" by (intro filter_True) (auto simp: accepts_def)
    have "t \<in> set ms \<and> sb_accepting (sub_at b t) \<longleftrightarrow> accepts b topic t" if "t < length (subscriptions b)" for t
      using that ms by (auto simp: accepts_def)
    moreover have "distinct ms" "\<forall>t \<in> set ms. t < length (subscriptions b)" unfolding ms by auto
    note a = admit_all_sel [OF some(2) this, unfolded f]
    moreover have "members_of b topic = ms" using some(1) by (simp add: members_of_def)
    ultimately show ?thesis using some(3) by simp
  qed blast
qed

section \<open>Steps of the broker\<close>

text \<open>Every step keeps the topics and is a step of at most the subscriptions that exist.\<close>

lemma broker_step_sub:
  assumes "broker_step b b'" "topics_ok b"
  shows "topics_ok b' \<and> length (subscriptions b) \<le> length (subscriptions b') \<and>
    (\<forall>s < length (subscriptions b). sub_step\<^sup>=\<^sup>= (sub_at b s) (sub_at b' s)) \<and>
    (\<forall>s < length (subscriptions b'). length (subscriptions b) \<le> s \<longrightarrow>
       (\<exists>t. sub_at b' s = \<lparr>sb_topic = t, sb_accepting = True, sb_tail = [], sb_calls = [], sb_draining = False, sb_terminal = None\<rparr>))"
  using assms
proof (induction rule: broker_step.induct)
  case (step_publish w c topic m opts b b' res)
  then show ?case
    using publish_cases [OF step_publish(2,1)] sub_admit [of "sub_at b s" m for s]
    by (auto simp: accepts_def intro!: topics_ok_cong [of b b'] split: if_splits)
next
  case (step_subscribe w c topic opts b b' res)
  then show ?case
    using subscribe_cases [OF step_subscribe(1)] subscribe_topics [OF step_subscribe(2,1)]
    by (auto simp: nth_append)
next
  case (step_unsubscribe s b)
  have "topics_ok (change s (\<lambda>x. x\<lparr>sb_draining := True\<rparr>) (remove s b))"
    by (rule topics_ok_cong [OF remove_topics [OF step_unsubscribe(2,1)]]) auto
  then show ?case using step_unsubscribe sub_drain [of "sub_at b s"] by (auto simp: beginDrain_def)
next
  case (step_call s b i)
  have "topics_ok (call_handler s i b)"
    by (rule topics_ok_cong [OF step_call(5)]) (auto simp: call_handler_def)
  then show ?case using step_call sub_call [of i "sub_at b s"] by (auto simp: call_handler_def before_def pred_status_def)
next
  case (step_skip s b i e)
  have "topics_ok (skip_delivery s i e b)"
    by (rule topics_ok_cong [OF step_skip(5)]) (auto simp: skip_delivery_def)
  then show ?case using step_skip sub_skip [of i "sub_at b s" e] by (auto simp: skip_delivery_def before_def pred_status_def)
next
  case (step_returns s b i)
  have "topics_ok (handler_returns s i b)"
    by (rule topics_ok_cong [OF step_returns(4)]) (auto simp: handler_returns_def)
  then show ?case using step_returns sub_returns [of i "sub_at b s"] by (auto simp: handler_returns_def)
next
  case (step_throws s b i v)
  have "topics_ok (handler_throws s i v b)"
    by (rule topics_ok_cong [OF remove_topics [OF step_throws(4,1)]]) (auto simp: handler_throws_def Let_def)
  then show ?case
    using step_throws sub_throws [of i "sub_at b s" "handlerFailure v"] by (auto simp: handler_throws_def Let_def)
next
  case (step_drained s b result)
  have "topics_ok (drain_settles s result b)"
    by (rule topics_ok_cong [OF step_drained(4)]) (auto simp: drain_settles_def)
  then show ?case using step_drained sub_drained [of "sub_at b s" result] by (auto simp: drain_settles_def)
qed

section \<open>Invariants of a subscription\<close>

abbreviation st_at :: "subscription \<Rightarrow> nat \<Rightarrow> delivery_status" where
  "st_at x i \<equiv> dl_status (sb_tail x ! i)"

text \<open>The first \<open>n\<close> deliveries have called the handler; all but the last of them are fulfilled.\<close>

definition progress :: "subscription \<Rightarrow> nat \<Rightarrow> bool" where
  "progress x n \<longleftrightarrow> n \<le> length (sb_tail x) \<and> sb_calls x = map dl_message (take n (sb_tail x)) \<and>
     (\<forall>i. Suc i < n \<longrightarrow> st_at x i = Fulfilled) \<and>
     (0 < n \<longrightarrow> st_at x (n - 1) = Started \<or> st_at x (n - 1) = Fulfilled \<or> (\<exists>e. st_at x (n - 1) = Failed e)) \<and>
     (\<forall>i. n \<le> i \<and> i < length (sb_tail x) \<longrightarrow>
        st_at x i = Waiting \<or> (\<exists>e. 0 < n \<and> st_at x i = Skipped e \<and> st_at x (n - 1) = Failed e))"

lemma progress_messages:
  assumes "length (sb_tail x') = length (sb_tail x)" "\<forall>i < length (sb_tail x). dl_message (sb_tail x' ! i) = dl_message (sb_tail x ! i)"
  shows "map dl_message (take n (sb_tail x')) = map dl_message (take n (sb_tail x))"
  using assms by (intro nth_equalityI) auto

lemma progress_next:
  assumes "progress x n" "i < length (sb_tail x)" "st_at x i = Waiting" "pred_status x i = Fulfilled"
  shows "i = n"
proof (rule ccontr)
  assume "i \<noteq> n"
  then consider "Suc i < n" | "Suc i = n" | "n \<le> i - 1" "i \<noteq> 0" by linarith
  then show False
  proof cases
    case 3
    then have "st_at x (i - 1) = Waiting \<or> (\<exists>e. st_at x (i - 1) = Skipped e)" using assms(1,2) by (auto simp: progress_def)
    then show False using assms(4) 3 by (auto simp: pred_status_def)
  qed (use assms(1,3) in \<open>auto simp: progress_def\<close>)
qed

lemma progress_started:
  assumes "progress x n" "i < length (sb_tail x)" "st_at x i = Started"
  shows "n = Suc i"
proof (rule ccontr)
  assume "n \<noteq> Suc i"
  then consider "Suc i < n" | "n \<le> i" by linarith
  then show False using assms by cases (auto simp: progress_def)
qed

lemma progress_step:
  assumes "sub_step x x'" "progress x n"
  shows "progress x' n \<or> progress x' (Suc n)"
  using assms(1)
proof (cases rule: sub_step.cases)
  case (sub_admit m)
  then have "progress x' n" using assms(2) by (auto simp: progress_def nth_append less_Suc_eq)
  then show ?thesis ..
next
  case sub_drain
  then show ?thesis using assms(2) by (simp add: progress_def)
next
  case (sub_call i)
  have n: "i = n" using progress_next [OF assms(2) sub_call(2-4)] .
  let ?x = "x\<lparr>sb_calls := sb_calls x @ [dl_message (sb_tail x ! i)]\<rparr>"
  have t: "map dl_message (take k (sb_tail x')) = map dl_message (take k (sb_tail x))" for k
    using sub_call by (intro progress_messages) (auto simp: set_status_def nth_update_if)
  have f: "st_at x (n - 1) = Fulfilled" if "0 < n" using that sub_call(4) n by (simp add: pred_status_def)
  have "st_at x j = Waiting" if "n \<le> j" "j < length (sb_tail x)" for j
    using assms(2) that f by (fastforce simp: progress_def)
  moreover have "st_at x j = Fulfilled" if "j < n" for j
    using assms(2) that f by (cases "Suc j = n") (auto simp: progress_def)
  ultimately have "progress x' (Suc n)"
    using assms(2) sub_call n t [of "Suc n"]
    by (auto simp: progress_def take_Suc_conv_app_nth)
  then show ?thesis ..
next
  case (sub_skip i e)
  have t: "map dl_message (take n (sb_tail x')) = map dl_message (take n (sb_tail x))"
    using sub_skip by (intro progress_messages) (auto simp: set_status_def nth_update_if)
  have n: "n \<le> i"
  proof (rule ccontr)
    assume "\<not> n \<le> i"
    then consider "Suc i < n" | "Suc i = n" by linarith
    then show False using assms(2) sub_skip(3) by cases (auto simp: progress_def)
  qed
  have "0 < n \<and> st_at x (n - 1) = Failed e"
  proof (cases "i = n")
    case True
    then show ?thesis
      using sub_skip(4) assms(2) by (auto simp: pred_status_def failure_of_def progress_def split: if_splits delivery_status.splits)
  next
    case False
    then have "n \<le> i - 1" "i - 1 < length (sb_tail x)" "i \<noteq> 0" using n sub_skip(2) by auto
    then show ?thesis
      using sub_skip(4) assms(2) by (fastforce simp: pred_status_def failure_of_def progress_def)
  qed
  then have "progress x' n" using assms(2) sub_skip(1,2) n t by (auto simp: progress_def)
  then show ?thesis ..
next
  case (sub_returns i)
  have n: "n = Suc i" using progress_started [OF assms(2) sub_returns(2,3)] .
  have t: "map dl_message (take n (sb_tail x')) = map dl_message (take n (sb_tail x))"
    using sub_returns by (intro progress_messages) (auto simp: set_status_def nth_update_if)
  have "progress x' n" using assms(2) sub_returns n t by (auto simp: progress_def)
  then show ?thesis ..
next
  case (sub_throws i e)
  have n: "n = Suc i" using progress_started [OF assms(2) sub_throws(2,3)] .
  have t: "map dl_message (take n (sb_tail x')) = map dl_message (take n (sb_tail x))"
    using sub_throws by (intro progress_messages) (auto simp: set_status_def nth_update_if)
  have "progress x' n" using assms(2) sub_throws n t by (auto simp: progress_def)
  then show ?thesis ..
next
  case (sub_drained result)
  then show ?thesis using assms(2) by (simp add: progress_def)
qed

text \<open>The terminal promise: rejected exactly by a failed delivery, resolved only by a complete drain.\<close>

definition terminal_ok :: "subscription \<Rightarrow> bool" where
  "terminal_ok x \<longleftrightarrow>
     (sb_draining x \<or> sb_terminal x \<noteq> None \<longrightarrow> \<not> sb_accepting x) \<and>
     (\<forall>i < length (sb_tail x). \<forall>e. st_at x i = Failed e \<longrightarrow> sb_terminal x = Some (Some e)) \<and>
     (\<forall>e. sb_terminal x = Some (Some e) \<longrightarrow> (\<exists>i < length (sb_tail x). st_at x i = Failed e)) \<and>
     (sb_terminal x = Some None \<longrightarrow> sb_draining x \<and> (\<forall>i < length (sb_tail x). st_at x i = Fulfilled))"

lemma terminal_okD:
  assumes "terminal_ok x"
  shows "sb_draining x \<or> sb_terminal x \<noteq> None \<Longrightarrow> \<not> sb_accepting x"
    "i < length (sb_tail x) \<Longrightarrow> st_at x i = Failed e \<Longrightarrow> sb_terminal x = Some (Some e)"
    "sb_terminal x = Some (Some e) \<Longrightarrow> \<exists>i < length (sb_tail x). st_at x i = Failed e"
    "sb_terminal x = Some None \<Longrightarrow> sb_draining x" "sb_terminal x = Some None \<Longrightarrow> i < length (sb_tail x) \<Longrightarrow> st_at x i = Fulfilled"
  using assms unfolding terminal_ok_def by blast+

lemma terminal_set_status:
  assumes "terminal_ok x" "i < length (sb_tail x)" "st_at x i = Waiting \<or> st_at x i = Started" "\<forall>e. st \<noteq> Failed e"
    and "x' = set_status i st (x\<lparr>sb_calls := calls\<rparr>)"
  shows "terminal_ok x'"
proof -
  have st: "st_at x' j = (if j = i then st else st_at x j)" if "j < length (sb_tail x)" for j
    using that by (simp add: assms(5))
  have len: "length (sb_tail x') = length (sb_tail x)" by (simp add: assms(5))
  have keep: "sb_terminal x' = sb_terminal x" "sb_draining x' = sb_draining x" "sb_accepting x' = sb_accepting x"
    by (simp_all add: assms(5))
  have nn: "sb_terminal x \<noteq> Some None" using terminal_okD(5) [OF assms(1) _ assms(2)] assms(3) by auto
  show ?thesis
    unfolding terminal_ok_def keep len
  proof (intro conjI allI impI)
    show "\<not> sb_accepting x" if "sb_draining x \<or> sb_terminal x \<noteq> None" using terminal_okD(1) [OF assms(1) that] .
    show "sb_terminal x = Some (Some e)" if "j < length (sb_tail x)" "st_at x' j = Failed e" for j e
      using that st [OF that(1)] assms(4) terminal_okD(2) [OF assms(1) that(1)] by (auto split: if_splits)
    show "\<exists>j < length (sb_tail x). st_at x' j = Failed e" if t: "sb_terminal x = Some (Some e)" for e
    proof -
      obtain j where j: "j < length (sb_tail x)" "st_at x j = Failed e" using terminal_okD(3) [OF assms(1) t] by blast
      then have "j \<noteq> i" using assms(3) by auto
      then show ?thesis using j st by auto
    qed
  qed (use nn in simp_all)
qed

lemma tail_result_cases:
  assumes "progress x n" "tail_result x = Some result"
  shows "case result of None \<Rightarrow> \<forall>i < length (sb_tail x). st_at x i = Fulfilled
    | Some e \<Rightarrow> \<exists>i < length (sb_tail x). st_at x i = Failed e"
proof (cases "sb_tail x = []")
  case True
  then show ?thesis using assms(2) by (auto simp: tail_result_def)
next
  case False
  let ?l = "length (sb_tail x) - 1"
  have l: "?l < length (sb_tail x)" "dl_status (last (sb_tail x)) = st_at x ?l" using False by (auto simp: last_conv_nth)
  then have r: "\<not> is_open (st_at x ?l)" "result = failure_of (st_at x ?l)"
    using assms(2) False by (auto simp: tail_result_def Let_def split: if_splits)
  have n: "n \<le> length (sb_tail x)" using assms(1) by (simp add: progress_def)
  show ?thesis
  proof (cases "st_at x ?l")
    case Fulfilled
    then have "n = length (sb_tail x)" using assms(1) l n by (cases "n \<le> ?l") (auto simp: progress_def)
    then have "st_at x i = Fulfilled" if "i < length (sb_tail x)" for i
    proof (cases "i = ?l")
      case False
      then have "Suc i < n" using that \<open>n = length (sb_tail x)\<close> by linarith
      then show ?thesis using assms(1) by (simp add: progress_def)
    qed (use Fulfilled in simp)
    then show ?thesis using r(2) Fulfilled by (simp add: failure_of_def)
  next
    case (Skipped e)
    have "n \<le> ?l"
    proof (rule ccontr)
      assume "\<not> n \<le> ?l"
      then have "n = Suc ?l" using n by linarith
      then show False using assms(1) Skipped by (auto simp: progress_def)
    qed
    then have "0 < n \<and> st_at x (n - 1) = Failed e" using assms(1) l(1) Skipped by (fastforce simp: progress_def)
    then show ?thesis using r(2) Skipped n by (auto simp: failure_of_def intro!: exI [of _ "n - 1"])
  qed (use r l in \<open>auto simp: is_open_def failure_of_def\<close>)
qed

lemma terminal_step:
  assumes "sub_step x x'" "terminal_ok x" "progress x n"
  shows "terminal_ok x'"
  using assms(1)
proof (cases rule: sub_step.cases)
  case (sub_admit m)
  then have "\<not> (sb_draining x \<or> sb_terminal x \<noteq> None)" using terminal_okD(1) [OF assms(2)] by blast
  then have none: "\<not> sb_draining x" "sb_terminal x = None" by blast+
  have "st_at x' i \<noteq> Failed e" if "i < length (sb_tail x')" for i e
    using that sub_admit(1) none(2) terminal_okD(2) [OF assms(2), of i e] by (auto simp: nth_append)
  then show ?thesis using sub_admit none unfolding terminal_ok_def by simp
next
  case sub_drain
  then show ?thesis using assms(2) by (simp add: terminal_ok_def)
next
  case (sub_call i)
  then show ?thesis using terminal_set_status [OF assms(2) sub_call(2)] by auto
next
  case (sub_skip i e)
  then show ?thesis using terminal_set_status [OF assms(2) sub_skip(2), of "Skipped e" x' "sb_calls x"] by auto
next
  case (sub_returns i)
  then show ?thesis using terminal_set_status [OF assms(2) sub_returns(2), of Fulfilled x' "sb_calls x"] by auto
next
  case (sub_throws i e)
  have n: "n = Suc i" using progress_started [OF assms(3) sub_throws(2,3)] .
  have none: "st_at x j \<noteq> Failed f" if "j < length (sb_tail x)" for j f
  proof
    assume j: "st_at x j = Failed f"
    consider "Suc j < n" | "j = i" | "n \<le> j" using n by linarith
    then show False using assms(3) j sub_throws(3) that n by cases (auto simp: progress_def)
  qed
  have "sb_terminal x \<noteq> Some None" using terminal_okD(5) [OF assms(2) _ sub_throws(2)] sub_throws(3) by auto
  moreover have "sb_terminal x \<noteq> Some (Some f)" for f using terminal_okD(3) [OF assms(2), of f] none by blast
  ultimately have "sb_terminal x = None" by (cases "sb_terminal x") auto
  then show ?thesis using none sub_throws(1,2) by (auto simp: terminal_ok_def split: if_splits)
next
  case (sub_drained result)
  note c = tail_result_cases [OF assms(3) sub_drained(3)]
  show ?thesis
  proof (cases "sb_terminal x")
    case None
    have "\<not> (\<exists>i < length (sb_tail x). \<exists>e. st_at x i = Failed e)" using terminal_okD(2) [OF assms(2)] None by force
    then have "result = None" using c by (cases result) auto
    then show ?thesis using None c sub_drained(1,2) terminal_okD(1) [OF assms(2)] by (auto simp: terminal_ok_def)
  next
    case (Some r)
    then show ?thesis using assms(2) sub_drained(1) by (simp add: settle_def)
  qed
qed

definition sub_ok :: "subscription \<Rightarrow> bool" where
  "sub_ok x \<longleftrightarrow> (\<exists>n. progress x n) \<and> terminal_ok x"

lemma sub_step_ok: "sub_step x x' \<Longrightarrow> sub_ok x \<Longrightarrow> sub_ok x'"
  using progress_step terminal_step by (metis sub_ok_def)

lemma new_sub_ok:
  "sub_ok \<lparr>sb_topic = t, sb_accepting = True, sb_tail = [], sb_calls = [], sb_draining = False, sb_terminal = None\<rparr>"
  by (simp add: sub_ok_def progress_def terminal_ok_def)

definition broker_ok :: "broker \<Rightarrow> bool" where
  "broker_ok b \<longleftrightarrow> topics_ok b \<and> (\<forall>s < length (subscriptions b). sub_ok (sub_at b s))"

lemma broker_step_ok:
  assumes "broker_step b b'" "broker_ok b"
  shows "broker_ok b'"
proof -
  have t: "topics_ok b" using assms(2) by (simp add: broker_ok_def)
  note r = broker_step_sub [OF assms(1) t]
  have "sub_ok (sub_at b' s)" if "s < length (subscriptions b')" for s
  proof (cases "s < length (subscriptions b)")
    case True
    then have "sub_ok (sub_at b s)" "sub_step\<^sup>=\<^sup>= (sub_at b s) (sub_at b' s)" using r assms(2) by (auto simp: broker_ok_def)
    then show ?thesis using sub_step_ok by force
  next
    case False
    then show ?thesis using r that new_sub_ok by (metis not_le)
  qed
  then show ?thesis using r by (simp add: broker_ok_def)
qed

lemma broker_reach_ok: "broker_reach b \<Longrightarrow> broker_ok b"
proof (induction rule: rtranclp_induct)
  case base
  show ?case by (simp add: newMemoryBroker_def broker_ok_def topics_ok_def members_of_def)
qed (rule broker_step_ok)

lemma broker_run_sub:
  assumes "broker_step\<^sup>*\<^sup>* b b'" "broker_ok b"
  shows "broker_ok b' \<and> length (subscriptions b) \<le> length (subscriptions b') \<and>
    (\<forall>s < length (subscriptions b). sub_step\<^sup>*\<^sup>* (sub_at b s) (sub_at b' s))"
  using assms(1)
proof (induction rule: rtranclp_induct)
  case (step b1 b2)
  then have "topics_ok b1" by (simp add: broker_ok_def)
  note r = broker_step_sub [OF step.hyps(2) this]
  have "sub_step\<^sup>*\<^sup>* (sub_at b s) (sub_at b2 s)" if "s < length (subscriptions b)" for s
  proof -
    have "sub_step\<^sup>*\<^sup>* (sub_at b s) (sub_at b1 s)" "sub_step\<^sup>=\<^sup>= (sub_at b1 s) (sub_at b2 s)"
      using that step.IH r by auto
    then show ?thesis by (auto intro: rtranclp.rtrancl_into_rtrancl)
  qed
  then show ?case using step.IH r broker_step_ok [OF step.hyps(2)] by auto
qed (use assms(2) in simp)

section \<open>What callers may rely on\<close>

text \<open>Along a run no delivery is lost or changed, and calls and settled promises stay.\<close>

definition extends :: "subscription \<Rightarrow> subscription \<Rightarrow> bool" where
  "extends x x' \<longleftrightarrow>
     (\<exists>ms. map dl_message (sb_tail x') = map dl_message (sb_tail x) @ ms \<and> (\<not> sb_accepting x \<longrightarrow> ms = [])) \<and>
     (sb_accepting x' \<longrightarrow> sb_accepting x) \<and> (\<forall>r. sb_terminal x = Some r \<longrightarrow> sb_terminal x' = Some r)"

lemma messages_set_status [simp]: "map dl_message (sb_tail (set_status i st x)) = map dl_message (sb_tail x)"
  by (intro nth_equalityI) (auto simp: set_status_def nth_update_if)

lemma extends_step: "sub_step x x' \<Longrightarrow> extends x x'"
  by (induction rule: sub_step.induct) (simp_all add: extends_def split: option.split)

lemma extends_trans: "extends x y \<Longrightarrow> extends y z \<Longrightarrow> extends x z"
  by (auto simp: extends_def)

lemma extends_run: "sub_step\<^sup>*\<^sup>* x x' \<Longrightarrow> extends x x'"
proof (induction rule: rtranclp_induct)
  case base
  show ?case by (simp add: extends_def)
next
  case (step y z)
  show ?case by (rule extends_trans [OF step.IH extends_step [OF step.hyps(2)]])
qed

lemma settled_fulfilled: "settleDeliveries results = Some (Inr ()) \<Longrightarrow> st \<in> set results \<Longrightarrow> st = Fulfilled"
proof -
  assume r: "settleDeliveries results = Some (Inr ())" "st \<in> set results"
  then have "\<not> is_open st" "List.map_filter failure_of results = []"
    by (auto simp: settleDeliveries_def list_ex_iff split: if_splits list.splits)
  moreover from this(2) have "failure_of st = None"
    using r(2) by (auto simp: List.map_filter_def filter_empty_conv)
  ultimately show ?thesis by (cases st) (auto simp: is_open_def failure_of_def)
qed

text \<open>
  C16: a subscription calls its handler with the messages admitted to it, in the order of their
  publication and one at a time: the calls are a prefix of the admitted messages, all but the last of
  them have been fulfilled. After a call has failed the handler is never called again and every later
  delivery waits or is rejected with the same failure.
\<close>

theorem delivery_order:
  assumes "broker_reach b" "s < length (subscriptions b)"
  shows "\<exists>n \<le> length (sb_tail (sub_at b s)).
    sb_calls (sub_at b s) = map dl_message (take n (sb_tail (sub_at b s))) \<and>
    (\<forall>i. Suc i < n \<longrightarrow> status_at b s i = Fulfilled) \<and>
    (\<forall>i < length (sb_tail (sub_at b s)). \<forall>e. status_at b s i = Failed e \<longrightarrow> n = Suc i \<and>
       (\<forall>j < length (sb_tail (sub_at b s)). i < j \<longrightarrow> status_at b s j = Waiting \<or> status_at b s j = Skipped e)) \<and>
    (\<forall>i. n \<le> i \<and> i < length (sb_tail (sub_at b s)) \<longrightarrow> status_at b s i = Waiting \<or> (\<exists>e. status_at b s i = Skipped e))"
proof -
  obtain n where n: "progress (sub_at b s) n"
    using broker_reach_ok [OF assms(1)] assms(2) by (auto simp: broker_ok_def sub_ok_def)
  have "n = Suc i" if "i < length (sb_tail (sub_at b s))" "status_at b s i = Failed e" for i e
  proof (rule ccontr)
    assume "n \<noteq> Suc i"
    then consider "Suc i < n" | "n \<le> i" by linarith
    then show False using n that by cases (auto simp: progress_def)
  qed
  moreover have "status_at b s j = Waiting \<or> status_at b s j = Skipped e"
    if "i < length (sb_tail (sub_at b s))" "status_at b s i = Failed e" "j < length (sb_tail (sub_at b s))" "i < j"
      "n = Suc i" for i j e
    using n that unfolding progress_def by (metis Suc_leI delivery_status.inject(1) diff_Suc_1)
  ultimately show ?thesis using n unfolding progress_def by (intro exI [of _ n]) blast
qed

text \<open>
  C17: a publish that is admitted chains its message once on every subscription that accepts the topic
  at that time, in the order of the subscriptions, and touches no other; a rejected publish changes
  nothing. Whatever happens later, its promise resolves only when every one of these subscriptions has
  called its handler with this message and the call was fulfilled.
\<close>

theorem publish_delivers:
  fixes w :: "nat world"
  assumes "broker_reach b" "publish w c topic m opts b = (b1, res)" "broker_step\<^sup>*\<^sup>* b1 b2"
  shows "(\<exists>e. res = Inl e \<and> b1 = b) \<or>
    (\<exists>ds. res = Inr ds \<and> map fst ds = filter (accepts b topic) [0..<length (subscriptions b)] \<and>
       (\<forall>s < length (subscriptions b). map dl_message (sb_tail (sub_at b1 s)) =
          map dl_message (sb_tail (sub_at b s)) @ (if accepts b topic s then [m] else [])) \<and>
       (published ds b2 = Some (Inr ()) \<longrightarrow>
          (\<forall>(s, i) \<in> set ds. status_at b2 s i = Fulfilled \<and> i < length (sb_calls (sub_at b2 s)) \<and>
             sb_calls (sub_at b2 s) ! i = m)))"
proof -
  have ok: "broker_ok b" "topics_ok b" using broker_reach_ok [OF assms(1)] by (auto simp: broker_ok_def)
  let ?ms = "filter (accepts b topic) [0..<length (subscriptions b)]"
  let ?ds = "map (\<lambda>s. (s, length (sb_tail (sub_at b s)))) ?ms"
  consider e where "res = Inl e" "b1 = b" | (pub) "res = Inr ?ds" "length (subscriptions b1) = length (subscriptions b)"
      "\<forall>t < length (subscriptions b). sub_at b1 t =
        (if accepts b topic t then (sub_at b t)\<lparr>sb_tail := sb_tail (sub_at b t) @ [\<lparr>dl_message = m, dl_status = Waiting\<rparr>]\<rparr>
         else sub_at b t)"
    using publish_cases [OF ok(2) assms(2)] topics_okD(1) [OF ok(2), of topic] by auto
  then show ?thesis
  proof cases
    case pub
    have ok1: "broker_ok b1"
      by (rule broker_reach_ok, rule rtranclp.rtrancl_into_rtrancl [OF assms(1) step_publish [OF assms(2)]])
    note run = broker_run_sub [OF assms(3) ok1]
    have "status_at b2 s i = Fulfilled \<and> i < length (sb_calls (sub_at b2 s)) \<and> sb_calls (sub_at b2 s) ! i = m"
      if p: "published ?ds b2 = Some (Inr ())" and si: "(s, i) \<in> set ?ds" for s i
    proof -
      have s: "s < length (subscriptions b)" "accepts b topic s" "i = length (sb_tail (sub_at b s))" using si by auto
      have m1: "map dl_message (sb_tail (sub_at b1 s)) = map dl_message (sb_tail (sub_at b s)) @ [m]" using pub(3) s by simp
      have "extends (sub_at b1 s) (sub_at b2 s)" using run s(1) pub(2) extends_run by auto
      then obtain ms where m2: "map dl_message (sb_tail (sub_at b2 s)) = map dl_message (sb_tail (sub_at b s)) @ [m] @ ms"
        unfolding m1 extends_def by auto
      have i2: "i < length (sb_tail (sub_at b2 s))" using arg_cong [OF m2, of length] s(3) by simp
      have msg: "dl_message (sb_tail (sub_at b2 s) ! i) = m"
        using arg_cong [OF m2, of "\<lambda>xs. xs ! i"] i2 s(3) by (simp add: nth_append)
      have st: "status_at b2 s i = Fulfilled" using settled_fulfilled [OF p [unfolded published_def]] si by force
      have "sub_ok (sub_at b2 s)" using run s(1) pub(2) by (simp add: broker_ok_def)
      then obtain n where n: "progress (sub_at b2 s) n" by (auto simp: sub_ok_def)
      have "i < n" using n st i2 by (cases "n \<le> i") (auto simp: progress_def)
      moreover have "sb_calls (sub_at b2 s) = map dl_message (take n (sb_tail (sub_at b2 s)))" using n by (simp add: progress_def)
      ultimately show ?thesis using st i2 msg by simp
    qed
    then show ?thesis using pub by (intro disjI2 exI [of _ ?ds]) (auto simp: o_def)
  qed blast
qed

text \<open>
  C18: the terminal of a subscription settles at most once. It is rejected exactly with the failure of
  a failed delivery, and resolved only after an unsubscribe when every delivery has been fulfilled.
  After an unsubscribe or a failure no further message is ever admitted.
\<close>

theorem terminal_once:
  assumes "broker_reach b" "s < length (subscriptions b)" "broker_step\<^sup>*\<^sup>* b b'"
  shows "(\<forall>r. sb_terminal (sub_at b s) = Some r \<longrightarrow> sb_terminal (sub_at b' s) = Some r) \<and>
    (\<forall>e. sb_terminal (sub_at b s) = Some (Some e) \<longleftrightarrow>
       (\<exists>i < length (sb_tail (sub_at b s)). status_at b s i = Failed e)) \<and>
    (sb_terminal (sub_at b s) = Some None \<longrightarrow>
       sb_draining (sub_at b s) \<and> (\<forall>i < length (sb_tail (sub_at b s)). status_at b s i = Fulfilled)) \<and>
    (sb_draining (sub_at b s) \<or> sb_terminal (sub_at b s) \<noteq> None \<longrightarrow>
       map dl_message (sb_tail (sub_at b' s)) = map dl_message (sb_tail (sub_at b s)))"
proof -
  have ok: "broker_ok b" using broker_reach_ok [OF assms(1)] .
  have t: "terminal_ok (sub_at b s)" using ok assms(2) by (simp add: broker_ok_def sub_ok_def)
  have "sub_step\<^sup>*\<^sup>* (sub_at b s) (sub_at b' s)" using broker_run_sub [OF assms(3) ok] assms(2) by blast
  then have x: "extends (sub_at b s) (sub_at b' s)" by (rule extends_run)
  have "map dl_message (sb_tail (sub_at b' s)) = map dl_message (sb_tail (sub_at b s))"
    if "sb_draining (sub_at b s) \<or> sb_terminal (sub_at b s) \<noteq> None"
    using terminal_okD(1) [OF t that] x by (auto simp: extends_def)
  moreover have "\<forall>r. sb_terminal (sub_at b s) = Some r \<longrightarrow> sb_terminal (sub_at b' s) = Some r"
    using x by (simp add: extends_def)
  ultimately show ?thesis using terminal_okD(2-5) [OF t] by blast
qed

section \<open>A concrete broker\<close>

text \<open>Two subscriptions on one topic; a message is published, the first handler fails on it, the second returns.\<close>

definition demo_message :: message where
  "demo_message = \<lparr>ms_headers = [([104], [118])], ms_body = [1]\<rparr>"

definition broker1 :: broker where
  "broker1 = fst (subscribe (initial_world :: nat world) background [97] False newMemoryBroker)"

definition broker2 :: broker where
  "broker2 = fst (subscribe (initial_world :: nat world) background [97] False broker1)"

definition broker3 :: broker where
  "broker3 = fst (publish (initial_world :: nat world) background [97] demo_message False broker2)"

definition broker4 :: broker where
  "broker4 = handler_throws 0 0 R_Other (call_handler 0 0 broker3)"

lemmas broker_eval =
  subscribe_def publish_def checkContext_def contextFailure_def background_def initial_world_def newEmptyContext_def
  brokerTopic_def prepareMessage_def defineHeader_def demo_message_def is_high_def is_low_def newMemoryBroker_def change_def
  admit_def Let_def

abbreviation empty_subscription :: subscription where
  "empty_subscription \<equiv>
     \<lparr>sb_topic = [97], sb_accepting = True, sb_tail = [], sb_calls = [], sb_draining = False, sb_terminal = None\<rparr>"

lemma broker2_eq:
  "broker2 = \<lparr>subscriptions = [empty_subscription, empty_subscription], topics = [([97], [0, 1])]\<rparr>"
  by (simp add: broker2_def broker1_def broker_eval)

lemma broker3_run: "publish (initial_world :: nat world) background [97] demo_message False broker2 = (broker3, Inr [(0, 0), (1, 0)])"
  "sub_at broker3 0 = \<lparr>sb_topic = [97], sb_accepting = True, sb_tail = [\<lparr>dl_message = demo_message, dl_status = Waiting\<rparr>],
     sb_calls = [], sb_draining = False, sb_terminal = None\<rparr>" "length (subscriptions broker3) = 2"
  by (simp_all add: broker3_def broker2_eq broker_eval)

lemma broker_demo_reach: "broker_reach broker2" "broker_reach broker3" "broker_reach broker4"
proof -
  have 1: "broker_reach broker1"
    unfolding broker1_def by (rule r_into_rtranclp, rule step_subscribe [OF prod.collapse [symmetric]])
  have 2: "broker_reach broker2"
    unfolding broker2_def by (rule rtranclp.rtrancl_into_rtrancl [OF 1 step_subscribe [OF prod.collapse [symmetric]]])
  then show "broker_reach broker2" .
  show 3: "broker_reach broker3" by (rule rtranclp.rtrancl_into_rtrancl [OF 2 step_publish [OF broker3_run(1)]])
  have "broker_step broker3 (call_handler 0 0 broker3)"
    by (rule step_call) (simp_all add: broker3_run before_def)
  moreover have "broker_step (call_handler 0 0 broker3) broker4"
    unfolding broker4_def by (rule step_throws) (simp_all add: broker3_run call_handler_def)
  ultimately show "broker_reach broker4" using 3 by (meson rtranclp.rtrancl_into_rtrancl)
qed

lemma broker4_eq: "length (subscriptions broker4) = 2" "sb_calls (sub_at broker4 0) = [demo_message]"
  "map dl_status (sb_tail (sub_at broker4 0)) = [Failed (handlerFailure R_Other)]"
  "sb_terminal (sub_at broker4 0) = Some (Some (handlerFailure R_Other))"
  by (simp_all add: broker4_def broker3_run handler_throws_def call_handler_def Let_def set_status_def)

theorem delivery_order_witness:
  "\<exists>n \<le> 1. sb_calls (sub_at broker4 0) = map dl_message (take n (sb_tail (sub_at broker4 0))) \<and> n = 1"
proof -
  have l: "length (sb_tail (sub_at broker4 0)) = 1" "status_at broker4 0 0 = Failed (handlerFailure R_Other)"
    using broker4_eq(3) by (auto simp: map_eq_Cons_conv)
  show ?thesis
    using delivery_order [OF broker_demo_reach(3), of 0] broker4_eq(1) l by auto
qed

theorem publish_delivers_witness:
  "\<exists>ds. publish (initial_world :: nat world) background [97] demo_message False broker2 = (broker3, Inr ds) \<and> map fst ds = [0, 1]"
  using publish_delivers [OF broker_demo_reach(1) broker3_run(1) rtranclp.rtrancl_refl] broker3_run(1) by auto

theorem terminal_once_witness:
  "sb_terminal (sub_at broker4 0) = Some (Some (handlerFailure R_Other)) \<and>
   (\<exists>i < length (sb_tail (sub_at broker4 0)). status_at broker4 0 i = Failed (handlerFailure R_Other))"
  using terminal_once [OF broker_demo_reach(3) _ rtranclp.rtrancl_refl, of 0] broker4_eq(1,4) by auto

end
