(* ===== verification/Metadata.thy ===== *)
theory Metadata
  imports Js_String Context
begin

text \<open>
  \<open>packages/metadata/src/index.ts\<close>: immutable metadata snapshots and their transport through contexts.

  A snapshot is the list of its properties in enumeration order. \<open>Branded\<close> is a snapshot that this
  package made (a member of \<open>MetadataBrand\<close>), \<open>Plain\<close> a record of the caller. \<open>lower\<close> stands for
  \<open>String.prototype.toLowerCase\<close>, whose tables are not part of the model; \<open>lowercase\<close> states what the
  package relies on. The checks that an argument is a plain record of data properties, or a dense
  array, hold by the types.
\<close>

section \<open>Validation\<close>

type_synonym md = "(jsstr, jsstr list) jsmap"

datatype md_value = Single jsstr | Many "jsstr list"

type_synonym md_input = "(jsstr, md_value) jsmap"

datatype md_arg = Branded md | Plain md_input

definition lowercase :: "(jsstr \<Rightarrow> jsstr) \<Rightarrow> bool" where
  "lowercase lower \<longleftrightarrow> (\<forall>s. lower (lower s) = lower s) \<and> (\<forall>s. isWellFormed s \<longrightarrow> isWellFormed (lower s)) \<and>
     (\<forall>s. s \<noteq> [] \<longrightarrow> lower s \<noteq> [])"

definition normalizeKey :: "(jsstr \<Rightarrow> jsstr) \<Rightarrow> jsstr \<Rightarrow> jsstr res" where
  "normalizeKey lower v =
     (if length v = 0 \<or> \<not> isWellFormed v
      then Inl (TypeError ''metadata key must be a non-empty well-formed string'') else Inr (lower v))"

definition metadataValue :: "jsstr \<Rightarrow> jsstr res" where
  "metadataValue v =
     (if \<not> isWellFormed v then Inl (TypeError ''metadata value must be a well-formed string'') else Inr v)"

definition snapshotValues :: "md_value \<Rightarrow> jsstr list res" where
  "snapshotValues v =
     (case v of Single s \<Rightarrow> bindE (metadataValue s) (\<lambda>x. Inr [x]) | Many xs \<Rightarrow> mapE metadataValue xs)"

section \<open>Builders\<close>

definition updateBuilder :: "jsstr \<Rightarrow> jsstr list \<Rightarrow> bool \<Rightarrow> md \<Rightarrow> md" where
  "updateBuilder key vs replace b =
     map_set key ((if replace \<or> map_get b key = None then [] else the (map_get b key)) @ vs) b"

fun build :: "(jsstr \<Rightarrow> jsstr) \<Rightarrow> md_input \<Rightarrow> md \<Rightarrow> md res" where
  "build lower [] b = Inr b"
| "build lower ((rawKey, v) # es) b =
     bindE (normalizeKey lower rawKey) (\<lambda>k. bindE (snapshotValues v) (\<lambda>vs.
     build lower es (updateBuilder k vs False b)))"

definition builderFromInput :: "(jsstr \<Rightarrow> jsstr) \<Rightarrow> md_input \<Rightarrow> md res" where
  "builderFromInput lower input = build lower input []"

definition freezeBuilder :: "md \<Rightarrow> md" where
  "freezeBuilder b = fromEntries (map (\<lambda>k. (k, the (map_get b k))) (sort (map_keys b)))"

definition newMetadata :: "(jsstr \<Rightarrow> jsstr) \<Rightarrow> md_input \<Rightarrow> md res" where
  "newMetadata lower input = bindE (builderFromInput lower input) (\<lambda>b. Inr (freezeBuilder b))"

definition validated :: "(jsstr \<Rightarrow> jsstr) \<Rightarrow> md_arg \<Rightarrow> md res" where
  "validated lower a = (case a of Branded m \<Rightarrow> Inr m | Plain i \<Rightarrow> newMetadata lower i)"

definition set_all :: "md \<Rightarrow> md \<Rightarrow> md" where
  "set_all m b = fold (\<lambda>(k, vs). updateBuilder k vs True) m b"

definition builderFromMetadata :: "(jsstr \<Rightarrow> jsstr) \<Rightarrow> md_arg \<Rightarrow> md res" where
  "builderFromMetadata lower a = bindE (validated lower a) (\<lambda>m. Inr (set_all m []))"

section \<open>Operations\<close>

definition clone :: "(jsstr \<Rightarrow> jsstr) \<Rightarrow> md_arg \<Rightarrow> md res" where
  "clone lower a =
     (case a of
        Branded m \<Rightarrow> Inr m
      | Plain i \<Rightarrow> bindE (builderFromMetadata lower a) (\<lambda>b. Inr (freezeBuilder b)))"

definition md_values :: "(jsstr \<Rightarrow> jsstr) \<Rightarrow> md_arg \<Rightarrow> jsstr \<Rightarrow> jsstr list res" where
  "md_values lower a key =
     bindE (validated lower a) (\<lambda>m. bindE (normalizeKey lower key) (\<lambda>name.
     Inr (case map_get m name of None \<Rightarrow> [] | Some vs \<Rightarrow> vs)))"

definition md_get :: "(jsstr \<Rightarrow> jsstr) \<Rightarrow> md_arg \<Rightarrow> jsstr \<Rightarrow> jsstr option res" where
  "md_get lower a key =
     bindE (md_values lower a key) (\<lambda>vs. Inr (case vs of [] \<Rightarrow> None | v # _ \<Rightarrow> Some v))"

definition md_keys :: "(jsstr \<Rightarrow> jsstr) \<Rightarrow> md_arg \<Rightarrow> jsstr list res" where
  "md_keys lower a = bindE (validated lower a) (\<lambda>m. Inr (map_keys m))"

definition md_append :: "(jsstr \<Rightarrow> jsstr) \<Rightarrow> md_arg \<Rightarrow> jsstr \<Rightarrow> md_value \<Rightarrow> md res" where
  "md_append lower a key v =
     bindE (builderFromMetadata lower a) (\<lambda>b. bindE (normalizeKey lower key) (\<lambda>k. bindE (snapshotValues v) (\<lambda>vs.
     Inr (freezeBuilder (updateBuilder k vs False b)))))"

definition md_set :: "(jsstr \<Rightarrow> jsstr) \<Rightarrow> md_arg \<Rightarrow> jsstr \<Rightarrow> jsstr \<Rightarrow> md res" where
  "md_set lower a key v =
     bindE (builderFromMetadata lower a) (\<lambda>b. bindE (normalizeKey lower key) (\<lambda>k. bindE (metadataValue v) (\<lambda>x.
     Inr (freezeBuilder (updateBuilder k [x] True b)))))"

definition md_remove :: "(jsstr \<Rightarrow> jsstr) \<Rightarrow> md_arg \<Rightarrow> jsstr \<Rightarrow> md res" where
  "md_remove lower a key =
     bindE (builderFromMetadata lower a) (\<lambda>b. bindE (normalizeKey lower key) (\<lambda>k.
     Inr (freezeBuilder (map_delete k b))))"

definition md_merge :: "(jsstr \<Rightarrow> jsstr) \<Rightarrow> md_arg \<Rightarrow> md_arg \<Rightarrow> md res" where
  "md_merge lower a patch =
     bindE (builderFromMetadata lower a) (\<lambda>b. bindE (validated lower patch) (\<lambda>p.
     Inr (freezeBuilder (set_all p b))))"

section \<open>Contexts\<close>

text \<open>A value in a Context: a snapshot of this package, or anything else.\<close>

datatype ctx_data = Stored md | Unbranded nat

definition clientContextKey :: ctx_key where
  "clientContextKey = K_User 0"

definition serverContextKey :: ctx_key where
  "serverContextKey = K_User 1"

definition contextMetadata :: "ctx_data world \<Rightarrow> ctx_data ctx \<Rightarrow> ctx_key \<Rightarrow> md option" where
  "contextMetadata w c key = (case resolveValue w c key of V_User (Stored m) \<Rightarrow> Some m | _ \<Rightarrow> None)"

definition newClientContext :: "(jsstr \<Rightarrow> jsstr) \<Rightarrow> ctx_data ctx \<Rightarrow> md_arg \<Rightarrow> ctx_data ctx res" where
  "newClientContext lower c a = bindE (clone lower a) (\<lambda>m. withValue c clientContextKey (V_User (Stored m)))"

definition fromClientContext :: "ctx_data world \<Rightarrow> ctx_data ctx \<Rightarrow> md option" where
  "fromClientContext w c = contextMetadata w c clientContextKey"

fun set_pairs :: "(jsstr \<Rightarrow> jsstr) \<Rightarrow> jsstr list \<Rightarrow> md \<Rightarrow> md res" where
  "set_pairs lower (k # v # rest) m =
     bindE (normalizeKey lower k) (\<lambda>k'. bindE (metadataValue v) (\<lambda>v'.
     bindE (md_set lower (Branded m) k' v') (\<lambda>m'. set_pairs lower rest m')))"
| "set_pairs lower _ m = Inr m"

definition client_or_new :: "(jsstr \<Rightarrow> jsstr) \<Rightarrow> ctx_data world \<Rightarrow> ctx_data ctx \<Rightarrow> md res" where
  "client_or_new lower w c = (case fromClientContext w c of Some m \<Rightarrow> Inr m | None \<Rightarrow> newMetadata lower [])"

definition appendToClientContext ::
    "(jsstr \<Rightarrow> jsstr) \<Rightarrow> ctx_data world \<Rightarrow> ctx_data ctx \<Rightarrow> jsstr list \<Rightarrow> ctx_data ctx res" where
  "appendToClientContext lower w c keyValues =
     (if length keyValues mod 2 \<noteq> 0 then Inl (TypeError ''appendToClientContext requires key/value pairs'')
      else bindE (client_or_new lower w c) (\<lambda>m. bindE (set_pairs lower keyValues m) (\<lambda>m'.
             newClientContext lower c (Branded m'))))"

definition mergeToClientContext ::
    "(jsstr \<Rightarrow> jsstr) \<Rightarrow> ctx_data world \<Rightarrow> ctx_data ctx \<Rightarrow> md_arg \<Rightarrow> ctx_data ctx res" where
  "mergeToClientContext lower w c patch =
     bindE (client_or_new lower w c) (\<lambda>m. bindE (md_merge lower (Branded m) patch) (\<lambda>m'.
     newClientContext lower c (Branded m')))"

definition newServerContext :: "(jsstr \<Rightarrow> jsstr) \<Rightarrow> ctx_data ctx \<Rightarrow> md_arg \<Rightarrow> ctx_data ctx res" where
  "newServerContext lower c a = bindE (clone lower a) (\<lambda>m. withValue c serverContextKey (V_User (Stored m)))"

definition fromServerContext :: "ctx_data world \<Rightarrow> ctx_data ctx \<Rightarrow> md option" where
  "fromServerContext w c = contextMetadata w c serverContextKey"

section \<open>Propagation\<close>

text \<open>The options record: its two lists, and its first property with another name.\<close>

record propagation_options =
  po_exact :: "jsstr list option"
  po_prefix :: "jsstr list option"
  po_unknown :: "string option"

record propagation_rules =
  pr_exact :: "jsstr set"
  pr_prefix :: "jsstr list"

definition propagationRule :: "(jsstr \<Rightarrow> jsstr) \<Rightarrow> string \<Rightarrow> jsstr \<Rightarrow> jsstr res" where
  "propagationRule lower kind v =
     (if length v = 0 \<or> \<not> isWellFormed v
      then Inl (TypeError (''metadata propagation '' @ kind @ '' rule must be a non-empty well-formed string''))
      else Inr (lower v))"

definition propagationRuleList :: "(jsstr \<Rightarrow> jsstr) \<Rightarrow> string \<Rightarrow> jsstr list option \<Rightarrow> jsstr list res" where
  "propagationRuleList lower kind v =
     (case v of None \<Rightarrow> Inr [] | Some xs \<Rightarrow> mapE (propagationRule lower kind) xs)"

definition propagationRules :: "(jsstr \<Rightarrow> jsstr) \<Rightarrow> propagation_options option \<Rightarrow> propagation_rules res" where
  "propagationRules lower options =
     (case options of
        None \<Rightarrow> Inr \<lparr>pr_exact = {}, pr_prefix = []\<rparr>
      | Some o' \<Rightarrow>
          (case po_unknown o' of
             Some key \<Rightarrow> Inl (TypeError (''unknown metadata propagation option: '' @ key))
           | None \<Rightarrow>
               bindE (propagationRuleList lower ''exact'' (po_exact o')) (\<lambda>ex.
               bindE (propagationRuleList lower ''prefix'' (po_prefix o')) (\<lambda>pre.
               Inr \<lparr>pr_exact = set ex, pr_prefix = pre\<rparr>))))"

definition matchesPropagationRule :: "jsstr \<Rightarrow> propagation_rules \<Rightarrow> bool" where
  "matchesPropagationRule key rules \<longleftrightarrow>
     key \<in> pr_exact rules \<or> list_ex (\<lambda>pre. startsWith key pre) (pr_prefix rules)"

fun propagate_loop :: "propagation_rules \<Rightarrow> md \<Rightarrow> md \<Rightarrow> bool \<Rightarrow> md \<times> bool" where
  "propagate_loop rules [] b propagated = (b, propagated)"
| "propagate_loop rules ((k, vs) # es) b propagated =
     (if map_get b k \<noteq> None \<or> \<not> matchesPropagationRule k rules then propagate_loop rules es b propagated
      else propagate_loop rules es (updateBuilder k vs True b) True)"

definition propagateToClientContext ::
    "(jsstr \<Rightarrow> jsstr) \<Rightarrow> ctx_data world \<Rightarrow> ctx_data ctx \<Rightarrow> propagation_options option \<Rightarrow> ctx_data ctx res" where
  "propagateToClientContext lower w c options =
     bindE (propagationRules lower options) (\<lambda>rules.
     if pr_exact rules = {} \<and> length (pr_prefix rules) = 0 then Inr c
     else
       case fromServerContext w c of
         None \<Rightarrow> Inr c
       | Some server \<Rightarrow>
           bindE (case fromClientContext w c of
                    None \<Rightarrow> Inr []
                  | Some client \<Rightarrow> builderFromMetadata lower (Branded client)) (\<lambda>b.
           let (b', propagated) = propagate_loop rules server b False
           in if propagated then newClientContext lower c (Branded (freezeBuilder b')) else Inr c))"

section \<open>Snapshots are canonical\<close>

lemma freeze_get:
  assumes "distinct (map_keys b)"
  shows "map_get (freezeBuilder b) = map_get b" "distinct (map_keys (freezeBuilder b))"
proof -
  let ?es = "map (\<lambda>k. (k, the (map_get b k))) (sort (map_keys b))"
  have "map fst ?es = sort (map_keys b)" by (simp add: comp_def)
  then have d: "distinct (map fst ?es)" using assms by simp
  then show df: "distinct (map_keys (freezeBuilder b))" unfolding freezeBuilder_def by (rule distinct_fromEntries)
  have s: "set (freezeBuilder b) = set b"
    using assms by (force simp: freezeBuilder_def)
  show "map_get (freezeBuilder b) = map_get b" using map_of_inject_set [OF df assms] s by simp
qed

lemma freeze_cong:
  assumes "distinct (map_keys b)" "distinct (map_keys b')" "map_get b = map_get b'"
  shows "freezeBuilder b = freezeBuilder b'"
proof -
  have "set (map_keys b) = set (map_keys b')" using assms(3) dom_map_of_conv_image_fst [of b] dom_map_of_conv_image_fst [of b'] by simp
  then have "sort (map_keys b) = sort (map_keys b')"
    using assms(1,2) sorted_distinct_set_unique [of "sort (map_keys b)" "sort (map_keys b')"] by simp
  then show ?thesis using assms(3) by (simp add: freezeBuilder_def)
qed

lemma freeze_idem: "distinct (map_keys b) \<Longrightarrow> freezeBuilder (freezeBuilder b) = freezeBuilder b"
  using freeze_cong [of "freezeBuilder b" b] freeze_get [of b] by simp

text \<open>Entries that validation admits, builders of them, and snapshots.\<close>

definition key_ok :: "(jsstr \<Rightarrow> jsstr) \<Rightarrow> jsstr \<Rightarrow> bool" where
  "key_ok lower k \<longleftrightarrow> k \<noteq> [] \<and> isWellFormed k \<and> lower k = k"

definition builder_ok :: "(jsstr \<Rightarrow> jsstr) \<Rightarrow> md \<Rightarrow> bool" where
  "builder_ok lower b \<longleftrightarrow> distinct (map_keys b) \<and>
     (\<forall>k vs. map_get b k = Some vs \<longrightarrow> key_ok lower k \<and> (\<forall>v \<in> set vs. isWellFormed v))"

definition md_ok :: "(jsstr \<Rightarrow> jsstr) \<Rightarrow> md \<Rightarrow> bool" where
  "md_ok lower m \<longleftrightarrow> builder_ok lower m \<and> freezeBuilder m = m"

lemma freeze_ok: "builder_ok lower b \<Longrightarrow> md_ok lower (freezeBuilder b)"
  using freeze_get [of b] freeze_idem [of b] by (simp add: md_ok_def builder_ok_def)

lemma empty_ok: "builder_ok lower []"
  by (simp add: builder_ok_def)

text \<open>Two snapshots with the same entries are the same.\<close>

lemma md_ext: "md_ok lower m \<Longrightarrow> md_ok lower m' \<Longrightarrow> map_get m = map_get m' \<Longrightarrow> m = m'"
  using freeze_cong [of m m'] by (simp add: md_ok_def builder_ok_def)

definition bound :: "md \<Rightarrow> jsstr \<Rightarrow> jsstr list" where
  "bound m k = (case map_get m k of None \<Rightarrow> [] | Some vs \<Rightarrow> vs)"

lemma updateBuilder_get:
  "map_get (updateBuilder k vs replace b) = (map_get b)(k \<mapsto> (if replace then vs else bound b k @ vs))"
  by (auto simp: updateBuilder_def bound_def split: option.splits)

lemma updateBuilder_distinct: "distinct (map_keys b) \<Longrightarrow> distinct (map_keys (updateBuilder k vs replace b))"
  by (simp add: updateBuilder_def distinct_update)

lemma updateBuilder_ok:
  assumes "builder_ok lower b" "key_ok lower k" "\<forall>v \<in> set vs. isWellFormed v"
  shows "builder_ok lower (updateBuilder k vs replace b)"
  using assms updateBuilder_distinct [of b k vs replace]
  by (auto simp: builder_ok_def updateBuilder_get bound_def split: option.splits if_splits)

lemma normalizeKey_Inr [js_res]:
  "normalizeKey lower v = Inr k \<longleftrightarrow> v \<noteq> [] \<and> isWellFormed v \<and> k = lower v"
  by (auto simp: normalizeKey_def)

lemma metadataValue_Inr [js_res]: "metadataValue v = Inr x \<longleftrightarrow> isWellFormed v \<and> x = v"
  by (auto simp: metadataValue_def)

definition value_list :: "md_value \<Rightarrow> jsstr list" where
  "value_list v = (case v of Single s \<Rightarrow> [s] | Many xs \<Rightarrow> xs)"

lemma snapshotValues_Inr [js_res]:
  "snapshotValues v = Inr vs \<longleftrightarrow> (\<forall>x \<in> set (value_list v). isWellFormed x) \<and> vs = value_list v"
proof (cases v)
  case (Many xs)
  have "mapE metadataValue xs = Inr ys \<longleftrightarrow> (\<forall>x \<in> set xs. isWellFormed x) \<and> ys = xs" for ys
    by (induction xs arbitrary: ys) (auto simp: js_res)
  then show ?thesis using Many by (simp add: snapshotValues_def value_list_def)
qed (auto simp: snapshotValues_def value_list_def js_res)

lemma lower_key: "lowercase lower \<Longrightarrow> v \<noteq> [] \<Longrightarrow> isWellFormed v \<Longrightarrow> key_ok lower (lower v)"
  by (simp add: lowercase_def key_ok_def)

lemma build_ok:
  assumes "lowercase lower"
  shows "build lower es b = Inr b' \<Longrightarrow> builder_ok lower b \<Longrightarrow> builder_ok lower b'"
proof (induction es arbitrary: b)
  case (Cons e es)
  then show ?case
    by (cases e) (auto simp: js_res intro!: Cons.IH updateBuilder_ok lower_key [OF assms])
qed simp

lemma newMetadata_ok:
  assumes "lowercase lower" "newMetadata lower i = Inr m"
  shows "md_ok lower m"
  using assms build_ok [OF assms(1) _ empty_ok] freeze_ok
  by (auto simp: newMetadata_def builderFromInput_def js_res)

lemma set_all_get: "distinct (map_keys m) \<Longrightarrow> map_get (set_all m b) = map_get b ++ map_of m"
  unfolding set_all_def
proof (induction m arbitrary: b)
  case (Cons e m)
  obtain k vs where e: "e = (k, vs)" by fastforce
  have "map_get (fold (\<lambda>(k, vs). updateBuilder k vs True) m (updateBuilder k vs True b)) =
      map_get (updateBuilder k vs True b) ++ map_of m" using Cons by simp
  moreover have "k \<notin> dom (map_of m)" using Cons.prems e by (simp add: dom_map_of_conv_image_fst)
  ultimately show ?case
    by (auto simp: e updateBuilder_get fun_eq_iff map_add_def domIff split: option.splits)
qed simp

lemma set_all_ok:
  assumes "builder_ok lower b" "builder_ok lower m"
  shows "builder_ok lower (set_all m b)"
proof -
  have "distinct (map_keys b) \<Longrightarrow> distinct (map_keys (set_all m b))"
    unfolding set_all_def by (induction m arbitrary: b) (auto simp: updateBuilder_distinct)
  then show ?thesis
    using assms set_all_get [of m b] by (auto simp: builder_ok_def map_add_Some_iff)
qed

lemma builder_of_md:
  assumes "md_ok lower m"
  shows "\<exists>b. builderFromMetadata lower (Branded m) = Inr b \<and> builder_ok lower b \<and> map_get b = map_get m"
proof -
  have m: "builder_ok lower m" "distinct (map_keys m)" using assms by (auto simp: md_ok_def builder_ok_def)
  show ?thesis
    using set_all_ok [OF empty_ok m(1)] set_all_get [OF m(2), of "[]"]
    by (simp add: builderFromMetadata_def validated_def)
qed

lemma freeze_builder:
  "builder_ok lower b \<Longrightarrow> md_ok lower (freezeBuilder b) \<and> map_get (freezeBuilder b) = map_get b"
  using freeze_ok freeze_get(1) by (auto simp: builder_ok_def)

text \<open>
  every operation of a snapshot gives a snapshot with normalised keys and well-formed values, and
  changes the entry of the normalised key only: \<open>set\<close> replaces its values, \<open>append\<close> adds behind them,
  \<open>remove\<close> drops the entry, \<open>merge\<close> takes the entries of the patch where it has one.
\<close>

lemma metadata_operations:
  assumes "lowercase lower" "md_ok lower m" "md_ok lower p" "k \<noteq> []" "isWellFormed k" "isWellFormed v"
    and "\<forall>x \<in> set vs. isWellFormed x"
  shows "\<exists>m1 m2 m3 m4.
    md_set lower (Branded m) k v = Inr m1 \<and> md_ok lower m1 \<and> map_get m1 = (map_get m)(lower k \<mapsto> [v]) \<and>
    md_append lower (Branded m) k (Many vs) = Inr m2 \<and> md_ok lower m2 \<and>
      map_get m2 = (map_get m)(lower k \<mapsto> bound m (lower k) @ vs) \<and>
    md_remove lower (Branded m) k = Inr m3 \<and> md_ok lower m3 \<and> map_get m3 = (map_get m)(lower k := None) \<and>
    md_merge lower (Branded m) (Branded p) = Inr m4 \<and> md_ok lower m4 \<and> map_get m4 = map_get m ++ map_get p"
proof -
  obtain b where b: "builderFromMetadata lower (Branded m) = Inr b" "builder_ok lower b" "map_get b = map_get m"
    using builder_of_md [OF assms(2)] by blast
  have kk: "normalizeKey lower k = Inr (lower k)" "key_ok lower (lower k)"
    using lower_key [OF assms(1,4,5)] assms(4,5) by (auto simp: js_res)
  have bd: "bound b = bound m" using b(3) by (auto simp: bound_def)
  have p: "builder_ok lower p" "distinct (map_keys p)" using assms(3) by (auto simp: md_ok_def builder_ok_def)
  have "builder_ok lower (map_delete (lower k) b)"
    using b(2) distinct_delete [of b "lower k"] by (auto simp: builder_ok_def split: if_splits)
  then have r: "md_remove lower (Branded m) k = Inr (freezeBuilder (map_delete (lower k) b)) \<and>
      md_ok lower (freezeBuilder (map_delete (lower k) b)) \<and>
      map_get (freezeBuilder (map_delete (lower k) b)) = (map_get m)(lower k := None)"
    using freeze_builder b kk(1) by (auto simp: md_remove_def fun_eq_iff)
  have u: "md_ok lower (freezeBuilder (updateBuilder (lower k) xs rep b)) \<and>
      map_get (freezeBuilder (updateBuilder (lower k) xs rep b)) =
        (map_get m)(lower k \<mapsto> (if rep then xs else bound m (lower k) @ xs))"
    if "\<forall>x \<in> set xs. isWellFormed x" for xs rep
    using freeze_builder [OF updateBuilder_ok [OF b(2) kk(2) that]] b(3) bd
    by (auto simp: updateBuilder_get fun_eq_iff)
  have g: "md_ok lower (freezeBuilder (set_all p b)) \<and> map_get (freezeBuilder (set_all p b)) = map_get m ++ map_get p"
    using freeze_builder [OF set_all_ok [OF b(2) p(1)]] set_all_get [OF p(2)] b(3) by simp
  have sv: "snapshotValues (Many vs) = Inr vs" "metadataValue v = Inr v"
    using assms(6,7) by (auto simp: js_res value_list_def)
  show ?thesis
    using u [of "[v]" True] u [of vs False] assms(6,7) r g b(1) kk(1) sv
    by (simp add: md_set_def md_append_def md_merge_def validated_def)
qed

lemma lower_unit_surrogate: "is_high (lower_unit u) = is_high u" "is_low (lower_unit u) = is_low u"
  by (auto simp: lower_unit_def is_high_def is_low_def word_le_nat_alt unat_word_ariths)

lemma lowercase_ascii: "lowercase lower_ascii"
proof -
  have "lower_unit (lower_unit u) = lower_unit u" for u
    by (auto simp: lower_unit_def word_le_nat_alt unat_word_ariths)
  moreover have "isWellFormed s \<Longrightarrow> isWellFormed (map lower_unit s)" for s
    by (induction s rule: isWellFormed.induct) (auto simp: lower_unit_surrogate split: list.splits if_splits)
  ultimately show ?thesis by (auto simp: lowercase_def lower_ascii_def)
qed

section \<open>Validation again\<close>

lemma build_entries:
  assumes "\<forall>(k, vs) \<in> set es. key_ok lower k \<and> (\<forall>v \<in> set vs. isWellFormed v)" "distinct (map fst es)"
    and "\<forall>k \<in> fst ` set es. map_get b k = None"
  shows "\<exists>b'. build lower (map (\<lambda>(k, vs). (k, Many vs)) es) b = Inr b' \<and> map_get b' = map_get b ++ map_of es"
  using assms
proof (induction es arbitrary: b)
  case (Cons e es)
  obtain k vs where e: "e = (k, vs)" by fastforce
  have k: "normalizeKey lower k = Inr k" "snapshotValues (Many vs) = Inr vs" "bound b k = []"
    using Cons.prems by (auto simp: e key_ok_def js_res value_list_def bound_def)
  have "\<exists>b'. build lower (map (\<lambda>(k, vs). (k, Many vs)) es) (updateBuilder k vs False b) = Inr b' \<and>
      map_get b' = map_get (updateBuilder k vs False b) ++ map_of es"
    using Cons.prems by (intro Cons.IH) (auto simp: e updateBuilder_get)
  moreover have "map_of es k = None" using Cons.prems by (simp add: e map_of_eq_None_iff)
  then have "map_get (updateBuilder k vs False b) ++ map_of es = map_get b ++ map_of (e # es)"
    using k(3) by (auto simp: e updateBuilder_get fun_eq_iff map_add_def split: option.splits)
  moreover have "build lower (map (\<lambda>(k, vs). (k, Many vs)) (e # es)) b =
      build lower (map (\<lambda>(k, vs). (k, Many vs)) es) (updateBuilder k vs False b)"
    using k(1,2) by (simp add: e)
  ultimately show ?case by metis
qed simp

lemma newMetadata_entries:
  assumes "lowercase lower" "md_ok lower m" "distinct (map fst es)" "set es = set m"
  shows "newMetadata lower (map (\<lambda>(k, vs). (k, Many vs)) es) = Inr m"
proof -
  have d: "distinct (map_keys m)" using assms(2) by (simp add: md_ok_def builder_ok_def)
  have me: "map_of es = map_get m" using map_of_inject_set [of es m] assms(3,4) d by blast
  have "key_ok lower k \<and> (\<forall>v \<in> set vs. isWellFormed v)" if "(k, vs) \<in> set es" for k vs
  proof -
    have "map_get m k = Some vs" using map_of_is_SomeI [OF d] that assms(4) by blast
    then show ?thesis using assms(2) unfolding md_ok_def builder_ok_def by blast
  qed
  then have "\<forall>(k, vs) \<in> set es. key_ok lower k \<and> (\<forall>v \<in> set vs. isWellFormed v)" by blast
  then obtain b where b: "build lower (map (\<lambda>(k, vs). (k, Many vs)) es) [] = Inr b" "map_get b = map_get m"
    using build_entries [of es lower "[]"] assms(3) me by auto
  have "builder_ok lower b" using build_ok [OF assms(1) b(1) empty_ok] .
  then have "distinct (map_keys b)" unfolding builder_ok_def by blast
  from freeze_cong [OF this d b(2)] have "freezeBuilder b = freezeBuilder m" .
  then show ?thesis using assms(2) b(1) by (simp add: newMetadata_def builderFromInput_def md_ok_def)
qed

lemma build_admits:
  "build lower (map (\<lambda>(k, vs). (k, Many vs)) es) b = Inr b' \<Longrightarrow> (k, vs) \<in> set es \<Longrightarrow>
    k \<noteq> [] \<and> isWellFormed k \<and> (\<forall>v \<in> set vs. isWellFormed v)"
  by (induction es arbitrary: b) (auto simp: js_res value_list_def)

text \<open>A snapshot of entries with different normalised keys has exactly these entries.\<close>

lemma newMetadata_get:
  assumes "lowercase lower" "newMetadata lower (map (\<lambda>(k, vs). (k, Many vs)) es) = Inr m"
    and "distinct (map fst es)" "\<forall>k \<in> fst ` set es. lower k = k"
  shows "map_get m = map_of es"
proof -
  obtain b where b: "build lower (map (\<lambda>(k, vs). (k, Many vs)) es) [] = Inr b" "m = freezeBuilder b"
    using assms(2) by (auto simp: newMetadata_def builderFromInput_def js_res)
  have "\<forall>(k, vs) \<in> set es. key_ok lower k \<and> (\<forall>v \<in> set vs. isWellFormed v)"
    using build_admits [OF b(1)] assms(4) by (force simp: key_ok_def)
  then have "map_get b = map_of es" using build_entries [of es lower "[]"] assms(3) b(1) by auto
  moreover have "distinct (map_keys b)" using build_ok [OF assms(1) b(1) empty_ok] by (simp add: builder_ok_def)
  ultimately show ?thesis using freeze_get(1) [of b] b(2) by simp
qed

text \<open>
  C36: whatever record is accepted gives a snapshot, and a snapshot passed on as a plain record, in any
  order of its entries, gives the same snapshot: there is one snapshot for a set of entries.
\<close>

theorem snapshot_canonical:
  assumes "lowercase lower"
  shows "(\<forall>i m. newMetadata lower i = Inr m \<longrightarrow> md_ok lower m) \<and>
    (\<forall>m es. md_ok lower m \<and> distinct (map fst es) \<and> set es = set m \<longrightarrow>
       newMetadata lower (map (\<lambda>(k, vs). (k, Many vs)) es) = Inr m)"
  using newMetadata_ok [OF assms] newMetadata_entries [OF assms] by blast

theorem snapshot_canonical_witness:
  "newMetadata lower_ascii [([98], Many [[65]]), ([97], Many [])] = Inr [([97], []), ([98], [[65]])]"
proof -
  let ?m = "[([97], []), ([98], [[65]])] :: md"
  have "isWellFormed [65]" "isWellFormed [97]" "isWellFormed [98]" by (simp_all add: is_high_def is_low_def)
  then have "md_ok lower_ascii ?m"
    by (auto simp: md_ok_def builder_ok_def key_ok_def freezeBuilder_def fromEntries_def is_index_def is_digit_def
        lower_ascii_def lower_unit_def split: if_splits)
  then have h: "md_ok lower_ascii ?m \<and> distinct (map fst ([([98], [[65]]), ([97], [])] :: md)) \<and>
      set [([98], [[65]]), ([97], [])] = set ?m" by auto
  show ?thesis using conjunct2 [OF snapshot_canonical [OF lowercase_ascii], rule_format, OF h] by simp
qed

section \<open>Contexts\<close>

lemma value_of_client [simp]:
  "withValue c clientContextKey v = Inr (ValueCtx c clientContextKey v)"
  "withValue c serverContextKey v = Inr (ValueCtx c serverContextKey v)"
  by (simp_all add: withValue_def clientContextKey_def serverContextKey_def)

lemma context_keys [simp]: "clientContextKey \<noteq> serverContextKey" "serverContextKey \<noteq> clientContextKey"
  by (simp_all add: clientContextKey_def serverContextKey_def)

lemma from_client [simp]:
  "fromClientContext w (ValueCtx c clientContextKey (V_User (Stored m))) = Some m"
  "fromServerContext w (ValueCtx c clientContextKey v) = fromServerContext w c"
  by (simp_all add: fromClientContext_def fromServerContext_def contextMetadata_def)

lemma propagate_loop_get:
  assumes "distinct (map fst es)"
  shows "map_get (fst (propagate_loop rules es b p)) =
      (\<lambda>k. if map_get b k = None \<and> matchesPropagationRule k rules then map_of es k else map_get b k) \<and>
    (snd (propagate_loop rules es b p) \<longleftrightarrow>
       p \<or> (\<exists>k \<in> fst ` set es. map_get b k = None \<and> matchesPropagationRule k rules))"
  using assms
proof (induction es arbitrary: b p)
  case (Cons e es)
  obtain k vs where e: "e = (k, vs)" by fastforce
  have n: "map_of es k = None" "k \<notin> fst ` set es" using Cons.prems by (auto simp: e map_of_eq_None_iff)
  note IH = Cons.IH [of b p] Cons.IH [of "updateBuilder k vs True b" True]
  show ?case
  proof (cases "map_get b k \<noteq> None \<or> \<not> matchesPropagationRule k rules")
    case True
    then show ?thesis using IH(1) Cons.prems n by (auto simp: e fun_eq_iff)
  next
    case False
    then show ?thesis using IH(2) Cons.prems n by (auto simp: e fun_eq_iff updateBuilder_get)
  qed
qed (auto simp: fun_eq_iff)

lemma propagate_loop_ok:
  assumes "builder_ok lower b" "\<forall>(k, vs) \<in> set es. key_ok lower k \<and> (\<forall>v \<in> set vs. isWellFormed v)"
  shows "builder_ok lower (fst (propagate_loop rules es b p))"
  using assms
proof (induction es arbitrary: b p)
  case (Cons e es)
  obtain k vs where e: "e = (k, vs)" by fastforce
  have "key_ok lower k" "\<forall>v \<in> set vs. isWellFormed v" using Cons.prems(2) by (auto simp: e)
  then have "builder_ok lower (updateBuilder k vs True b)" using updateBuilder_ok [OF Cons.prems(1)] by blast
  then show ?case using Cons.IH Cons.prems by (simp add: e)
qed simp

definition client_map :: "ctx_data world \<Rightarrow> ctx_data ctx \<Rightarrow> jsstr \<Rightarrow> jsstr list option" where
  "client_map w c = (case fromClientContext w c of None \<Rightarrow> Map.empty | Some m \<Rightarrow> map_get m)"

lemma client_builder:
  assumes "case fromClientContext w c of None \<Rightarrow> True | Some m \<Rightarrow> md_ok lower m"
  shows "\<exists>b. (case fromClientContext w c of None \<Rightarrow> Inr [] | Some client \<Rightarrow> builderFromMetadata lower (Branded client)) = Inr b \<and>
    builder_ok lower b \<and> map_get b = client_map w c"
proof (cases "fromClientContext w c")
  case None
  then show ?thesis using empty_ok by (auto simp: client_map_def)
next
  case (Some m)
  then show ?thesis using builder_of_md [of lower m] assms by (simp add: client_map_def)
qed

text \<open>
  propagation copies the server entries that a rule selects and the client does not have, in
  one step; the client's own entries win, everything else of the client and the server metadata is
  unchanged, and with nothing to copy the Context itself is returned.
\<close>

lemma propagation_selects:
  assumes "fromServerContext w c = Some sv" "md_ok lower sv"
    and "case fromClientContext w c of None \<Rightarrow> True | Some m \<Rightarrow> md_ok lower m"
    and "propagationRules lower options = Inr rules"
  shows "\<exists>c'. propagateToClientContext lower w c options = Inr c' \<and> fromServerContext w c' = Some sv \<and>
    client_map w c' = (\<lambda>k. if client_map w c k = None \<and> matchesPropagationRule k rules then map_get sv k else client_map w c k) \<and>
    ((\<forall>k. client_map w c k = None \<and> matchesPropagationRule k rules \<longrightarrow> map_get sv k = None) \<longrightarrow> c' = c)"
proof (cases "pr_exact rules = {} \<and> length (pr_prefix rules) = 0")
  case True
  then have "\<not> matchesPropagationRule k rules" for k by (simp add: matchesPropagationRule_def)
  then show ?thesis using True assms(1,4) by (auto simp: propagateToClientContext_def)
next
  case False
  obtain b where b: "(case fromClientContext w c of None \<Rightarrow> Inr [] | Some client \<Rightarrow> builderFromMetadata lower (Branded client)) = Inr b"
      "builder_ok lower b" "map_get b = client_map w c"
    using client_builder [OF assms(3)] by blast
  obtain b' p where l: "propagate_loop rules sv b False = (b', p)" by fastforce
  have d: "distinct (map fst sv)" using assms(2) by (simp add: md_ok_def builder_ok_def)
  note g = propagate_loop_get [OF d, of rules b False]
  have "key_ok lower k \<and> (\<forall>v \<in> set vs. isWellFormed v)" if "(k, vs) \<in> set sv" for k vs
    using map_of_is_SomeI [OF d that] assms(2) unfolding md_ok_def builder_ok_def by blast
  then have ok: "builder_ok lower b'" using propagate_loop_ok [OF b(2), of sv rules False] l by auto
  have eq: "propagateToClientContext lower w c options =
      (if p then Inr (ValueCtx c clientContextKey (V_User (Stored (freezeBuilder b')))) else Inr c)"
    using False assms(1,4) b(1) l by (auto simp: propagateToClientContext_def newClientContext_def clone_def)
  have some: "p \<longleftrightarrow> (\<exists>k. client_map w c k = None \<and> matchesPropagationRule k rules \<and> map_get sv k \<noteq> None)"
    using g l b(3) by (auto simp: map_of_eq_None_iff)
  show ?thesis
  proof (cases p)
    case True
    have "map_get (freezeBuilder b') = (\<lambda>k. if client_map w c k = None \<and> matchesPropagationRule k rules then map_get sv k else client_map w c k)"
      using freeze_builder [OF ok] g l b(3) by (auto simp: fun_eq_iff)
    then show ?thesis using eq True some assms(1) by (auto simp: client_map_def)
  next
    case False
    then show ?thesis using eq some assms(1) by (auto simp: fun_eq_iff)
  qed
qed

end
