(* ===== verification/Js_Uri.thy ===== *)
theory Js_Uri
  imports Js_Json Utf8
begin

text \<open>
  \<open>encodeURIComponent\<close> and \<open>decodeURIComponent\<close> of the JavaScript runtime, and the printer of nested
  JSON arrays of strings. \<open>uri_roundtrip\<close> shows that decoding inverts encoding; \<open>reads\<close> relates a
  text to the value that \<open>JSON.parse\<close> reads from it, whatever follows.
\<close>

section \<open>Percent encoding\<close>

definition uri_unreserved :: "16 word \<Rightarrow> bool" where
  "uri_unreserved u \<longleftrightarrow>
     (65 \<le> unat u \<and> unat u \<le> 90) \<or> (97 \<le> unat u \<and> unat u \<le> 122) \<or> is_digit u \<or>
     u \<in> set (js ''-_.!~*()'') \<or> u = 39"

definition hex_upper :: "nat \<Rightarrow> 16 word" where
  "hex_upper n = (if n < 10 then of_nat (48 + n) else of_nat (55 + n))"

definition percent :: "byte \<Rightarrow> jsstr" where
  "percent b = [37, hex_upper (unat b div 16), hex_upper (unat b mod 16)]"

definition percent_point :: "nat \<Rightarrow> jsstr" where
  "percent_point n = concat (map percent (utf8_point n))"

fun encodeURIComponent :: "jsstr \<Rightarrow> jsstr res" where
  "encodeURIComponent [] = Inr []"
| "encodeURIComponent (u # s) =
     (if uri_unreserved u then bindE (encodeURIComponent s) (\<lambda>r. Inr (u # r))
      else if is_low u then Inl URIError
      else if is_high u then
        (case s of
           [] \<Rightarrow> Inl URIError
         | v # s' \<Rightarrow>
             if is_low v then bindE (encodeURIComponent s') (\<lambda>r. Inr (percent_point (pair_point u v) @ r))
             else Inl URIError)
      else bindE (encodeURIComponent s) (\<lambda>r. Inr (percent_point (unat u) @ r)))"

definition take_octet :: "jsstr \<Rightarrow> (byte \<times> jsstr) option" where
  "take_octet s =
     (case s of
        p # a # b # r \<Rightarrow>
          if p = 37 \<and> is_hex (lower_unit a) \<and> is_hex (lower_unit b)
          then Some (byte_of (digit_value (lower_unit a) * 16 + digit_value (lower_unit b)), r) else None
      | _ \<Rightarrow> None)"

fun take_octets :: "nat \<Rightarrow> jsstr \<Rightarrow> (byte list \<times> jsstr) option" where
  "take_octets 0 s = Some ([], s)"
| "take_octets (Suc n) s =
     (case take_octet s of
        None \<Rightarrow> None
      | Some (b, r) \<Rightarrow> map_option (\<lambda>(bs, q). (b # bs, q)) (take_octets n r))"

text \<open>The number of octets that a leading octet announces, zero for one that cannot lead.\<close>

definition octet_count :: "byte \<Rightarrow> nat" where
  "octet_count b =
     (let n = unat b in
      if n < 0x80 then 1 else if n < 0xC0 then 0 else if n < 0xE0 then 2 else if n < 0xF0 then 3
      else if n < 0xF8 then 4 else 0)"

definition take_point :: "jsstr \<Rightarrow> (nat \<times> jsstr) option" where
  "take_point s =
     (case take_octet s of
        None \<Rightarrow> None
      | Some (b, _) \<Rightarrow>
          if octet_count b = 0 then None
          else (case take_octets (octet_count b) s of
                  None \<Rightarrow> None
                | Some (bs, r) \<Rightarrow> (case utf8_points bs of Some [p] \<Rightarrow> Some (p, r) | _ \<Rightarrow> None)))"

lemma take_octet_length: "take_octet s = Some (b, r) \<Longrightarrow> length r < length s"
  by (auto simp: take_octet_def split: list.splits if_splits)

lemma take_octets_length: "take_octets n s = Some (bs, r) \<Longrightarrow> length r \<le> length s \<and> (0 < n \<longrightarrow> length r < length s)"
  by (induction n arbitrary: s bs) (fastforce split: option.splits dest: take_octet_length)+

lemma take_point_length: "take_point s = Some (p, r) \<Longrightarrow> length r < length s"
  by (auto simp: take_point_def split: option.splits if_splits list.splits)
    (use take_octets_length in blast)

function decodeURIComponent :: "jsstr \<Rightarrow> jsstr res" where
  "decodeURIComponent [] = Inr []"
| "decodeURIComponent (u # s) =
     (if u \<noteq> 37 then bindE (decodeURIComponent s) (\<lambda>r. Inr (u # r))
      else
        case take_point (u # s) of
          None \<Rightarrow> Inl URIError
        | Some (p, q) \<Rightarrow> bindE (decodeURIComponent q) (\<lambda>r. Inr (units_of_point p @ r)))"
  by pat_completeness auto
termination
  by (relation "measure length") (auto dest: take_point_length)

lemma lower_hex_upper: "n < 16 \<Longrightarrow> lower_unit (hex_upper n) = hex_digit n"
proof -
  assume n: "n < 16"
  then have "n \<in> {0, 1, 2, 3, 4, 5, 6, 7, 8, 9, 10, 11, 12, 13, 14, 15}" by (simp, presburger)
  then show ?thesis by (auto simp: lower_unit_def hex_upper_def hex_digit_def)
qed

lemma take_octet_percent: "take_octet (percent b @ r) = Some (b, r)"
proof -
  have b: "unat b < 256" using unsigned_less [of b] by simp
  then have "unat b div 16 < 16" "unat b mod 16 < 16" by auto
  note h = lower_hex_upper [OF this(1)] lower_hex_upper [OF this(2)] hex_digit_range [OF this(1)] hex_digit_range [OF this(2)]
  have "byte_of (unat b div 16 * 16 + unat b mod 16) = b" by (simp add: byte_of_def)
  then show ?thesis using h by (simp add: take_octet_def percent_def)
qed

lemma take_octets_percent: "take_octets (length bs) (concat (map percent bs) @ r) = Some (bs, r)"
  by (induction bs) (simp_all add: take_octet_percent)

lemma utf8_point_head:
  assumes "is_scalar n"
  shows "\<exists>b bs. utf8_point n = b # bs \<and> octet_count b = length (utf8_point n)"
proof -
  have n: "n < 0x110000" using assms by (auto simp: is_scalar_def)
  consider "n < 0x80" | "0x80 \<le> n" "n < 0x800" | "0x800 \<le> n" "n < 0x10000" | "0x10000 \<le> n" by linarith
  then show ?thesis
  proof cases
    case 1
    then show ?thesis by (simp add: utf8_point_def octet_count_def unat_byte)
  next
    case 2
    then have "n div 64 < 32" by auto
    then show ?thesis using 2 by (simp add: utf8_point_def octet_count_def unat_byte)
  next
    case 3
    then have "n div 4096 < 16" by auto
    then show ?thesis using 3 by (simp add: utf8_point_def octet_count_def unat_byte)
  next
    case 4
    then have "n div 262144 < 8" using n by auto
    then show ?thesis using 4 by (simp add: utf8_point_def octet_count_def unat_byte)
  qed
qed

lemma take_point_percent:
  assumes "is_scalar n"
  shows "take_point (percent_point n @ r) = Some (n, r)"
proof -
  obtain b bs where b: "utf8_point n = b # bs" "octet_count b = length (utf8_point n)" using utf8_point_head [OF assms] by blast
  have "utf8_points (utf8_point n) = Some [n]" using utf8_points_point [OF assms, of "[]"] by simp
  moreover have "take_octet (percent_point n @ r) = Some (b, concat (map percent bs) @ r)"
    by (simp add: percent_point_def b(1) take_octet_percent)
  moreover have "take_octets (octet_count b) (percent_point n @ r) = Some (utf8_point n, r)"
    unfolding b(2) percent_point_def by (rule take_octets_percent)
  moreover have "octet_count b \<noteq> 0" using b by simp
  ultimately show ?thesis by (simp add: take_point_def)
qed

lemma decode_percent:
  assumes "is_scalar n"
  shows "decodeURIComponent (percent_point n @ r) = bindE (decodeURIComponent r) (\<lambda>q. Inr (units_of_point n @ q))"
proof -
  obtain b bs where b: "utf8_point n = b # bs" using utf8_point_head [OF assms] by blast
  have "percent_point n @ r = 37 # tl (percent_point n @ r)" by (simp add: percent_point_def b percent_def)
  then show ?thesis using take_point_percent [OF assms, of r] decodeURIComponent.simps(2) [of 37 "tl (percent_point n @ r)"]
    by simp
qed

lemma scalar_unit: "\<not> is_high u \<Longrightarrow> \<not> is_low u \<Longrightarrow> is_scalar (unat u)"
  using unat_unit_less [of u] by (auto simp: is_scalar_def is_high_def is_low_def word_le_nat_alt)

lemma uri_roundtrip: "encodeURIComponent s = Inr t \<Longrightarrow> decodeURIComponent t = Inr s"
proof (induction s arbitrary: t rule: encodeURIComponent.induct)
  case (2 u s)
  consider (plain) "uri_unreserved u" | (pair) v s' where "\<not> uri_unreserved u" "is_high u" "s = v # s'" "is_low v"
    | (unit) "\<not> uri_unreserved u" "\<not> is_high u" "\<not> is_low u"
    using "2.prems" by (auto split: if_splits list.splits)
  then show ?case
  proof cases
    case plain
    then have "u \<noteq> 37" by (auto simp: uri_unreserved_def is_digit_def js_def)
    then show ?thesis using plain 2 by (auto simp: js_res)
  next
    case pair
    have nl: "\<not> is_low u" using pair(2) by (auto simp: is_high_def is_low_def word_le_nat_alt)
    have "is_scalar (pair_point u v)" using pair_point_range [OF pair(2,4)] by (simp add: is_scalar_def)
    then show ?thesis
      using pair nl "2.prems" "2.IH"(2) [OF pair(1) nl pair(2,3,4)] decode_percent pair_point_units [OF pair(2,4)]
      by (auto simp: js_res)
  next
    case unit
    then show ?thesis
      using "2.prems" "2.IH"(3) decode_percent [OF scalar_unit] by (auto simp: js_res)
  qed
qed simp

section \<open>Texts of nested arrays\<close>

text \<open>\<open>JSON.parse\<close> reads the value \<open>v\<close> from the text \<open>t\<close>, whatever follows, with any fuel from some point on.\<close>

definition reads :: "jsstr \<Rightarrow> json \<Rightarrow> bool" where
  "reads t v \<longleftrightarrow> (\<exists>N. \<forall>n \<ge> N. \<forall>r. p_value n (t @ r) = Some (v, r)) \<and>
     t \<noteq> [] \<and> \<not> is_space (hd t) \<and> hd t \<noteq> 93"

lemma fuel_Suc: "Suc k \<le> n \<Longrightarrow> \<exists>m. n = Suc m \<and> k \<le> m"
  by (cases n) auto

lemma reads_string: "reads (json_string s) (JStr s)"
proof -
  have "\<forall>n \<ge> 1. \<forall>r. p_value n (json_string s @ r) = Some (JStr s, r)"
  proof (intro allI impI)
    fix n :: nat and r
    assume "1 \<le> n"
    then obtain m where "n = Suc m" by (cases n) auto
    then show "p_value n (json_string s @ r) = Some (JStr s, r)" using json_string_value by simp
  qed
  then show ?thesis unfolding reads_def by (auto simp: json_string_def is_space_def)
qed

lemma skip_ws_head: "t \<noteq> [] \<Longrightarrow> \<not> is_space (hd t) \<Longrightarrow> skip_ws (t @ r) = t @ r"
  by (cases t) (auto simp: skip_ws_def)

lemma p_elements_reads:
  assumes "list_all2 reads ts vs" "ts \<noteq> []"
  shows "\<exists>N. \<forall>n \<ge> N. \<forall>r. p_elements n (join_with [44] ts @ 93 # r) = Some (vs, r)"
  using assms
proof (induction ts vs rule: list_all2_induct)
  case (Cons t ts v vs)
  obtain N where N: "\<forall>n \<ge> N. \<forall>r. p_value n (t @ r) = Some (v, r)" using Cons.hyps(1) by (auto simp: reads_def)
  show ?case
  proof (cases ts)
    case Nil
    have "p_elements n (join_with [44] (t # ts) @ 93 # r) = Some (v # vs, r)" if le: "Suc N \<le> n" for n r
    proof -
      obtain m where m: "n = Suc m" "N \<le> m" using fuel_Suc [OF le] by blast
      show ?thesis using N m(2) Nil Cons.hyps(2) by (simp add: m(1) p_elements.simps(2) skip_ws_def is_space_def)
    qed
    then show ?thesis by blast
  next
    case (Cons t' ts')
    then have "ts \<noteq> []" by simp
    then obtain M where M: "\<forall>n \<ge> M. \<forall>r. p_elements n (join_with [44] ts @ 93 # r) = Some (vs, r)"
      using Cons.IH by blast
    have j: "join_with [44] (t # ts) = t @ 44 # join_with [44] ts" using Cons by simp
    have "p_elements n (join_with [44] (t # ts) @ 93 # r) = Some (v # vs, r)" if le: "Suc (max N M) \<le> n" for n r
    proof -
      obtain m where m: "n = Suc m" "N \<le> m" "M \<le> m" using fuel_Suc [OF le] by auto
      have "p_value m (t @ 44 # join_with [44] ts @ 93 # r) = Some (v, 44 # join_with [44] ts @ 93 # r)"
        using N m(2) by blast
      then show ?thesis using M m(3) unfolding j by (simp add: m(1) p_elements.simps(2) skip_ws_def is_space_def)
    qed
    then show ?thesis by blast
  qed
qed simp

lemma reads_array:
  assumes "list_all2 reads ts vs"
  shows "reads (json_array ts) (JArr vs)"
proof -
  have "\<exists>N. \<forall>n \<ge> N. \<forall>r. p_value n (json_array ts @ r) = Some (JArr vs, r)"
  proof (cases ts)
    case Nil
    then have "vs = []" using assms by simp
    have "p_value n (json_array ts @ r) = Some (JArr vs, r)" if le: "Suc 0 \<le> n" for n r
    proof -
      obtain m where "n = Suc m" using fuel_Suc [OF le] by blast
      then show ?thesis using Nil \<open>vs = []\<close> by (simp add: p_value.simps(2) json_array_def skip_ws_def is_space_def)
    qed
    then show ?thesis by blast
  next
    case (Cons t ts')
    obtain N where N: "\<forall>n \<ge> N. \<forall>r. p_elements n (join_with [44] ts @ 93 # r) = Some (vs, r)"
      using p_elements_reads [OF assms] Cons by blast
    have t: "t \<noteq> []" "\<not> is_space (hd t)" "hd t \<noteq> 93" using assms Cons by (auto simp: reads_def list_all2_Cons1)
    have j: "join_with [44] ts \<noteq> []" "hd (join_with [44] ts) = hd t" using t(1) Cons by (cases ts'; simp)+
    have "p_value n (json_array ts @ r) = Some (JArr vs, r)" if le: "Suc N \<le> n" for n r
    proof -
      obtain m where m: "n = Suc m" "N \<le> m" using fuel_Suc [OF le] by blast
      have w: "skip_ws (join_with [44] ts @ 93 # r) = join_with [44] ts @ 93 # r"
        using skip_ws_head [OF j(1)] j(2) t(2) by simp
      have "skip_ws (91 # join_with [44] ts @ 93 # r) = 91 # join_with [44] ts @ 93 # r"
        by (simp add: skip_ws_def is_space_def)
      then show ?thesis using N m(2) w j t(3) by (simp add: m(1) p_value.simps(2) json_array_def)
    qed
    then show ?thesis by blast
  qed
  then show ?thesis by (simp add: reads_def json_array_def is_space_def)
qed

lemma reads_parse:
  assumes "reads t v"
  shows "JSON_parse t = Inr v"
proof -
  obtain N where N: "\<forall>n \<ge> N. \<forall>r. p_value n (t @ r) = Some (v, r)" using assms by (auto simp: reads_def)
  have "N \<le> 2 * length t + 2 + N" by simp
  then have "p_value (2 * length t + 2 + N) (t @ []) = Some (v, [])" using N by blast
  then have "p_value (2 * length t + 2) t = Some (v, [])" using json_fuel [of t "2 * length t + 2" N] by simp
  then show ?thesis by (simp add: JSON_parse_def skip_ws_def)
qed

end
