(* ===== verification/Metadata_Wire.thy ===== *)
theory Metadata_Wire
  imports Metadata Js_Uri
begin

text \<open>
  \<open>packages/transport/src/metadata.ts\<close>: the header that carries a metadata snapshot between processes.
  A metadata argument is as in the theory \<open>Metadata\<close>; \<open>lower\<close> stands for
  \<open>String.prototype.toLowerCase\<close>. An entry of the wire format is a key with its values.
\<close>

section \<open>Encoding\<close>

definition WirePrefix :: jsstr where
  "WirePrefix = js ''v1.''"

definition MaximumMetadataHeaderBytes :: nat where
  "MaximumMetadataHeaderBytes = 16384"

text \<open>\<open>JSON.stringify\<close> of the entries.\<close>

definition entry_text :: "jsstr \<times> jsstr list \<Rightarrow> jsstr" where
  "entry_text e = json_array [json_string (fst e), json_array (map json_string (snd e))]"

definition encodeEntries :: "(jsstr \<times> jsstr list) list \<Rightarrow> jsstr res" where
  "encodeEntries entries =
     bindE (encodeURIComponent (json_array (map entry_text entries))) (\<lambda>serialized.
     let encoded = WirePrefix @ serialized in
     if MaximumMetadataHeaderBytes < length encoded
     then Inl (RangeError ''encoded metadata header exceeds 16384 bytes'') else Inr encoded)"

definition encodeMetadataHeader :: "(jsstr \<Rightarrow> jsstr) \<Rightarrow> md_arg \<Rightarrow> jsstr option res" where
  "encodeMetadataHeader lower a =
     bindE (md_keys lower a) (\<lambda>keys.
     if length keys = 0 then Inr None
     else bindE (mapE (\<lambda>k. bindE (md_values lower a k) (\<lambda>vs. Inr (k, vs))) keys) (\<lambda>entries.
            bindE (encodeEntries entries) (\<lambda>v. Inr (Some v))))"

section \<open>Decoding\<close>

definition parsed_string :: "json \<Rightarrow> jsstr res" where
  "parsed_string item =
     (case item of JStr s \<Rightarrow> Inr s | _ \<Rightarrow> Inl (TypeError ''metadata wire values must be strings''))"

definition parsedValues :: "json \<Rightarrow> jsstr list res" where
  "parsedValues v =
     (case v of
        JArr items \<Rightarrow> mapE parsed_string items
      | _ \<Rightarrow> Inl (TypeError ''metadata wire values must be an array''))"

fun decode_entries ::
    "(jsstr \<Rightarrow> jsstr) \<Rightarrow> jsstr set \<Rightarrow> json list \<Rightarrow> (jsstr \<times> jsstr list) list res" where
  "decode_entries lower seen [] = Inr []"
| "decode_entries lower seen (entry # parsed) =
     (case entry of
        JArr [rawKey, rawValues] \<Rightarrow>
          (case rawKey of
             JStr key \<Rightarrow>
               if key \<noteq> lower key \<or> lower key \<in> seen
               then Inl (TypeError ''metadata wire keys must be unique and lower-case'')
               else
                 bindE (parsedValues rawValues) (\<lambda>vs.
                 bindE (decode_entries lower (insert (lower key) seen) parsed) (\<lambda>es. Inr ((key, vs) # es)))
           | _ \<Rightarrow> Inl (TypeError ''metadata wire key must be a string''))
      | _ \<Rightarrow> Inl (TypeError ''metadata wire entry is invalid''))"

definition not_canonical :: thrown where
  "not_canonical = TypeError ''metadata wire header is not canonical''"

definition decodePresentMetadataHeader :: "(jsstr \<Rightarrow> jsstr) \<Rightarrow> jsstr \<Rightarrow> md res" where
  "decodePresentMetadataHeader lower v =
     (if MaximumMetadataHeaderBytes < length v \<or> \<not> startsWith v WirePrefix \<or> length v = length WirePrefix
      then Inl (TypeError ''metadata wire header is invalid'')
      else
        bindE (decodeURIComponent (drop (length WirePrefix) v)) (\<lambda>text.
        bindE (JSON_parse text) (\<lambda>parsed.
        case parsed of
          JArr items \<Rightarrow>
            if length items = 0 then Inl (TypeError ''metadata wire entries must be a non-empty array'')
            else
              bindE (decode_entries lower {} items) (\<lambda>entries.
              bindE (newMetadata lower (map (\<lambda>(k, vs). (k, Many vs)) (fromEntries entries))) (\<lambda>decoded.
              bindE (md_keys lower (Branded decoded)) (\<lambda>ordered.
              if \<exists>i < length entries. length ordered \<le> i \<or> fst (entries ! i) \<noteq> ordered ! i then Inl not_canonical
              else
                bindE (encodeEntries entries) (\<lambda>again.
                if again \<noteq> v then Inl not_canonical else Inr decoded))))
        | _ \<Rightarrow> Inl (TypeError ''metadata wire entries must be a non-empty array''))))"

definition decodeMetadataHeader :: "(jsstr \<Rightarrow> jsstr) \<Rightarrow> jsstr option \<Rightarrow> md res" where
  "decodeMetadataHeader lower v =
     (case v of
        None \<Rightarrow> newMetadata lower []
      | Some header \<Rightarrow>
          (case decodePresentMetadataHeader lower header of
             Inl _ \<Rightarrow> Inl (ProtocolError ''invalid metadata wire'')
           | Inr m \<Rightarrow> Inr m))"

section \<open>Encoding a snapshot\<close>

lemma md_ok_entries:
  assumes "md_ok lower m"
  shows "distinct (map fst m)" "(k, vs) \<in> set m \<Longrightarrow> map_get m k = Some vs \<and> key_ok lower k"
proof -
  show d: "distinct (map fst m)" using assms by (simp add: md_ok_def builder_ok_def)
  show "map_get m k = Some vs \<and> key_ok lower k" if "(k, vs) \<in> set m"
    using map_of_is_SomeI [OF d that] assms unfolding md_ok_def builder_ok_def by blast
qed

lemma encode_snapshot:
  assumes "md_ok lower m"
  shows "encodeMetadataHeader lower (Branded m) =
    (if m = [] then Inr None else bindE (encodeEntries m) (\<lambda>v. Inr (Some v)))"
proof -
  have "md_values lower (Branded m) k = Inr vs" if "(k, vs) \<in> set m" for k vs
    using md_ok_entries(2) [OF assms that] by (simp add: md_values_def validated_def normalizeKey_def key_ok_def)
  then have "mapE (\<lambda>k. bindE (md_values lower (Branded m) k) (\<lambda>vs. Inr (k, vs))) (map fst es) = Inr es"
    if "set es \<subseteq> set m" for es
    using that by (induction es) auto
  from this [of m] show ?thesis by (simp add: encodeMetadataHeader_def md_keys_def validated_def)
qed

lemma encoded_some:
  assumes "md_ok lower m" "m \<noteq> []" "encodeMetadataHeader lower (Branded m) = Inr h"
  shows "\<exists>v. encodeEntries m = Inr v \<and> h = Some v"
proof -
  have "bindE (encodeEntries m) (\<lambda>v. Inr (Some v)) = Inr h" using assms encode_snapshot [of lower m] by simp
  then show ?thesis by (auto simp: js_res)
qed

section \<open>Reading the text back\<close>

definition entry_json :: "jsstr \<times> jsstr list \<Rightarrow> json" where
  "entry_json e = JArr [JStr (fst e), JArr (map JStr (snd e))]"

lemma reads_strings: "list_all2 reads (map json_string vs) (map JStr vs)"
  by (induction vs) (simp_all add: reads_string)

lemma reads_entry: "reads (entry_text e) (entry_json e)"
  unfolding entry_text_def entry_json_def
  by (rule reads_array) (simp add: reads_string reads_array reads_strings)

lemma parse_entries: "JSON_parse (json_array (map entry_text es)) = Inr (JArr (map entry_json es))"
proof -
  have "list_all2 reads (map entry_text es) (map entry_json es)" by (induction es) (simp_all add: reads_entry)
  then show ?thesis by (intro reads_parse reads_array)
qed

lemma parsedValues_strings: "parsedValues (JArr (map JStr vs)) = Inr vs"
proof -
  have "mapE parsed_string (map JStr vs) = Inr vs" by (induction vs) (simp_all add: parsed_string_def)
  then show ?thesis by (simp add: parsedValues_def)
qed

lemma decode_entry_json:
  "distinct (map fst es) \<Longrightarrow> \<forall>k \<in> fst ` set es. lower k = k \<and> k \<notin> seen \<Longrightarrow>
    decode_entries lower seen (map entry_json es) = Inr es"
proof (induction es arbitrary: seen)
  case (Cons e es)
  then have "\<forall>k \<in> fst ` set es. lower k = k \<and> k \<notin> insert (fst e) seen" by (metis distinct.simps(2) image_eqI insertE list.set_map list.simps(9) list.set_intros(2) image_iff)
  then have "decode_entries lower (insert (fst e) seen) (map entry_json es) = Inr es"
    using Cons.prems by (intro Cons.IH) simp_all
  moreover have "entry_json e = JArr [JStr (fst e), JArr (map JStr (snd e))]" by (simp add: entry_json_def)
  ultimately show ?case using Cons.prems by (simp add: parsedValues_strings)
qed simp

lemma decode_entries_keys:
  "decode_entries lower seen parsed = Inr es \<Longrightarrow>
    distinct (map fst es) \<and> (\<forall>k \<in> fst ` set es. lower k = k \<and> k \<notin> seen)"
proof (induction parsed arbitrary: seen es)
  case (Cons entry parsed)
  obtain key vs es' where e: "es = (key, vs) # es'" "key = lower key" "lower key \<notin> seen"
      "decode_entries lower (insert (lower key) seen) parsed = Inr es'"
    using Cons.prems by (auto simp: js_res split: json.splits list.splits if_splits)
  then show ?case using Cons.IH [OF e(4)] by auto
qed simp

section \<open>What callers may rely on\<close>

lemma drop_prefix: "startsWith (WirePrefix @ t) WirePrefix" "drop (length WirePrefix) (WirePrefix @ t) = t"
  by (simp_all add: startsWith_def)

lemma decode_encoded:
  assumes "lowercase lower" "md_ok lower m" "m \<noteq> []" "encodeEntries m = Inr v"
  shows "decodePresentMetadataHeader lower v = Inr m"
proof -
  obtain t where t: "encodeURIComponent (json_array (map entry_text m)) = Inr t" "v = WirePrefix @ t"
      "\<not> MaximumMetadataHeaderBytes < length v"
    using assms(4) by (auto simp: encodeEntries_def Let_def js_res split: if_splits)
  note u = uri_roundtrip [OF t(1)]
  have "t \<noteq> []" using u by (auto simp: json_array_def)
  moreover have "decode_entries lower {} (map entry_json m) = Inr m"
    using md_ok_entries [OF assms(2)] by (intro decode_entry_json) (auto simp: key_ok_def)
  moreover have "newMetadata lower (map (\<lambda>(k, vs). (k, Many vs)) (fromEntries m)) = Inr m"
    using md_ok_entries(1) [OF assms(2)] by (intro newMetadata_entries [OF assms(1,2)]) (auto simp: distinct_fromEntries)
  ultimately show ?thesis
    using t u assms(3,4) drop_prefix [of t] parse_entries [of m]
    by (simp add: decodePresentMetadataHeader_def md_keys_def validated_def)
qed

lemma same_entries:
  assumes "distinct (map fst xs)" "map fst xs = map fst ys" "set xs = set ys"
  shows "xs = ys"
proof (rule nth_equalityI)
  show len: "length xs = length ys" using assms(2) by (metis length_map)
  fix i assume i: "i < length xs"
  then have f: "fst (ys ! i) = fst (xs ! i)" using assms(2) len by (metis nth_map)
  have "ys ! i \<in> set xs" using i len assms(3) by simp
  then have "(fst (xs ! i), snd (ys ! i)) \<in> set xs" using f by (metis prod.collapse)
  moreover have "(fst (xs ! i), snd (xs ! i)) \<in> set xs" using i by simp
  ultimately have "snd (xs ! i) = snd (ys ! i)" using assms(1) by (metis eq_key_imp_eq_value)
  then show "xs ! i = ys ! i" using f by (simp add: prod_eq_iff)
qed

lemma decode_canonical:
  assumes "lowercase lower" "decodePresentMetadataHeader lower v = Inr m"
  shows "md_ok lower m \<and> m \<noteq> [] \<and> encodeEntries m = Inr v"
proof -
  obtain x parsed where x: "decodeURIComponent (drop (length WirePrefix) v) = Inr x" "JSON_parse x = Inr parsed"
    using assms(2) by (auto simp: decodePresentMetadataHeader_def js_res split: if_splits)
  then obtain items where items: "parsed = JArr items"
    using assms(2) by (cases parsed) (auto simp: decodePresentMetadataHeader_def split: if_splits)
  obtain es where d: "items \<noteq> []" "decode_entries lower {} items = Inr es"
      "newMetadata lower (map (\<lambda>(k, vs). (k, Many vs)) (fromEntries es)) = Inr m"
      "\<forall>i < length es. i < length (map fst m) \<and> fst (es ! i) = map fst m ! i" "encodeEntries es = Inr v"
    using assms(2) x unfolding items
    by (auto simp: decodePresentMetadataHeader_def md_keys_def validated_def not_canonical_def js_res not_le
        split: if_splits)
  note k = decode_entries_keys [OF d(2)]
  have ok: "md_ok lower m" using newMetadata_ok [OF assms(1) d(3)] .
  have dm: "distinct (map fst m)" using md_ok_entries(1) [OF ok] .
  have g: "map_get m = map_of (fromEntries es)"
    using k by (intro newMetadata_get [OF assms(1) d(3)]) (auto simp: distinct_fromEntries)
  then have "map_get m = map_of es"
    using map_of_inject_set [of "fromEntries es" es] k distinct_fromEntries [of es] by simp
  then have s: "set m = set es" using map_of_inject_set [OF dm, of es] k by simp
  then have "length m = length es" using dm k by (metis distinct_card length_map list.set_map)
  then have "map fst m = map fst es" using d(4) by (intro nth_equalityI) auto
  then have "m = es" by (rule same_entries [OF dm _ s])
  moreover have "es \<noteq> []" using d(1,2) by (cases items) (auto simp: js_res split: json.splits list.splits if_splits)
  ultimately show ?thesis using ok d(5) by simp
qed

text \<open>One entry: \<open>[["a",["A"]]]\<close>.\<close>

lemma percent_small: "n < 128 \<Longrightarrow> length (percent_point n) = 3"
  by (simp add: percent_point_def utf8_point_def percent_def)

lemma sample_text: "json_array (map entry_text [([97], [[65]])]) = [91, 91, 34, 97, 34, 44, 91, 34, 65, 34, 93, 93, 93]"
proof -
  have "json_quoted [97] = [97]" "json_quoted [65] = [65]" by (simp_all add: escapes_def is_high_def is_low_def)
  then show ?thesis by (simp add: entry_text_def json_array_def json_string_def)
qed

lemma sample_units:
  "uri_unreserved 97" "uri_unreserved 65" "\<not> uri_unreserved 91" "\<not> uri_unreserved 93" "\<not> uri_unreserved 34"
  "\<not> uri_unreserved 44"
  by (simp_all add: uri_unreserved_def is_digit_def js_def)

lemma sample_header: "\<exists>v. encodeEntries [([97], [[65]])] = Inr v"
proof -
  have "\<not> is_high 91 \<and> \<not> is_low 91" "\<not> is_high 93 \<and> \<not> is_low 93" "\<not> is_high 34 \<and> \<not> is_low 34"
    "\<not> is_high 44 \<and> \<not> is_low 44" by (simp_all add: is_high_def is_low_def)
  then show ?thesis
    unfolding encodeEntries_def sample_text
    by (simp add: sample_units percent_small Let_def WirePrefix_def js_def MaximumMetadataHeaderBytes_def)
qed

lemma decode_present:
  "decodeMetadataHeader lower (Some v) = Inr m \<longleftrightarrow> decodePresentMetadataHeader lower v = Inr m"
  by (auto simp: decodeMetadataHeader_def split: sum.splits)

text \<open>C22: the header of a snapshot is decoded to that snapshot, and an empty snapshot needs none; every header
  that is accepted is the one header of its snapshot, non-empty and within the ceiling; every other header is
  refused with the protocol error, whatever went wrong inside.\<close>

theorem header_roundtrip:
  assumes "lowercase lower"
  shows "(\<forall>m h. md_ok lower m \<and> encodeMetadataHeader lower (Branded m) = Inr h \<longrightarrow>
      decodeMetadataHeader lower h = Inr m \<and> (h = None \<longleftrightarrow> m = [])) \<and>
    (\<forall>v m. decodeMetadataHeader lower (Some v) = Inr m \<longrightarrow>
      md_ok lower m \<and> m \<noteq> [] \<and> encodeMetadataHeader lower (Branded m) = Inr (Some v) \<and>
      length v \<le> MaximumMetadataHeaderBytes) \<and>
    (\<forall>v e. decodeMetadataHeader lower (Some v) = Inl e \<longrightarrow> e = ProtocolError ''invalid metadata wire'')"
proof (intro conjI allI impI)
  fix m h assume a: "md_ok lower m \<and> encodeMetadataHeader lower (Branded m) = Inr h"
  show "decodeMetadataHeader lower h = Inr m"
  proof (cases "m = []")
    case True
    then show ?thesis
      using a encode_snapshot [of lower m] newMetadata_entries [OF assms, of m "[]"]
      by (simp add: decodeMetadataHeader_def)
  next
    case False
    then obtain v where "encodeEntries m = Inr v" "h = Some v" using encoded_some [of lower m h] a by blast
    then show ?thesis using a False decode_encoded [OF assms, of m v] by (simp add: decode_present)
  qed
  show "h = None \<longleftrightarrow> m = []" using a encode_snapshot [of lower m] encoded_some [of lower m h] by fastforce
next
  fix v m assume "decodeMetadataHeader lower (Some v) = Inr m"
  then have d: "md_ok lower m \<and> m \<noteq> [] \<and> encodeEntries m = Inr v"
    using decode_canonical [OF assms] by (simp add: decode_present)
  then show "md_ok lower m" "m \<noteq> []" "encodeMetadataHeader lower (Branded m) = Inr (Some v)"
    using encode_snapshot [of lower m] by simp_all
  show "length v \<le> MaximumMetadataHeaderBytes"
    using d by (auto simp: encodeEntries_def Let_def js_res split: if_splits)
qed (auto simp: decodeMetadataHeader_def split: sum.splits)

theorem header_roundtrip_witness:
  "\<exists>v. encodeMetadataHeader lower_ascii (Branded [([97], [[65]])]) = Inr (Some v) \<and>
    decodeMetadataHeader lower_ascii (Some v) = Inr [([97], [[65]])]"
proof -
  let ?m = "[([97], [[65]])] :: md"
  have "isWellFormed [65]" "isWellFormed [97]" by (simp_all add: is_high_def is_low_def)
  then have ok: "md_ok lower_ascii ?m"
    by (auto simp: md_ok_def builder_ok_def key_ok_def freezeBuilder_def fromEntries_def is_index_def is_digit_def
        lower_ascii_def lower_unit_def split: if_splits)
  obtain v where v: "encodeMetadataHeader lower_ascii (Branded ?m) = Inr (Some v)"
    using encode_snapshot [OF ok] sample_header by auto
  then show ?thesis using header_roundtrip [OF lowercase_ascii] ok by blast
qed

end
