(* ===== verification/Resilience_Base.thy ===== *)
theory Resilience_Base
  imports Js_Prelude
begin

text \<open>
  \<open>packages/resilience/src/internal.ts\<close>: how the resilience operations read a Context and the
  monotonic clock, and the delay between two attempts. A Context is seen through what one reading
  of its methods returns (\<open>ctx_shape\<close>); the delay is the record of the local variables of
  \<open>waitForDelay\<close> with one function per closure, and the lemmas show that it settles once, keeps
  the first outcome and releases its timer and its listener.
\<close>

section \<open>Reading a Context\<close>

datatype err_result = ErrNull | ErrValue thrown | ErrNotError

datatype ctx_shape =
    NotObject
  | BadMethods
  | BadSignal
  | Shape "bool option" err_result

type_synonym context_state = "bool option \<times> err_result"

fun inspectContext :: "ctx_shape \<Rightarrow> context_state res" where
  "inspectContext NotObject = Inl (TypeError ''ctx must be a Context'')"
| "inspectContext BadMethods = Inl (TypeError ''ctx must implement the Context method shape'')"
| "inspectContext BadSignal = Inl (TypeError ''Context.done() must return an AbortSignal or null'')"
| "inspectContext (Shape signal err) = Inr (signal, err)"

fun readContextFailure :: "context_state \<Rightarrow> thrown option res" where
  "readContextFailure (signal, ErrValue e) = Inr (Some e)"
| "readContextFailure (signal, ErrNotError) =
     Inl (TypeError ''Context.err() must return an Error or null'')"
| "readContextFailure (signal, ErrNull) = Inr (if signal = Some True then Some Canceled else None)"

definition activeContext :: "ctx_shape \<Rightarrow> context_state res" where
  "activeContext ctx =
     bindE (inspectContext ctx) (\<lambda>state.
     bindE (readContextFailure state) (\<lambda>failure.
       case failure of Some e \<Rightarrow> Inl e | None \<Rightarrow> Inr state))"

text \<open>The reading \<open>readContextFailure(inspectContext(ctx))\<close> that several operations repeat.\<close>

definition contextFailure :: "ctx_shape \<Rightarrow> thrown option res" where
  "contextFailure ctx = bindE (inspectContext ctx) readContextFailure"

definition monotonicNow :: "js_number \<Rightarrow> rat res" where
  "monotonicNow v =
     (if isFinite v then Inr (rat_of v)
      else Inl (RangeError ''performance.now() must return a finite number''))"

lemma activeContext_ok:
  "activeContext ctx = Inr st \<longleftrightarrow> inspectContext ctx = Inr st \<and> contextFailure ctx = Inr None"
  by (cases ctx) (auto simp: activeContext_def contextFailure_def js_res split: option.splits)

lemma activeContext_alive: "contextFailure ctx = Inr None \<Longrightarrow> \<exists>st. activeContext ctx = Inr st"
  by (cases ctx) (auto simp: activeContext_def contextFailure_def)

lemma activeContext_terminal: "contextFailure ctx = Inr (Some e) \<Longrightarrow> activeContext ctx = Inl e"
  by (cases ctx) (auto simp: activeContext_def contextFailure_def)

lemma monotonicNow_Fin [simp]: "monotonicNow (Fin r) = Inr r"
  by (simp add: monotonicNow_def)

lemma monotonicNow_Inr: "monotonicNow v = Inr r \<longleftrightarrow> v = Fin r"
  by (cases v) (auto simp: monotonicNow_def)

section \<open>The delay between attempts\<close>

record delay =
  settled :: bool
  timer :: bool
  listening :: bool
  outcome :: "unit res option"

datatype delay_event = TimerFired | AbortFired err_result

definition cleanup :: "bool \<Rightarrow> delay \<Rightarrow> delay" where
  "cleanup has_signal d = d\<lparr>timer := False, listening := listening d \<and> \<not> has_signal\<rparr>"

definition finishDelay :: "bool \<Rightarrow> delay \<Rightarrow> delay" where
  "finishDelay has_signal d =
     (if settled d then d else (cleanup has_signal (d\<lparr>settled := True\<rparr>))\<lparr>outcome := Some (Inr ())\<rparr>)"

definition cancelDelay :: "bool option \<Rightarrow> err_result \<Rightarrow> delay \<Rightarrow> delay" where
  "cancelDelay signal err d =
     (if settled d then d
      else (cleanup (signal \<noteq> None) (d\<lparr>settled := True\<rparr>))
        \<lparr>outcome := Some (case readContextFailure (signal, err) of
            Inl e \<Rightarrow> Inl e
          | Inr None \<Rightarrow> Inl Canceled
          | Inr (Some e) \<Rightarrow> Inl e)\<rparr>)"

text \<open>
  The construction of the promise. \<open>aborted\<close> is the second reading of the signal, after the
  listener has been added; \<open>listen_fault\<close> and \<open>timer_fault\<close> are what \<open>addEventListener\<close> and
  \<open>setTimeout\<close> throw, if they do.
\<close>

definition failDelay :: "bool \<Rightarrow> thrown \<Rightarrow> delay \<Rightarrow> delay" where
  "failDelay has_signal e d = (cleanup has_signal (d\<lparr>settled := True\<rparr>))\<lparr>outcome := Some (Inl e)\<rparr>"

definition waitForDelay ::
    "ctx_shape \<Rightarrow> rat \<Rightarrow> bool \<Rightarrow> err_result \<Rightarrow> thrown option \<Rightarrow> thrown option \<Rightarrow> delay res" where
  "waitForDelay ctx delayMs aborted err listen_fault timer_fault =
     bindE (activeContext ctx) (\<lambda>state.
       let has_signal = (fst state \<noteq> None);
           fresh = \<lparr>settled = False, timer = False, listening = False, outcome = None\<rparr>;
           d = fresh\<lparr>listening := has_signal\<rparr>
       in Inr (
         if delayMs = 0 then fresh\<lparr>settled := True, outcome := Some (Inr ())\<rparr>
         else if has_signal \<and> listen_fault \<noteq> None then failDelay True (the listen_fault) d
         else if has_signal \<and> aborted then cancelDelay (Some True) err d
         else case timer_fault of
                Some e \<Rightarrow> failDelay has_signal e d
              | None \<Rightarrow> d\<lparr>timer := True\<rparr>))"

fun delay_step :: "bool option \<Rightarrow> delay_event \<Rightarrow> delay \<Rightarrow> delay" where
  "delay_step signal TimerFired d = (if timer d then finishDelay (signal \<noteq> None) d else d)"
| "delay_step signal (AbortFired err) d =
     (if listening d then cancelDelay (Some True) err d else d)"

fun delay_run :: "bool option \<Rightarrow> delay \<Rightarrow> delay_event list \<Rightarrow> delay" where
  "delay_run signal d [] = d"
| "delay_run signal d (ev # evs) = delay_run signal (delay_step signal ev d) evs"

definition delay_inv :: "bool option \<Rightarrow> delay \<Rightarrow> bool" where
  "delay_inv signal d \<longleftrightarrow>
     (settled d \<longleftrightarrow> outcome d \<noteq> None) \<and> (settled d \<longrightarrow> \<not> timer d \<and> \<not> listening d) \<and>
     (\<not> settled d \<longrightarrow> timer d) \<and> (listening d \<longrightarrow> signal \<noteq> None)"

lemma waitForDelay_inv:
  assumes "waitForDelay ctx delayMs aborted err listen_fault timer_fault = Inr d" and "inspectContext ctx = Inr (signal, e)"
  shows "delay_inv signal d"
  using assms
  by (auto simp: waitForDelay_def activeContext_ok js_res Let_def delay_inv_def cleanup_def cancelDelay_def
      failDelay_def split: if_splits option.splits)

lemma delay_step_inv: "delay_inv signal d \<Longrightarrow> delay_inv signal (delay_step signal ev d)"
  by (cases ev) (auto simp: delay_inv_def finishDelay_def cancelDelay_def cleanup_def)

lemma delay_step_settled: "delay_inv signal d \<Longrightarrow> settled d \<Longrightarrow> delay_step signal ev d = d"
  by (cases ev) (auto simp: delay_inv_def)

lemma delay_run_inv: "delay_inv signal d \<Longrightarrow> delay_inv signal (delay_run signal d evs)"
  by (induction evs arbitrary: d) (auto intro: delay_step_inv)

lemma delay_run_settled: "delay_inv signal d \<Longrightarrow> settled d \<Longrightarrow> delay_run signal d evs = d"
  by (induction evs arbitrary: d) (auto simp: delay_step_settled)

lemma delay_timer_settles:
  "delay_inv signal d \<Longrightarrow> \<not> settled d \<Longrightarrow>
   settled (delay_step signal TimerFired d) \<and> outcome (delay_step signal TimerFired d) = Some (Inr ())"
  by (auto simp: delay_inv_def finishDelay_def cleanup_def)

end
