(* ===== verification/Circuit.thy ===== *)
theory Circuit
  imports Resilience_Base "HOL-Library.Multiset"
begin

text \<open>
  \<open>packages/resilience/src/circuit.ts\<close>: the consecutive-failure circuit breaker. \<open>breaker\<close> holds
  the mutable variables of \<open>newCircuitBreaker\<close>, and each inner function is one definition. The
  asynchronous \<open>execute\<close> is cut at its two \<open>await\<close>s: \<open>execute_start\<close> runs to the call of the
  operation, \<open>execute_resolve\<close> and \<open>execute_reject\<close> continue when the operation settles, and
  \<open>execute_classified\<close> continues when the failure predicate settles. \<open>brk_step\<close> interleaves the
  parts of any number of concurrent calls, and \<open>brk_inv\<close> is the invariant of every reachable state.
\<close>

section \<open>Configuration and state\<close>

datatype circuit_state = Closed | Open | HalfOpen

datatype ticket_state = TClosed | THalfOpen

record circuit_options =
  opt_failureThreshold :: js_number
  opt_resetTimeoutMs :: js_number

record circuit_config =
  failureThreshold :: nat
  resetTimeoutMs :: rat

record breaker =
  state :: circuit_state
  consecutiveFailures :: nat
  openedAt :: rat
  probeActive :: bool
  generation :: nat

record ticket =
  tk_generation :: nat
  tk_state :: ticket_state

record circuit_snapshot =
  sn_state :: circuit_state
  sn_consecutiveFailures :: nat
  sn_probeActive :: bool
  sn_retryAfterMs :: int

definition initial_breaker :: breaker where
  "initial_breaker = \<lparr>state = Closed, consecutiveFailures = 0, openedAt = 0, probeActive = False,
     generation = 0\<rparr>"

text \<open>\<open>None\<close> stands for an options value that is not an object.\<close>

definition newCircuitBreaker ::
    "circuit_options option \<Rightarrow> bool \<Rightarrow> (circuit_config \<times> breaker) res" where
  "newCircuitBreaker options isFailure_callable =
     (case options of
        None \<Rightarrow> Inl (TypeError ''circuit breaker options must be an object'')
      | Some opts \<Rightarrow>
          bindE (check (isSafeInteger (opt_failureThreshold opts) \<and>
                        \<not> num_less (opt_failureThreshold opts) (Fin 1))
                   (RangeError ''failureThreshold must be a positive safe integer'')) (\<lambda>_.
          bindE (check (isFinite (opt_resetTimeoutMs opts) \<and>
                        \<not> num_less (opt_resetTimeoutMs opts) (Fin 0))
                   (RangeError ''resetTimeoutMs must be a finite non-negative number'')) (\<lambda>_.
          bindE (check isFailure_callable (TypeError ''isFailure must be callable'')) (\<lambda>_.
            Inr (\<lparr>failureThreshold = nat (int_of (opt_failureThreshold opts)),
                  resetTimeoutMs = rat_of (opt_resetTimeoutMs opts)\<rparr>, initial_breaker)))))"

section \<open>The inner functions\<close>

definition refresh :: "circuit_config \<Rightarrow> rat \<Rightarrow> breaker \<Rightarrow> breaker" where
  "refresh cfg observedAt b =
     (if state b \<noteq> Open \<or> observedAt - openedAt b < resetTimeoutMs cfg then b
      else b\<lparr>state := HalfOpen, probeActive := False, generation := generation b + 1\<rparr>)"

definition admit :: "circuit_config \<Rightarrow> rat \<Rightarrow> breaker \<Rightarrow> ticket res \<times> breaker" where
  "admit cfg observedAt b0 =
     (let b = refresh cfg observedAt b0 in
      case state b of
        Open \<Rightarrow> (Inl CircuitOpen, b)
      | HalfOpen \<Rightarrow>
          if probeActive b then (Inl CircuitOpen, b)
          else (Inr \<lparr>tk_generation = generation b, tk_state = THalfOpen\<rparr>, b\<lparr>probeActive := True\<rparr>)
      | Closed \<Rightarrow> (Inr \<lparr>tk_generation = generation b, tk_state = TClosed\<rparr>, b))"

definition openCircuit :: "rat \<Rightarrow> breaker \<Rightarrow> breaker" where
  "openCircuit observedAt b =
     b\<lparr>state := Open, openedAt := observedAt, probeActive := False, generation := generation b + 1\<rparr>"

definition recordSuccess :: "ticket \<Rightarrow> breaker \<Rightarrow> breaker" where
  "recordSuccess tk b =
     (if tk_generation tk \<noteq> generation b then b
      else if tk_state tk = THalfOpen
        then b\<lparr>state := Closed, probeActive := False, consecutiveFailures := 0,
               generation := generation b + 1\<rparr>
      else b\<lparr>consecutiveFailures := 0\<rparr>)"

definition recordFailure ::
    "circuit_config \<Rightarrow> js_number \<Rightarrow> ticket \<Rightarrow> breaker \<Rightarrow> unit res \<times> breaker" where
  "recordFailure cfg clock tk b =
     (if tk_generation tk \<noteq> generation b then (Inr (), b)
      else if tk_state tk = THalfOpen
        then (case monotonicNow clock of Inl e \<Rightarrow> (Inl e, b) | Inr now \<Rightarrow> (Inr (), openCircuit now b))
      else let b' = b\<lparr>consecutiveFailures := consecutiveFailures b + 1\<rparr> in
        if failureThreshold cfg \<le> consecutiveFailures b'
        then (case monotonicNow clock of
                Inl e \<Rightarrow> (Inl e, b') | Inr now \<Rightarrow> (Inr (), openCircuit now b'))
        else (Inr (), b'))"

definition recordNeutral :: "ticket \<Rightarrow> breaker \<Rightarrow> breaker" where
  "recordNeutral tk b =
     (if tk_generation tk = generation b \<and> tk_state tk = THalfOpen then b\<lparr>probeActive := False\<rparr> else b)"

text \<open>\<open>observedContextFailure\<close>: a Context that cannot be read releases the probe and rethrows.\<close>

definition observedContextFailure ::
    "ctx_shape \<Rightarrow> ticket \<Rightarrow> breaker \<Rightarrow> thrown option res \<times> breaker" where
  "observedContextFailure ctx tk b =
     (case contextFailure ctx of
        Inl e \<Rightarrow> (Inl e, recordNeutral tk b)
      | Inr failure \<Rightarrow> (Inr failure, b))"

section \<open>Execution, cut at its awaits\<close>

definition execute_start ::
    "circuit_config \<Rightarrow> ctx_shape \<Rightarrow> bool \<Rightarrow> js_number \<Rightarrow> breaker \<Rightarrow> ticket res \<times> breaker" where
  "execute_start cfg ctx callable clock b =
     (case activeContext ctx of
        Inl e \<Rightarrow> (Inl e, b)
      | Inr _ \<Rightarrow>
          if \<not> callable then (Inl (TypeError ''operation must be callable''), b)
          else case monotonicNow clock of
            Inl e \<Rightarrow> (Inl e, b)
          | Inr now \<Rightarrow> admit cfg now b)"

definition execute_resolve :: "ticket \<Rightarrow> breaker \<Rightarrow> breaker" where
  "execute_resolve tk b = recordSuccess tk b"

text \<open>
  The outcome of a rejected call: it throws a value, or it waits for the failure predicate.
\<close>

datatype rejected = Throws thrown | AwaitsClassifier

definition execute_reject ::
    "circuit_config \<Rightarrow> bool \<Rightarrow> ctx_shape \<Rightarrow> js_number \<Rightarrow> thrown \<Rightarrow> ticket \<Rightarrow> breaker \<Rightarrow>
     rejected \<times> breaker" where
  "execute_reject cfg has_isFailure ctx clock failure tk b =
     (case observedContextFailure ctx tk b of
        (Inl e, b1) \<Rightarrow> (Throws e, b1)
      | (Inr (Some e), b1) \<Rightarrow> (Throws e, recordNeutral tk b1)
      | (Inr None, b1) \<Rightarrow>
          if has_isFailure then (AwaitsClassifier, b1)
          else (case recordFailure cfg clock tk b1 of
                  (Inl e, b2) \<Rightarrow> (Throws e, b2)
                | (Inr _, b2) \<Rightarrow> (Throws failure, b2)))"

datatype classification = ClassifierThrew thrown | ClassifierSaid bool | ClassifierNotBoolean

definition execute_classified ::
    "circuit_config \<Rightarrow> ctx_shape \<Rightarrow> js_number \<Rightarrow> classification \<Rightarrow> thrown \<Rightarrow> ticket \<Rightarrow> breaker \<Rightarrow>
     thrown \<times> breaker" where
  "execute_classified cfg ctx clock said failure tk b =
     (case observedContextFailure ctx tk b of
        (Inl e, b1) \<Rightarrow> (e, b1)
      | (Inr (Some e), b1) \<Rightarrow> (e, recordNeutral tk b1)
      | (Inr None, b1) \<Rightarrow>
          let fail_with = (\<lambda>thrown. case recordFailure cfg clock tk b1 of
                (Inl e, b2) \<Rightarrow> (e, b2) | (Inr _, b2) \<Rightarrow> (thrown, b2))
          in case said of
               ClassifierThrew c \<Rightarrow> fail_with c
             | ClassifierNotBoolean \<Rightarrow> fail_with (TypeError ''isFailure must return a boolean'')
             | ClassifierSaid True \<Rightarrow> fail_with failure
             | ClassifierSaid False \<Rightarrow> (failure, recordSuccess tk b1))"

definition snapshot :: "circuit_config \<Rightarrow> js_number \<Rightarrow> breaker \<Rightarrow> circuit_snapshot res \<times> breaker" where
  "snapshot cfg clock b0 =
     (case monotonicNow clock of
        Inl e \<Rightarrow> (Inl e, b0)
      | Inr observedAt \<Rightarrow>
          let b = refresh cfg observedAt b0;
              retryAfterMs = (if state b = Open
                then max 0 \<lceil>openedAt b + resetTimeoutMs cfg - observedAt\<rceil> else 0)
          in (Inr \<lparr>sn_state = state b, sn_consecutiveFailures = consecutiveFailures b,
                   sn_probeActive = probeActive b, sn_retryAfterMs = retryAfterMs\<rparr>, b))"

section \<open>Concurrent calls\<close>

text \<open>
  The tickets of the calls that wait for their operation and of those that wait for the failure
  predicate. One step runs one part of one call to its next \<open>await\<close>.
\<close>

record breaker_sys =
  brk :: breaker
  running :: "ticket list"
  classifying :: "ticket list"

inductive brk_step :: "circuit_config \<Rightarrow> bool \<Rightarrow> breaker_sys \<Rightarrow> breaker_sys \<Rightarrow> bool"
  for cfg :: circuit_config and has_isFailure :: bool where
  start_admitted:
    "execute_start cfg ctx callable clock (brk s) = (Inr tk, b) \<Longrightarrow>
     brk_step cfg has_isFailure s (s\<lparr>brk := b, running := tk # running s\<rparr>)"
| start_rejected:
    "execute_start cfg ctx callable clock (brk s) = (Inl e, b) \<Longrightarrow>
     brk_step cfg has_isFailure s (s\<lparr>brk := b\<rparr>)"
| resolve:
    "tk \<in> set (running s) \<Longrightarrow>
     brk_step cfg has_isFailure s
       (s\<lparr>brk := execute_resolve tk (brk s), running := remove1 tk (running s)\<rparr>)"
| reject_throws:
    "tk \<in> set (running s) \<Longrightarrow>
     execute_reject cfg has_isFailure ctx clock failure tk (brk s) = (Throws e, b) \<Longrightarrow>
     brk_step cfg has_isFailure s (s\<lparr>brk := b, running := remove1 tk (running s)\<rparr>)"
| reject_awaits:
    "tk \<in> set (running s) \<Longrightarrow>
     execute_reject cfg has_isFailure ctx clock failure tk (brk s) = (AwaitsClassifier, b) \<Longrightarrow>
     brk_step cfg has_isFailure s
       (s\<lparr>brk := b, running := remove1 tk (running s), classifying := tk # classifying s\<rparr>)"
| classified:
    "tk \<in> set (classifying s) \<Longrightarrow>
     execute_classified cfg ctx clock said failure tk (brk s) = (e, b) \<Longrightarrow>
     brk_step cfg has_isFailure s (s\<lparr>brk := b, classifying := remove1 tk (classifying s)\<rparr>)"
| snapshot:
    "snapshot cfg clock (brk s) = (r, b) \<Longrightarrow> brk_step cfg has_isFailure s (s\<lparr>brk := b\<rparr>)"

inductive brk_reachable :: "circuit_config \<Rightarrow> bool \<Rightarrow> breaker_sys \<Rightarrow> bool"
  for cfg :: circuit_config and has_isFailure :: bool where
  init: "brk_reachable cfg has_isFailure \<lparr>brk = initial_breaker, running = [], classifying = []\<rparr>"
| step: "brk_reachable cfg has_isFailure s \<Longrightarrow> brk_step cfg has_isFailure s t \<Longrightarrow>
     brk_reachable cfg has_isFailure t"

text \<open>The calls in flight, and those that hold a half-open ticket of the current generation.\<close>

definition flight :: "breaker_sys \<Rightarrow> ticket multiset" where
  "flight s = mset (running s) + mset (classifying s)"

definition is_probe :: "breaker \<Rightarrow> ticket \<Rightarrow> bool" where
  "is_probe b tk \<longleftrightarrow> tk_generation tk = generation b \<and> tk_state tk = THalfOpen"

definition probes :: "breaker_sys \<Rightarrow> ticket multiset" where
  "probes s = filter_mset (is_probe (brk s)) (flight s)"

section \<open>The invariant of every reachable state\<close>

definition flight_inv :: "breaker \<Rightarrow> ticket multiset \<Rightarrow> bool" where
  "flight_inv b fl \<longleftrightarrow>
     (\<forall>tk \<in># fl. tk_generation tk \<le> generation b) \<and>
     (\<forall>tk \<in># fl. tk_generation tk = generation b \<and> tk_state tk = TClosed \<longrightarrow> state b = Closed) \<and>
     size (filter_mset (is_probe b) fl) \<le> (if state b = HalfOpen \<and> probeActive b then 1 else 0)"

lemma flight_inv_sub: "flight_inv b fl \<Longrightarrow> fl' \<subseteq># fl \<Longrightarrow> flight_inv b fl'"
  unfolding flight_inv_def
  by (meson mset_subset_eqD multiset_filter_mono size_mset_mono order_trans)

lemma flight_inv_bump:
  assumes "flight_inv b fl" and "generation b' = generation b + 1" and "fl' \<subseteq># fl"
  shows "flight_inv b' fl'"
proof -
  have le: "tk_generation tk < generation b'" if "tk \<in># fl'" for tk
    using assms that by (metis flight_inv_def mset_subset_eqD less_Suc_eq_le Suc_eq_plus1)
  then have "filter_mset (is_probe b') fl' = {#}"
    by (fastforce simp: filter_mset_eq_conv is_probe_def dest: le)
  then show ?thesis
    using le by (fastforce simp: flight_inv_def less_imp_le dest: le)
qed

lemma flight_inv_cong:
  "flight_inv b fl \<Longrightarrow> generation b' = generation b \<Longrightarrow> state b' = state b \<Longrightarrow>
   probeActive b' = probeActive b \<Longrightarrow> flight_inv b' fl"
  unfolding flight_inv_def is_probe_def by simp

lemma flight_inv_release:
  assumes "flight_inv b fl" and "tk \<in># fl" and "is_probe b tk"
  shows "flight_inv (b\<lparr>probeActive := False\<rparr>) (fl - {#tk#})"
proof -
  have "size (filter_mset (is_probe b) (fl - {#tk#})) = size (filter_mset (is_probe b) fl) - 1"
    using assms(2,3) by (simp add: size_Diff_singleton)
  then have "filter_mset (is_probe b) (fl - {#tk#}) = {#}"
    using assms(1) by (auto simp: flight_inv_def split: if_splits)
  moreover have "is_probe (b\<lparr>probeActive := False\<rparr>) = is_probe b"
    by (auto simp: is_probe_def)
  ultimately show ?thesis
    using assms(1) by (auto simp: flight_inv_def dest: in_diffD)
qed

lemma refresh_inv: "flight_inv b fl \<Longrightarrow> flight_inv (refresh cfg now b) fl"
  by (auto simp: refresh_def intro: flight_inv_bump)

lemma admit_inv:
  assumes "flight_inv b fl" and "admit cfg now b = (r, b')"
  shows "flight_inv b' (case r of Inl _ \<Rightarrow> fl | Inr tk \<Rightarrow> add_mset tk fl)"
proof -
  have inv: "flight_inv (refresh cfg now b) fl"
    using assms(1) by (rule refresh_inv)
  then show ?thesis
    using assms(2)
    by (auto simp: admit_def Let_def flight_inv_def is_probe_def split: circuit_state.splits if_splits)
qed

lemma recordSuccess_inv:
  assumes "flight_inv b fl" and "tk \<in># fl"
  shows "flight_inv (recordSuccess tk b) (fl - {#tk#})"
proof -
  have "flight_inv (b\<lparr>consecutiveFailures := n\<rparr>) (fl - {#tk#})" for n
    by (rule flight_inv_cong [OF flight_inv_sub [OF assms(1) diff_subset_eq_self]]) simp_all
  then show ?thesis
    using assms by (auto simp: recordSuccess_def intro: flight_inv_bump flight_inv_sub)
qed

lemma openCircuit_inv:
  "flight_inv b fl \<Longrightarrow> fl' \<subseteq># fl \<Longrightarrow> flight_inv (openCircuit now b) fl'"
  by (rule flight_inv_bump) (auto simp: openCircuit_def)

lemma recordFailure_inv:
  assumes "flight_inv b fl" and "recordFailure cfg clock tk b = (r, b')"
  shows "flight_inv b' (fl - {#tk#})"
proof -
  have sub: "flight_inv b (fl - {#tk#})"
    using assms(1) by (rule flight_inv_sub) simp
  have fails: "flight_inv (b\<lparr>consecutiveFailures := n\<rparr>) (fl - {#tk#})" for n
    by (rule flight_inv_cong [OF sub]) simp_all
  show ?thesis
    using assms(2) sub fails [of "Suc (consecutiveFailures b)"]
    by (auto simp: recordFailure_def Let_def intro: openCircuit_inv split: if_splits sum.splits)
qed

lemma recordNeutral_inv:
  assumes "flight_inv b fl" and "tk \<in># fl"
  shows "flight_inv (recordNeutral tk b) (fl - {#tk#})"
  using assms flight_inv_release [OF assms]
  by (auto simp: recordNeutral_def is_probe_def intro: flight_inv_sub)

lemmas record_inv = recordSuccess_inv recordFailure_inv recordNeutral_inv

lemma recordNeutral_again: "recordNeutral tk (recordNeutral tk b) = recordNeutral tk b"
  by (simp add: recordNeutral_def)

lemma execute_reject_inv:
  assumes "flight_inv b fl" and "tk \<in># fl"
    and "execute_reject cfg has_isFailure ctx clock failure tk b = (r, b')"
  shows "flight_inv b' (case r of Throws _ \<Rightarrow> fl - {#tk#} | AwaitsClassifier \<Rightarrow> fl)"
  using assms
  by (auto simp: execute_reject_def observedContextFailure_def intro: recordNeutral_inv
      dest: recordFailure_inv split: sum.splits option.splits prod.splits if_splits)

lemma execute_classified_inv:
  assumes "flight_inv b fl" and "tk \<in># fl"
    and "execute_classified cfg ctx clock said failure tk b = (e, b')"
  shows "flight_inv b' (fl - {#tk#})"
  using assms
  by (auto simp: execute_classified_def observedContextFailure_def Let_def
      intro: recordNeutral_inv recordSuccess_inv dest: recordFailure_inv
      split: sum.splits option.splits prod.splits classification.splits bool.splits)

lemma execute_start_inv:
  assumes "flight_inv b fl" and "execute_start cfg ctx callable clock b = (r, b')"
  shows "flight_inv b' (case r of Inl _ \<Rightarrow> fl | Inr tk \<Rightarrow> add_mset tk fl)"
  using assms
  by (auto simp: execute_start_def dest: admit_inv [OF assms(1)] split: sum.splits if_splits)

lemma snapshot_inv: "flight_inv b fl \<Longrightarrow> snapshot cfg clock b = (r, b') \<Longrightarrow> flight_inv b' fl"
  by (auto simp: snapshot_def Let_def intro: refresh_inv split: sum.splits)

lemma brk_step_inv:
  assumes "brk_step cfg has_isFailure s t" and "flight_inv (brk s) (flight s)"
  shows "flight_inv (brk t) (flight t)"
  using assms
proof (induction rule: brk_step.induct)
  case (start_admitted ctx callable clock s tk b)
  then show ?case by (auto simp: flight_def dest: execute_start_inv)
next
  case (start_rejected ctx callable clock s e b)
  then show ?case by (auto simp: flight_def dest: execute_start_inv)
next
  case (resolve tk s)
  then show ?case
    using recordSuccess_inv [of "brk s" "flight s" tk] by (simp add: flight_def execute_resolve_def)
next
  case (reject_throws tk s ctx clock failure e b)
  then show ?case
    using execute_reject_inv [of "brk s" "flight s" tk] by (fastforce simp: flight_def)
next
  case (reject_awaits tk s ctx clock failure b)
  then show ?case
    using execute_reject_inv [of "brk s" "flight s" tk] by (fastforce simp: flight_def)
next
  case (classified tk s ctx clock said failure e b)
  then show ?case
    using execute_classified_inv [of "brk s" "flight s" tk] by (fastforce simp: flight_def)
next
  case (snapshot clock s r b)
  then show ?case by (auto simp: flight_def dest: snapshot_inv)
qed

lemma brk_reachable_inv: "brk_reachable cfg has_isFailure s \<Longrightarrow> flight_inv (brk s) (flight s)"
proof (induction rule: brk_reachable.induct)
  case init
  then show ?case by (simp add: flight_inv_def flight_def initial_breaker_def)
next
  case (step s t)
  then show ?case by (blast intro: brk_step_inv)
qed

section \<open>What the breaker promises\<close>

lemma admit_open:
  "state b = Open \<Longrightarrow> now - openedAt b < resetTimeoutMs cfg \<Longrightarrow> admit cfg now b = (Inl CircuitOpen, b)"
  by (simp add: admit_def refresh_def)

lemma admit_elapsed:
  "state b = Open \<Longrightarrow> resetTimeoutMs cfg \<le> now - openedAt b \<Longrightarrow>
   admit cfg now b = (Inr \<lparr>tk_generation = generation b + 1, tk_state = THalfOpen\<rparr>,
     b\<lparr>state := HalfOpen, probeActive := True, generation := generation b + 1\<rparr>)"
  by (simp add: admit_def refresh_def)

lemma execute_start_alive:
  "contextFailure ctx = Inr None \<Longrightarrow> execute_start cfg ctx True (Fin now) b = admit cfg now b"
  by (auto simp: execute_start_def dest: activeContext_alive)

text \<open>One whole call whose operation rejects with a breaker failure, with no other call between.\<close>

definition failing_call :: "circuit_config \<Rightarrow> ctx_shape \<Rightarrow> rat \<Rightarrow> thrown \<Rightarrow> breaker \<Rightarrow> breaker" where
  "failing_call cfg ctx now failure b =
     (case execute_start cfg ctx True (Fin now) b of
        (Inl _, b1) \<Rightarrow> b1
      | (Inr tk, b1) \<Rightarrow> snd (execute_reject cfg False ctx (Fin now) failure tk b1))"

definition failing_calls ::
    "circuit_config \<Rightarrow> ctx_shape \<Rightarrow> rat \<Rightarrow> thrown \<Rightarrow> nat \<Rightarrow> breaker \<Rightarrow> breaker" where
  "failing_calls cfg ctx now failure n b = (failing_call cfg ctx now failure ^^ n) b"

lemma failing_call_closed:
  "state b = Closed \<Longrightarrow> contextFailure ctx = Inr None \<Longrightarrow>
   failing_call cfg ctx now failure b =
    (if failureThreshold cfg \<le> consecutiveFailures b + 1
     then openCircuit now (b\<lparr>consecutiveFailures := consecutiveFailures b + 1\<rparr>)
     else b\<lparr>consecutiveFailures := consecutiveFailures b + 1\<rparr>)"
  by (simp add: failing_call_def execute_start_alive admit_def refresh_def execute_reject_def
      observedContextFailure_def recordFailure_def Let_def)

lemma failing_calls_below:
  assumes "state b = Closed" and "contextFailure ctx = Inr None"
    and "consecutiveFailures b + n < failureThreshold cfg"
  shows "failing_calls cfg ctx now failure n b = b\<lparr>consecutiveFailures := consecutiveFailures b + n\<rparr>"
  using assms(3)
proof (induction n)
  case (Suc n)
  then have "failing_calls cfg ctx now failure n b =
      b\<lparr>consecutiveFailures := consecutiveFailures b + n\<rparr>" by simp
  then show ?case
    using Suc.prems assms(1,2) by (simp add: failing_call_closed failing_calls_def)
qed (simp add: failing_calls_def)

text \<open>
  C15: However calls of one breaker interleave (starts, operation outcomes, failure predicates,
  cancellations, snapshots, at any clock readings), at most one call in flight is a half-open probe
  of the current generation, and there is one only while the breaker is half-open and has marked
  its probe as active.
\<close>

theorem single_probe:
  assumes "brk_reachable cfg has_isFailure s"
  shows "size (probes s) \<le> 1 \<and>
    (probes s \<noteq> {#} \<longrightarrow> state (brk s) = HalfOpen \<and> probeActive (brk s))"
proof -
  have "size (probes s) \<le> (if state (brk s) = HalfOpen \<and> probeActive (brk s) then 1 else 0)"
    using brk_reachable_inv [OF assms] by (simp only: flight_inv_def probes_def)
  then show ?thesis by (auto split: if_splits)
qed

text \<open>
  A closed breaker with no recorded failure stays closed, counting, through fewer than
  \<open>failureThreshold\<close> failing calls in a row, and opens at the call that reaches the threshold.
  While it is open and the reset timeout has not elapsed, a call is refused with \<open>circuitOpen\<close>
  and changes nothing.
\<close>

lemma opens_at_threshold:
  assumes "state b = Closed" and "consecutiveFailures b = 0" and "contextFailure ctx = Inr None"
    and "n < failureThreshold cfg" and "later - now < resetTimeoutMs cfg"
  shows "state (failing_calls cfg ctx now failure n b) = Closed \<and>
    consecutiveFailures (failing_calls cfg ctx now failure n b) = n \<and>
    (let opened = failing_calls cfg ctx now failure (failureThreshold cfg) b in
     state opened = Open \<and> execute_start cfg ctx True (Fin later) opened = (Inl CircuitOpen, opened))"
proof -
  have below: "failing_calls cfg ctx now failure k b = b\<lparr>consecutiveFailures := k\<rparr>"
    if "k < failureThreshold cfg" for k
    using that assms(1-3) by (simp add: failing_calls_below)
  obtain m where m: "failureThreshold cfg = Suc m"
    using assms(4) by (cases "failureThreshold cfg") auto
  have "failing_calls cfg ctx now failure (Suc m) b =
      failing_call cfg ctx now failure (failing_calls cfg ctx now failure m b)"
    by (simp add: failing_calls_def)
  also have "\<dots> = openCircuit now (b\<lparr>consecutiveFailures := Suc m\<rparr>)"
    using below [of m] m assms(1,3) by (simp add: failing_call_closed)
  finally have opened: "failing_calls cfg ctx now failure (failureThreshold cfg) b =
      openCircuit now (b\<lparr>consecutiveFailures := Suc m\<rparr>)"
    using m by simp
  then show ?thesis
    using below [OF assms(4)] assms(1,3,5)
    by (simp add: execute_start_alive admit_open openCircuit_def Let_def)
qed

text \<open>
  When the breaker opens, every call still in flight becomes stale: whatever its operation or
  its failure predicate does later, its outcome changes nothing, so it can neither close the
  breaker nor count against it.
\<close>

lemma stale_outcomes_ignored:
  assumes "brk_reachable cfg has_isFailure s" and "tk \<in># flight s"
  shows "let opened = openCircuit now (brk s) in
    execute_resolve tk opened = opened \<and>
    snd (execute_reject cfg has ctx clock failure tk opened) = opened \<and>
    snd (execute_classified cfg ctx clock said failure tk opened) = opened"
proof -
  have "tk_generation tk \<noteq> generation (openCircuit now (brk s))"
    using brk_reachable_inv [OF assms(1)] assms(2)
    by (fastforce simp: flight_inv_def openCircuit_def)
  then show ?thesis
    by (auto simp: execute_resolve_def execute_reject_def execute_classified_def Let_def
        observedContextFailure_def recordSuccess_def recordFailure_def recordNeutral_def
        split: sum.splits option.splits classification.splits bool.splits)
qed


section \<open>Witnesses\<close>

definition wit_cfg :: circuit_config where
  "wit_cfg = \<lparr>failureThreshold = 1, resetTimeoutMs = 10\<rparr>"

definition wit_ctx :: ctx_shape where
  "wit_ctx = Shape (Some False) ErrNull"

definition wit_probing :: breaker_sys where
  "wit_probing = \<lparr>brk = \<lparr>state = HalfOpen, consecutiveFailures = 1, openedAt = 5, probeActive = True,
     generation = 2\<rparr>, running = [\<lparr>tk_generation = 2, tk_state = THalfOpen\<rparr>], classifying = []\<rparr>"

lemmas wit_defs = wit_cfg_def wit_ctx_def wit_probing_def execute_start_def activeContext_def
  admit_def refresh_def execute_reject_def observedContextFailure_def contextFailure_def
  recordFailure_def recordSuccess_def recordNeutral_def openCircuit_def execute_resolve_def
  execute_classified_def initial_breaker_def snapshot_def failing_call_def failing_calls_def Let_def

lemma wit_probing_reachable: "brk_reachable wit_cfg False wit_probing"
proof -
  let ?s0 = "\<lparr>brk = initial_breaker, running = [], classifying = []\<rparr> :: breaker_sys"
  let ?tk = "\<lparr>tk_generation = 0, tk_state = TClosed\<rparr>"
  let ?s1 = "?s0\<lparr>running := [?tk]\<rparr>"
  let ?b2 = "\<lparr>state = Open, consecutiveFailures = 1, openedAt = 5, probeActive = False, generation = 1\<rparr>"
  let ?s2 = "?s0\<lparr>brk := ?b2\<rparr>"
  have 0: "brk_reachable wit_cfg False ?s0" by (rule brk_reachable.init)
  have "brk_step wit_cfg False ?s0 ?s1"
    using start_admitted [of wit_cfg wit_ctx True "Fin 1" ?s0 ?tk initial_breaker False]
    by (simp add: wit_defs)
  with 0 have 1: "brk_reachable wit_cfg False ?s1" by (rule brk_reachable.step)
  have "brk_step wit_cfg False ?s1 ?s2"
    using reject_throws [of ?tk ?s1 wit_cfg False wit_ctx "Fin 5" "UserError 0" "UserError 0" ?b2]
    by (simp add: wit_defs)
  with 1 have 2: "brk_reachable wit_cfg False ?s2" by (rule brk_reachable.step)
  have "brk_step wit_cfg False ?s2 wit_probing"
    using start_admitted [of wit_cfg wit_ctx True "Fin 15" ?s2
        "\<lparr>tk_generation = 2, tk_state = THalfOpen\<rparr>" "brk wit_probing" False]
    by (simp add: wit_defs)
  with 2 show ?thesis by (rule brk_reachable.step)
qed

theorem single_probe_witness:
  "brk_reachable wit_cfg False wit_probing \<and> size (probes wit_probing) = 1 \<and>
   state (brk wit_probing) = HalfOpen \<and> probeActive (brk wit_probing)"
proof -
  have "probes wit_probing \<noteq> {#}"
    by (simp add: probes_def flight_def is_probe_def wit_probing_def)
  then show ?thesis
    using single_probe [OF wit_probing_reachable] wit_probing_reachable
    by (auto simp: le_Suc_eq)
qed

definition wit_open :: breaker where
  "wit_open = \<lparr>state = Open, consecutiveFailures = 1, openedAt = 5, probeActive = False, generation = 1\<rparr>"

definition wit_snapshot :: circuit_snapshot where
  "wit_snapshot = \<lparr>sn_state = Open, sn_consecutiveFailures = 1, sn_probeActive = False, sn_retryAfterMs = 8\<rparr>"


end
