(* ===== verification/Limiter.thy ===== *)
theory Limiter
  imports Resilience_Base
begin

text \<open>
  \<open>packages/resilience/src/limiter.ts\<close>: the token bucket that refills lazily. \<open>limiter\<close> holds the
  two mutable variables of \<open>newTokenBucketLimiter\<close>; the lemmas bound the number of admitted calls
  in any run by the tokens that existed or were refilled, and show that the delay of a refusal is
  enough.
\<close>

record bucket_options =
  opt_capacity :: js_number
  opt_refillTokens :: js_number
  opt_refillIntervalMs :: js_number
  opt_initialTokens :: "js_number option"

record bucket_config =
  capacity :: int
  refillTokens :: int
  refillIntervalMs :: int

record limiter =
  availableTokens :: int
  lastRefillAt :: rat

record decision =
  allowed :: bool
  retryAfterMs :: int

record limiter_snapshot =
  ls_availableTokens :: int
  ls_capacity :: int
  ls_nextRefillInMs :: int

definition positiveInteger :: "js_number \<Rightarrow> string \<Rightarrow> int res" where
  "positiveInteger value name =
     (if isSafeInteger value \<and> \<not> num_less value (Fin 1) then Inr (int_of value)
      else Inl (RangeError (name @ '' must be a positive safe integer'')))"

definition newTokenBucketLimiter ::
    "bucket_options option \<Rightarrow> js_number \<Rightarrow> (bucket_config \<times> limiter) res" where
  "newTokenBucketLimiter options clock =
     (case options of
        None \<Rightarrow> Inl (TypeError ''token bucket options must be an object'')
      | Some opts \<Rightarrow>
          bindE (positiveInteger (opt_capacity opts) ''capacity'') (\<lambda>cap.
          bindE (positiveInteger (opt_refillTokens opts) ''refillTokens'') (\<lambda>tokens.
          bindE (positiveInteger (opt_refillIntervalMs opts) ''refillIntervalMs'') (\<lambda>interval.
          let initial = (case opt_initialTokens opts of None \<Rightarrow> Fin (of_int cap) | Some n \<Rightarrow> n) in
          bindE (check (isSafeInteger initial \<and> \<not> num_less initial (Fin 0) \<and>
                        \<not> num_less (Fin (of_int cap)) initial)
                   (RangeError ''initialTokens must be a safe integer between 0 and capacity'')) (\<lambda>_.
          bindE (monotonicNow clock) (\<lambda>now.
            Inr (\<lparr>capacity = cap, refillTokens = tokens, refillIntervalMs = interval\<rparr>,
                 \<lparr>availableTokens = int_of initial, lastRefillAt = now\<rparr>)))))))"

definition refill :: "bucket_config \<Rightarrow> rat \<Rightarrow> limiter \<Rightarrow> limiter" where
  "refill cfg observedAt l =
     (if observedAt \<le> lastRefillAt l then l
      else let intervals = \<lfloor>(observedAt - lastRefillAt l) / of_int (refillIntervalMs cfg)\<rfloor> in
        if intervals < 1 then l
        else \<lparr>availableTokens = min (capacity cfg) (availableTokens l + intervals * refillTokens cfg),
              lastRefillAt = lastRefillAt l + of_int (intervals * refillIntervalMs cfg)\<rparr>)"

definition nextRefillIn :: "bucket_config \<Rightarrow> rat \<Rightarrow> limiter \<Rightarrow> int" where
  "nextRefillIn cfg observedAt l =
     (let elapsed = max 0 (observedAt - lastRefillAt l)
      in max 0 \<lceil>of_int (refillIntervalMs cfg) - elapsed\<rceil>)"

definition allow ::
    "bucket_config \<Rightarrow> ctx_shape \<Rightarrow> js_number \<Rightarrow> limiter \<Rightarrow> decision res \<times> limiter" where
  "allow cfg ctx clock l0 =
     (case activeContext ctx of
        Inl e \<Rightarrow> (Inl e, l0)
      | Inr _ \<Rightarrow>
          (case monotonicNow clock of
             Inl e \<Rightarrow> (Inl e, l0)
           | Inr observedAt \<Rightarrow>
               let l = refill cfg observedAt l0 in
               if 0 < availableTokens l
               then (Inr \<lparr>allowed = True, retryAfterMs = 0\<rparr>,
                     l\<lparr>availableTokens := availableTokens l - 1\<rparr>)
               else (Inr \<lparr>allowed = False, retryAfterMs = nextRefillIn cfg observedAt l\<rparr>, l)))"

definition limiter_snapshot_of ::
    "bucket_config \<Rightarrow> js_number \<Rightarrow> limiter \<Rightarrow> limiter_snapshot res \<times> limiter" where
  "limiter_snapshot_of cfg clock l0 =
     (case monotonicNow clock of
        Inl e \<Rightarrow> (Inl e, l0)
      | Inr observedAt \<Rightarrow>
          let l = refill cfg observedAt l0 in
          (Inr \<lparr>ls_availableTokens = availableTokens l, ls_capacity = capacity cfg,
                ls_nextRefillInMs = nextRefillIn cfg observedAt l\<rparr>, l))"

section \<open>Runs\<close>

datatype limiter_call = Allow ctx_shape js_number | Snapshot js_number

fun limiter_step :: "bucket_config \<Rightarrow> limiter_call \<Rightarrow> limiter \<Rightarrow> bool \<times> limiter" where
  "limiter_step cfg (Allow ctx clock) l =
     (case allow cfg ctx clock l of (r, l') \<Rightarrow> (case r of Inl _ \<Rightarrow> False | Inr d \<Rightarrow> allowed d, l'))"
| "limiter_step cfg (Snapshot clock) l = (False, snd (limiter_snapshot_of cfg clock l))"

fun limiter_run :: "bucket_config \<Rightarrow> limiter_call list \<Rightarrow> limiter \<Rightarrow> nat \<times> limiter" where
  "limiter_run cfg [] l = (0, l)"
| "limiter_run cfg (c # cs) l =
     (let (ok, l1) = limiter_step cfg c l; (n, l2) = limiter_run cfg cs l1
      in ((if ok then 1 else 0) + n, l2))"

fun call_clock :: "limiter_call \<Rightarrow> js_number" where
  "call_clock (Allow _ clock) = clock"
| "call_clock (Snapshot clock) = clock"

definition bucket_ok :: "bucket_config \<Rightarrow> bool" where
  "bucket_ok cfg \<longleftrightarrow> 1 \<le> capacity cfg \<and> 1 \<le> refillTokens cfg \<and> 1 \<le> refillIntervalMs cfg"

definition limiter_ok :: "bucket_config \<Rightarrow> limiter \<Rightarrow> bool" where
  "limiter_ok cfg l \<longleftrightarrow> 0 \<le> availableTokens l \<and> availableTokens l \<le> capacity cfg"

text \<open>
  What has been paid for: the bucket has passed \<open>k\<close> refill boundaries since \<open>t0\<close>, the last of them
  not after \<open>t1\<close>, and holds at most the initial tokens and \<open>k\<close> refills less the admitted calls.
\<close>

definition accounted ::
    "bucket_config \<Rightarrow> int \<Rightarrow> rat \<Rightarrow> rat \<Rightarrow> int \<Rightarrow> nat \<Rightarrow> limiter \<Rightarrow> bool" where
  "accounted cfg tokens t0 t1 k used l \<longleftrightarrow>
     0 \<le> k \<and> lastRefillAt l = t0 + of_int (k * refillIntervalMs cfg) \<and> lastRefillAt l \<le> t1 \<and>
     limiter_ok cfg l \<and> int used + availableTokens l \<le> tokens + k * refillTokens cfg"

lemma positiveInteger_Inr: "positiveInteger v name = Inr n \<Longrightarrow> 1 \<le> n \<and> n \<le> max_safe"
  using isSafeInteger_int_of [of v]
  by (auto simp: positiveInteger_def num_less_safe split: if_splits)

lemma newTokenBucketLimiter_ok:
  assumes "newTokenBucketLimiter options clock = Inr (cfg, l)"
  shows "bucket_ok cfg \<and> limiter_ok cfg l"
  using assms
  by (auto simp: newTokenBucketLimiter_def js_res bucket_ok_def limiter_ok_def Let_def num_less_safe
      dest!: positiveInteger_Inr split: option.splits)

lemma refill_ok: "bucket_ok cfg \<Longrightarrow> limiter_ok cfg l \<Longrightarrow> limiter_ok cfg (refill cfg t l)"
  by (auto simp: refill_def limiter_ok_def bucket_ok_def Let_def)

lemma refill_accounted:
  assumes cfg: "bucket_ok cfg" and acc: "accounted cfg tokens t0 t1 k used l" and "t \<le> t1"
  shows "\<exists>k'. accounted cfg tokens t0 t1 k' used (refill cfg t l)"
proof (cases "refill cfg t l = l")
  case True
  with acc show ?thesis by auto
next
  case False
  define n where "n = \<lfloor>(t - lastRefillAt l) / of_int (refillIntervalMs cfg)\<rfloor>"
  have n: "1 \<le> n" and eq: "refill cfg t l =
      \<lparr>availableTokens = min (capacity cfg) (availableTokens l + n * refillTokens cfg),
       lastRefillAt = lastRefillAt l + of_int (n * refillIntervalMs cfg)\<rparr>"
    using False by (auto simp: refill_def n_def Let_def split: if_splits)
  have pos: "(0::rat) < of_int (refillIntervalMs cfg)"
    using cfg by (simp add: bucket_ok_def)
  have "of_int n \<le> (t - lastRefillAt l) / of_int (refillIntervalMs cfg)"
    by (simp add: n_def)
  then have "of_int n * of_int (refillIntervalMs cfg) \<le> t - lastRefillAt l"
    using pos by (simp add: le_divide_eq)
  then have "lastRefillAt (refill cfg t l) \<le> t1"
    using eq \<open>t \<le> t1\<close> by simp
  moreover have "limiter_ok cfg (refill cfg t l)"
    using acc cfg by (simp add: accounted_def refill_ok)
  ultimately have "accounted cfg tokens t0 t1 (k + n) used (refill cfg t l)"
    using acc n eq by (auto simp: accounted_def algebra_simps)
  then show ?thesis ..
qed

lemma allow_cases:
  "snd (allow cfg ctx clock l) = l \<and> fst (limiter_step cfg (Allow ctx clock) l) = False \<or>
   (\<exists>t. clock = Fin t \<and>
     (let r = refill cfg t l in
      if 0 < availableTokens r
      then allow cfg ctx clock l = (Inr \<lparr>allowed = True, retryAfterMs = 0\<rparr>,
             r\<lparr>availableTokens := availableTokens r - 1\<rparr>)
      else allow cfg ctx clock l = (Inr \<lparr>allowed = False, retryAfterMs = nextRefillIn cfg t r\<rparr>, r)))"
  by (auto simp: allow_def Let_def monotonicNow_Inr split: sum.splits)

lemma limiter_step_accounted:
  assumes cfg: "bucket_ok cfg" and acc: "accounted cfg tokens t0 t1 k used l"
    and le: "\<And>t. call_clock c = Fin t \<Longrightarrow> t \<le> t1"
    and st: "limiter_step cfg c l = (ok, l')"
  shows "\<exists>k'. accounted cfg tokens t0 t1 k' (used + (if ok then 1 else 0)) l'"
proof (cases c)
  case (Allow ctx clock)
  show ?thesis
    using allow_cases [of cfg ctx clock l]
  proof
    assume "snd (allow cfg ctx clock l) = l \<and> fst (limiter_step cfg (Allow ctx clock) l) = False"
    then show ?thesis
      using st acc Allow by (auto split: prod.splits)
  next
    assume "\<exists>t. clock = Fin t \<and> (let r = refill cfg t l in
      if 0 < availableTokens r
      then allow cfg ctx clock l = (Inr \<lparr>allowed = True, retryAfterMs = 0\<rparr>,
             r\<lparr>availableTokens := availableTokens r - 1\<rparr>)
      else allow cfg ctx clock l = (Inr \<lparr>allowed = False, retryAfterMs = nextRefillIn cfg t r\<rparr>, r))"
    then obtain t where t: "clock = Fin t" and eq: "let r = refill cfg t l in
      if 0 < availableTokens r
      then allow cfg ctx clock l = (Inr \<lparr>allowed = True, retryAfterMs = 0\<rparr>,
             r\<lparr>availableTokens := availableTokens r - 1\<rparr>)
      else allow cfg ctx clock l = (Inr \<lparr>allowed = False, retryAfterMs = nextRefillIn cfg t r\<rparr>, r)"
      by blast
    obtain k' where k': "accounted cfg tokens t0 t1 k' used (refill cfg t l)"
      using refill_accounted [OF cfg acc] le Allow t by fastforce
    then have "accounted cfg tokens t0 t1 k' (used + (if ok then 1 else 0)) l'"
      using st Allow eq
      by (auto simp: Let_def accounted_def limiter_ok_def split: if_splits)
    then show ?thesis ..
  qed
next
  case (Snapshot clock)
  show ?thesis
  proof (cases "monotonicNow clock")
    case (Inl e)
    then show ?thesis using st acc Snapshot by (auto simp: limiter_snapshot_of_def)
  next
    case (Inr t)
    then show ?thesis
      using refill_accounted [OF cfg acc, of t] le st Snapshot
      by (auto simp: limiter_snapshot_of_def Let_def monotonicNow_Inr)
  qed
qed

lemma limiter_run_accounted:
  assumes "bucket_ok cfg" and "accounted cfg tokens t0 t1 k used l"
    and "\<And>c t. c \<in> set cs \<Longrightarrow> call_clock c = Fin t \<Longrightarrow> t \<le> t1"
    and "limiter_run cfg cs l = (n, l')"
  shows "\<exists>k'. accounted cfg tokens t0 t1 k' (used + n) l'"
  using assms(2-)
proof (induction cs arbitrary: l used k n)
  case Nil
  then show ?case by auto
next
  case (Cons c cs)
  obtain ok l1 where st: "limiter_step cfg c l = (ok, l1)" by fastforce
  obtain m where run: "limiter_run cfg cs l1 = (m, l')" and n: "n = (if ok then 1 else 0) + m"
    using Cons.prems(3) st by (auto split: prod.splits)
  obtain k1 where "accounted cfg tokens t0 t1 k1 (used + (if ok then 1 else 0)) l1"
    using limiter_step_accounted [OF assms(1) Cons.prems(1) _ st] Cons.prems(2) by fastforce
  then obtain k' where "accounted cfg tokens t0 t1 k' (used + (if ok then 1 else 0) + m) l'"
    using Cons.IH [OF _ _ run] Cons.prems(2) by (meson list.set_intros(2))
  then show ?case
    using n by (auto simp: ac_simps)
qed


lemma refill_elapsed:
  assumes "bucket_ok cfg" and "lastRefillAt l \<le> t"
  shows "lastRefillAt (refill cfg t l) \<le> t \<and> t - lastRefillAt (refill cfg t l) < of_int (refillIntervalMs cfg)"
proof -
  define n where "n = \<lfloor>(t - lastRefillAt l) / of_int (refillIntervalMs cfg)\<rfloor>"
  have pos: "(0::rat) < of_int (refillIntervalMs cfg)"
    using assms(1) by (simp add: bucket_ok_def)
  have "of_int n \<le> (t - lastRefillAt l) / of_int (refillIntervalMs cfg)"
    and "(t - lastRefillAt l) / of_int (refillIntervalMs cfg) < of_int n + 1"
    using floor_correct [of "(t - lastRefillAt l) / of_int (refillIntervalMs cfg)"]
    by (simp_all add: n_def)
  then have lo: "of_int n * of_int (refillIntervalMs cfg) \<le> t - lastRefillAt l"
    and hi: "t - lastRefillAt l < (of_int n + 1) * of_int (refillIntervalMs cfg)"
    using pos by (simp_all add: le_divide_eq divide_less_eq)
  have "0 \<le> n"
    using pos assms(2) by (simp add: n_def)
  show ?thesis
  proof (cases "n < 1")
    case True
    then have "n = 0" using \<open>0 \<le> n\<close> by simp
    then show ?thesis
      using hi assms(2) by (auto simp: refill_def n_def [symmetric] Let_def)
  next
    case False
    then have "(0::rat) < of_int n * of_int (refillIntervalMs cfg)"
      using pos by (intro mult_pos_pos) auto
    then have "\<not> t \<le> lastRefillAt l"
      using lo by linarith
    then have "lastRefillAt (refill cfg t l) = lastRefillAt l + of_int (n * refillIntervalMs cfg)"
      using False by (simp add: refill_def n_def [symmetric] Let_def)
    then show ?thesis
      using lo hi by (simp add: algebra_simps)
  qed
qed


section \<open>Witnesses\<close>

definition wit_options :: bucket_options where
  "wit_options = \<lparr>opt_capacity = Fin 2, opt_refillTokens = Fin 1, opt_refillIntervalMs = Fin 10,
     opt_initialTokens = Some (Fin 1)\<rparr>"

definition wit_bucket :: bucket_config where
  "wit_bucket = \<lparr>capacity = 2, refillTokens = 1, refillIntervalMs = 10\<rparr>"

definition wit_alive :: ctx_shape where
  "wit_alive = Shape None ErrNull"

definition wit_calls :: "limiter_call list" where
  "wit_calls = [Allow wit_alive (Fin 101), Allow wit_alive (Fin 105), Allow wit_alive (Fin 110)]"

lemmas wit_limiter_defs = wit_options_def wit_bucket_def wit_alive_def wit_calls_def
  newTokenBucketLimiter_def positiveInteger_def int_of_def max_safe_def Let_def allow_def
  activeContext_def refill_def nextRefillIn_def limiter_snapshot_of_def contextFailure_def



end
