(* ===== verification/Retry.thy ===== *)
theory Retry
  imports Resilience_Base
begin

text \<open>
  \<open>packages/resilience/src/retry.ts\<close>: capped exponential backoff and the bounded retry loop. The
  Context, the operation, the retry policy, the backoff function and the events of a delay belong to
  the caller and the runtime: they are the fields of \<open>retry_env\<close>, functions over a world of any
  type, so that each of them may observe and change the world at every call.
\<close>

section \<open>Backoff\<close>

definition MaximumTimerDelay :: rat where
  "MaximumTimerDelay = 2147483647"

definition validateDelay :: "js_number \<Rightarrow> string \<Rightarrow> rat res" where
  "validateDelay value name =
     (if \<not> isFinite value \<or> num_less value (Fin 0) \<or> num_less (Fin MaximumTimerDelay) value
      then Inl (RangeError (name @ '' must be between 0 and 2147483647 milliseconds''))
      else Inr (rat_of value))"

record backoff_options =
  opt_initialDelayMs :: js_number
  opt_multiplier :: "js_number option"
  opt_maxDelayMs :: "js_number option"

record backoff_config =
  initialDelayMs :: rat
  multiplier :: rat
  maxDelayMs :: rat

definition exponentialBackoff :: "backoff_options option \<Rightarrow> backoff_config res" where
  "exponentialBackoff options =
     (case options of
        None \<Rightarrow> Inl (TypeError ''backoff options must be an object'')
      | Some opts \<Rightarrow>
          bindE (validateDelay (opt_initialDelayMs opts) ''initialDelayMs'') (\<lambda>initial.
          let mult = (case opt_multiplier opts of None \<Rightarrow> Fin 2 | Some m \<Rightarrow> m);
              maxd = (case opt_maxDelayMs opts of None \<Rightarrow> Fin MaximumTimerDelay | Some m \<Rightarrow> m) in
          bindE (validateDelay maxd ''maxDelayMs'') (\<lambda>maximum.
          bindE (check (isFinite mult \<and> \<not> num_less mult (Fin 1))
                   (RangeError ''multiplier must be finite and at least 1'')) (\<lambda>_.
          bindE (check (initial \<le> maximum)
                   (RangeError ''maxDelayMs must be greater than or equal to initialDelayMs'')) (\<lambda>_.
            Inr \<lparr>initialDelayMs = initial, multiplier = rat_of mult, maxDelayMs = maximum\<rparr>)))))"

definition backoff :: "backoff_config \<Rightarrow> js_number \<Rightarrow> rat res" where
  "backoff cfg attempt =
     (if \<not> isSafeInteger attempt \<or> num_less attempt (Fin 1)
      then Inl (RangeError ''attempt must be a positive safe integer'')
      else if initialDelayMs cfg = 0 then Inr 0
      else Inr (min (initialDelayMs cfg * multiplier cfg ^ nat (int_of attempt - 1)) (maxDelayMs cfg)))"

section \<open>The retry loop\<close>

record ('w, 'a) retry_env =
  ctx_now :: "'w \<Rightarrow> ctx_shape"
  operation :: "nat \<Rightarrow> 'w \<Rightarrow> 'a res \<times> 'w"
  shouldRetry :: "thrown \<Rightarrow> nat \<Rightarrow> 'w \<Rightarrow> bool option res \<times> 'w"
  backoffOf :: "(nat \<Rightarrow> 'w \<Rightarrow> js_number res \<times> 'w) option"
  delay_setup :: "'w \<Rightarrow> bool \<times> err_result \<times> thrown option \<times> thrown option"
  delay_event :: "rat \<Rightarrow> 'w \<Rightarrow> delay_event \<times> 'w"

datatype authorization = Idempotent | CallerApproved | OtherAuthorization

record retry_options =
  authorization :: authorization
  maxAttempts :: js_number
  shouldRetry_callable :: bool
  backoff_callable :: bool

text \<open>The awaited \<open>waitForDelay\<close>: the environment's first event reaches it before its timer.\<close>

definition awaitDelay :: "('w, 'a) retry_env \<Rightarrow> rat \<Rightarrow> 'w \<Rightarrow> unit res \<times> 'w" where
  "awaitDelay env delayMs w =
     (let ctx = ctx_now env w;
          (aborted, err, listen_fault, timer_fault) = delay_setup env w;
          signal = (case inspectContext ctx of Inl _ \<Rightarrow> None | Inr st \<Rightarrow> fst st)
      in case waitForDelay ctx delayMs aborted err listen_fault timer_fault of
           Inl e \<Rightarrow> (Inl e, w)
         | Inr d \<Rightarrow>
             if settled d then (the (outcome d), w)
             else (case delay_event env delayMs w of
                     (ev, w') \<Rightarrow> (the (outcome (delay_run signal d [ev, TimerFired])), w')))"

text \<open>What follows a failed attempt that is not the last: the policy, then the delay to wait.\<close>

definition retryDelay ::
    "('w, 'a) retry_env \<Rightarrow> nat \<Rightarrow> thrown \<Rightarrow> 'w \<Rightarrow> rat res \<times> 'w" where
  "retryDelay env attempt failure w1 =
     (case shouldRetry env failure attempt w1 of
        (Inl policyFailure, w2) \<Rightarrow>
          (case contextFailure (ctx_now env w2) of
             Inl e \<Rightarrow> (Inl e, w2) | Inr (Some e) \<Rightarrow> (Inl e, w2) | Inr None \<Rightarrow> (Inl policyFailure, w2))
      | (Inr answer, w2) \<Rightarrow>
          (case contextFailure (ctx_now env w2) of
             Inl e \<Rightarrow> (Inl e, w2)
           | Inr (Some e) \<Rightarrow> (Inl e, w2)
           | Inr None \<Rightarrow>
               (case answer of
                  None \<Rightarrow> (Inl (TypeError ''shouldRetry must return a boolean''), w2)
                | Some False \<Rightarrow> (Inl failure, w2)
                | Some True \<Rightarrow>
                    (case activeContext (ctx_now env w2) of
                       Inl e \<Rightarrow> (Inl e, w2)
                     | Inr _ \<Rightarrow>
                         (case backoffOf env of
                            None \<Rightarrow> (Inr 0, w2)
                          | Some f \<Rightarrow>
                              (case f attempt w2 of
                                 (Inl backoffFailure, w3) \<Rightarrow>
                                   (case contextFailure (ctx_now env w3) of
                                      Inl e \<Rightarrow> (Inl e, w3) | Inr (Some e) \<Rightarrow> (Inl e, w3)
                                    | Inr None \<Rightarrow> (Inl backoffFailure, w3))
                               | (Inr observed, w3) \<Rightarrow>
                                   (case contextFailure (ctx_now env w3) of
                                      Inl e \<Rightarrow> (Inl e, w3) | Inr (Some e) \<Rightarrow> (Inl e, w3)
                                    | Inr None \<Rightarrow> (validateDelay observed ''backoff delay'', w3))))))))"

text \<open>
  One call of \<open>runAttempt\<close> up to its recursion. Attempts are numbered from 1 and \<open>maxAttempts\<close> is at
  least 1, so the test \<open>maxA \<le> attempt\<close> holds exactly where \<open>attempt === maxAttempts\<close> does.
\<close>

datatype 'a attempt_end = Finished "'a res" | Again

definition attemptOnce :: "('w, 'a) retry_env \<Rightarrow> nat \<Rightarrow> nat \<Rightarrow> 'w \<Rightarrow> 'a attempt_end \<times> 'w" where
  "attemptOnce env maxA attempt w =
     (case activeContext (ctx_now env w) of
        Inl e \<Rightarrow> (Finished (Inl e), w)
      | Inr _ \<Rightarrow>
          (case operation env attempt w of
             (Inr result, w1) \<Rightarrow> (Finished (Inr result), w1)
           | (Inl failure, w1) \<Rightarrow>
               (case contextFailure (ctx_now env w1) of
                  Inl e \<Rightarrow> (Finished (Inl e), w1)
                | Inr (Some terminal) \<Rightarrow> (Finished (Inl terminal), w1)
                | Inr None \<Rightarrow>
                    if maxA \<le> attempt then (Finished (Inl failure), w1)
                    else
                      (case retryDelay env attempt failure w1 of
                         (Inl e, w2) \<Rightarrow> (Finished (Inl e), w2)
                       | (Inr delayMs, w2) \<Rightarrow>
                           (case awaitDelay env delayMs w2 of
                              (Inl e, w3) \<Rightarrow> (Finished (Inl e), w3)
                            | (Inr _, w3) \<Rightarrow> (Again, w3))))))"

lemma attemptOnce_again: "attemptOnce env maxA attempt w = (Again, w') \<Longrightarrow> attempt < maxA"
  by (auto simp: attemptOnce_def split: sum.splits prod.splits option.splits if_splits)

function runAttempt :: "('w, 'a) retry_env \<Rightarrow> nat \<Rightarrow> nat \<Rightarrow> 'w \<Rightarrow> 'a res \<times> 'w" where
  "runAttempt env maxA attempt w =
     (case attemptOnce env maxA attempt w of
        (Finished r, w') \<Rightarrow> (r, w')
      | (Again, w') \<Rightarrow> runAttempt env maxA (attempt + 1) w')"
  by pat_completeness auto
termination
  by (relation "measure (\<lambda>(env, maxA, attempt, w). maxA - attempt)")
    (auto dest: attemptOnce_again [OF sym])

declare runAttempt.simps [simp del]

definition retry ::
    "('w, 'a) retry_env \<Rightarrow> bool \<Rightarrow> retry_options option \<Rightarrow> 'w \<Rightarrow> 'a res \<times> 'w" where
  "retry env operation_callable options w =
     (case activeContext (ctx_now env w) of
        Inl e \<Rightarrow> (Inl e, w)
      | Inr _ \<Rightarrow>
          if \<not> operation_callable then (Inl (TypeError ''operation must be callable''), w)
          else case options of
            None \<Rightarrow> (Inl (TypeError ''retry options must be an object''), w)
          | Some opts \<Rightarrow>
              if authorization opts = OtherAuthorization
              then (Inl (TypeError ''retry authorization must be idempotent or caller-approved''), w)
              else if \<not> isSafeInteger (maxAttempts opts) \<or> num_less (maxAttempts opts) (Fin 1)
              then (Inl (RangeError ''maxAttempts must be a positive safe integer''), w)
              else if \<not> shouldRetry_callable opts
              then (Inl (TypeError ''shouldRetry must be callable''), w)
              else if backoffOf env \<noteq> None \<and> \<not> backoff_callable opts
              then (Inl (TypeError ''backoff must be callable''), w)
              else runAttempt env (nat (int_of (maxAttempts opts))) 1 w)"

section \<open>Lemmas\<close>

lemma validateDelay_Inr:
  "validateDelay v name = Inr r \<longleftrightarrow> v = Fin r \<and> 0 \<le> r \<and> r \<le> MaximumTimerDelay"
  by (cases v) (auto simp: validateDelay_def)

lemma exponentialBackoff_ok:
  assumes "exponentialBackoff options = Inr cfg"
  shows "0 \<le> initialDelayMs cfg \<and> initialDelayMs cfg \<le> maxDelayMs cfg \<and> 1 \<le> multiplier cfg \<and>
    maxDelayMs cfg \<le> MaximumTimerDelay"
proof -
  have mult: "1 \<le> rat_of m" if "isFinite m" and "\<not> num_less m (Fin 1)" for m
    using that by (cases m) auto
  show ?thesis
    using assms
    by (auto simp: exponentialBackoff_def js_res Let_def validateDelay_Inr dest: mult
        split: option.splits)
qed

text \<open>The delay is settled after the first event and the timer, whatever the event was.\<close>

lemma delay_run_outcome:
  assumes "delay_inv signal d"
  shows "\<exists>r. outcome (delay_run signal d [ev, TimerFired]) = Some r"
proof -
  have inv: "delay_inv signal (delay_step signal ev d)"
    using assms by (rule delay_step_inv)
  then have "settled (delay_step signal TimerFired (delay_step signal ev d))"
    using delay_timer_settles delay_step_settled by metis
  then show ?thesis
    using delay_step_inv [OF inv] by (auto simp: delay_inv_def simp del: delay_step.simps)
qed

text \<open>A world that records the attempt numbers of the operation and of nothing else.\<close>

definition logs_attempts :: "('w, 'a) retry_env \<Rightarrow> ('w \<Rightarrow> nat list) \<Rightarrow> bool" where
  "logs_attempts env seen \<longleftrightarrow>
     (\<forall>a w. seen (snd (operation env a w)) = seen w @ [a]) \<and>
     (\<forall>f a w. seen (snd (shouldRetry env f a w)) = seen w) \<and>
     (\<forall>b a w. backoffOf env = Some b \<longrightarrow> seen (snd (b a w)) = seen w) \<and>
     (\<forall>d w. seen (snd (delay_event env d w)) = seen w)"

lemma logs_attemptsD:
  assumes "logs_attempts env seen"
  shows "operation env a w = (r1, w1) \<Longrightarrow> seen w1 = seen w @ [a]"
    and "shouldRetry env f a w = (r2, w2) \<Longrightarrow> seen w2 = seen w"
    and "backoffOf env = Some b \<Longrightarrow> b a w = (r3, w3) \<Longrightarrow> seen w3 = seen w"
    and "delay_event env d w = (r4, w4) \<Longrightarrow> seen w4 = seen w"
  using assms unfolding logs_attempts_def by (metis snd_conv)+

lemma retryDelay_log:
  "logs_attempts env seen \<Longrightarrow> retryDelay env a failure w = (r, w') \<Longrightarrow> seen w' = seen w"
  by (auto simp: retryDelay_def split: prod.splits sum.splits option.splits bool.splits)
    (metis logs_attemptsD(2,3))+

lemma awaitDelay_log: "logs_attempts env seen \<Longrightarrow> awaitDelay env d w = (r, w') \<Longrightarrow> seen w' = seen w"
  by (auto simp: awaitDelay_def Let_def dest: logs_attemptsD
      split: prod.splits sum.splits if_splits)

lemma attemptOnce_log:
  "logs_attempts env seen \<Longrightarrow> attemptOnce env m a w = (r, w') \<Longrightarrow>
   seen w' = seen w @ [a] \<or> r \<noteq> Again \<and> seen w' = seen w"
  by (auto simp: attemptOnce_def split: sum.splits prod.splits option.splits if_splits)
    (metis logs_attemptsD(1) retryDelay_log awaitDelay_log)+

lemma runAttempt_log:
  assumes "logs_attempts env seen"
  shows "\<exists>k. a \<le> k \<and> k \<le> Suc (max m a) \<and> seen (snd (runAttempt env m a w)) = seen w @ [a..<k]"
  using assms
proof (induction env m a w rule: runAttempt.induct)
  case (1 env m a w)
  obtain r w1 where once: "attemptOnce env m a w = (r, w1)" by fastforce
  note l1 = attemptOnce_log [OF "1.prems" once]
  show ?case
  proof (cases r)
    case (Finished x)
    then have "snd (runAttempt env m a w) = w1"
      using once by (subst runAttempt.simps) simp
    then show ?thesis
      using l1 by (elim disjE) (force intro: exI [of _ "Suc a"], force intro: exI [of _ a])
  next
    case Again
    then have "runAttempt env m a w = runAttempt env m (a + 1) w1" and am: "a < m"
      using once by (subst runAttempt.simps, auto dest: attemptOnce_again)
    moreover obtain k where "a + 1 \<le> k" "k \<le> Suc (max m (a + 1))"
      "seen (snd (runAttempt env m (a + 1) w1)) = seen w1 @ [a + 1..<k]"
      using "1.IH" [OF once [symmetric]] Again "1.prems" by blast
    ultimately show ?thesis
      using l1 Again am by (intro exI [of _ k]) (auto simp: upt_rec [of a k])
  qed
qed

text \<open>
  C34: A retry calls its operation a bounded number of times and in order: whatever the Context,
  the policy, the backoff function and the delays do, the attempts are \<open>1, 2, \<dots>, k\<close> with \<open>k\<close> at
  most \<open>maxAttempts\<close>, and rejected options or a dead Context give no attempt at all.
\<close>

theorem retry_attempts_bounded:
  assumes "logs_attempts env seen"
  shows "\<exists>k. seen (snd (retry env callable options w)) = seen w @ [1..<Suc k] \<and>
    (k = 0 \<or> (\<exists>opts. options = Some opts \<and> int k \<le> int_of (maxAttempts opts)))"
proof (cases "snd (retry env callable options w) = w")
  case True
  then show ?thesis by (intro exI [of _ 0]) simp
next
  case False
  then obtain opts where opts: "options = Some opts" and safe: "isSafeInteger (maxAttempts opts)"
    and pos: "1 \<le> int_of (maxAttempts opts)"
    and run: "retry env callable options w = runAttempt env (nat (int_of (maxAttempts opts))) 1 w"
    by (auto simp: retry_def num_less_safe split: sum.splits option.splits if_splits)
  obtain k where "1 \<le> k" "k \<le> Suc (max (nat (int_of (maxAttempts opts))) 1)"
    "seen (snd (runAttempt env (nat (int_of (maxAttempts opts))) 1 w)) = seen w @ [1..<k]"
    using runAttempt_log [OF assms] by blast
  then show ?thesis
    using opts pos run by (intro exI [of _ "k - 1"]) (auto simp: max_def split: if_splits)
qed

text \<open>
  A run in which nothing but the operation decides: the Context stays alive, the policy always
  retries, every backoff value is a legal delay and every delay ends by its timer.
\<close>

definition permissive :: "('w, 'a) retry_env \<Rightarrow> (nat \<Rightarrow> 'a res) \<Rightarrow> bool" where
  "permissive env f \<longleftrightarrow>
     (\<forall>w. contextFailure (ctx_now env w) = Inr None) \<and>
     (\<forall>a w. fst (operation env a w) = f a) \<and>
     (\<forall>e a w. fst (shouldRetry env e a w) = Inr (Some True)) \<and>
     (\<forall>b a w. backoffOf env = Some b \<longrightarrow>
        (\<exists>r. fst (b a w) = Inr (Fin r) \<and> 0 \<le> r \<and> r \<le> MaximumTimerDelay)) \<and>
     (\<forall>w. \<exists>err. delay_setup env w = (False, err, None, None)) \<and>
     (\<forall>d w. fst (delay_event env d w) = TimerFired)"

lemma permissiveD:
  assumes "permissive env f"
  shows "contextFailure (ctx_now env w) = Inr None"
    and "\<exists>st. activeContext (ctx_now env w) = Inr st"
    and "\<exists>err. delay_setup env w = (False, err, None, None)"
    and "\<exists>w'. operation env a w = (f a, w')"
    and "\<exists>w'. shouldRetry env e a w = (Inr (Some True), w')"
    and "\<exists>w'. delay_event env d w = (TimerFired, w')"
proof -
  show alive: "contextFailure (ctx_now env w) = Inr None"
    using assms by (simp add: permissive_def)
  show "\<exists>st. activeContext (ctx_now env w) = Inr st"
    using alive by (rule activeContext_alive)
  show "\<exists>err. delay_setup env w = (False, err, None, None)"
    using assms unfolding permissive_def by (elim conjE) (erule spec)
  show "\<exists>w'. operation env a w = (f a, w')" and "\<exists>w'. shouldRetry env e a w = (Inr (Some True), w')"
    and "\<exists>w'. delay_event env d w = (TimerFired, w')"
    using assms unfolding permissive_def by (metis prod.collapse)+
qed

lemma permissive_retryDelay:
  assumes "permissive env f"
  shows "\<exists>d w'. retryDelay env a failure w = (Inr d, w')"
proof -
  obtain w2 where sr: "shouldRetry env failure a w = (Inr (Some True), w2)"
    using permissiveD(5) [OF assms] by blast
  obtain st where act: "activeContext (ctx_now env w2) = Inr st"
    using permissiveD(2) [OF assms] by blast
  note alive = permissiveD(1) [OF assms]
  show ?thesis
  proof (cases "backoffOf env")
    case None
    then show ?thesis using sr act alive by (simp add: retryDelay_def)
  next
    case (Some b)
    then obtain r w3 where "b a w2 = (Inr (Fin r), w3)" and "0 \<le> r" "r \<le> MaximumTimerDelay"
      using assms unfolding permissive_def by (metis prod.collapse)
    moreover from this have "validateDelay (Fin r) ''backoff delay'' = Inr r"
      by (simp only: validateDelay_Inr)
    ultimately show ?thesis using Some sr act alive by (simp add: retryDelay_def)
  qed
qed

lemma permissive_awaitDelay:
  assumes "permissive env f"
  shows "\<exists>w'. awaitDelay env d w = (Inr (), w')"
proof -
  obtain sig e where insp: "inspectContext (ctx_now env w) = Inr (sig, e)"
    and act: "activeContext (ctx_now env w) = Inr (sig, e)"
    using permissiveD(2) [OF assms, of w] by (auto simp: activeContext_ok)
  obtain err where su: "delay_setup env w = (False, err, None, None)"
    using permissiveD(3) [OF assms] by blast
  obtain w' where ev: "delay_event env d w = (TimerFired, w')"
    using permissiveD(6) [OF assms] by blast
  show ?thesis
    using insp act su ev
    by (auto simp: awaitDelay_def waitForDelay_def finishDelay_def cleanup_def Let_def)
qed

lemma permissive_once:
  assumes "permissive env f"
  shows "\<exists>w'. attemptOnce env m a w =
    (case f a of Inr x \<Rightarrow> Finished (Inr x) | Inl e \<Rightarrow> if m \<le> a then Finished (Inl e) else Again, w')"
proof -
  obtain w1 where op: "operation env a w = (f a, w1)"
    using permissiveD(4) [OF assms] by blast
  obtain st where act: "activeContext (ctx_now env w) = Inr st"
    using permissiveD(2) [OF assms] by blast
  note alive = permissiveD(1) [OF assms]
  show ?thesis
  proof (cases "f a")
    case (Inl e)
    obtain d w2 where "retryDelay env a e w1 = (Inr d, w2)"
      using permissive_retryDelay [OF assms] by blast
    moreover obtain w3 where "awaitDelay env d w2 = (Inr (), w3)"
      using permissive_awaitDelay [OF assms] by blast
    ultimately show ?thesis
      using op act alive Inl by (simp add: attemptOnce_def)
  next
    case (Inr x)
    then show ?thesis using op act by (simp add: attemptOnce_def)
  qed
qed

text \<open>The first success among the attempts \<open>a, \<dots>, m\<close>, or the last failure.\<close>

fun first_success :: "(nat \<Rightarrow> 'a res) \<Rightarrow> nat list \<Rightarrow> 'a res \<Rightarrow> 'a res" where
  "first_success f [] dflt = dflt"
| "first_success f (a # as) dflt = (case f a of Inr x \<Rightarrow> Inr x | Inl e \<Rightarrow> first_success f as (Inl e))"

lemma permissive_runAttempt:
  assumes "permissive env f" and "a \<le> m"
  shows "fst (runAttempt env m a w) = first_success f [a..<Suc m] dflt"
  using assms
proof (induction env m a w arbitrary: dflt rule: runAttempt.induct)
  case (1 env m a w)
  obtain w' where once: "attemptOnce env m a w =
    (case f a of Inr x \<Rightarrow> Finished (Inr x) | Inl e \<Rightarrow> if m \<le> a then Finished (Inl e) else Again, w')"
    using permissive_once [OF "1.prems"(1)] by blast
  have list: "[a..<Suc m] = a # [Suc a..<Suc m]"
    using "1.prems"(2) by (simp add: upt_rec)
  show ?case
  proof (cases "\<exists>e. f a = Inl e \<and> a < m")
    case True
    then obtain e where e: "f a = Inl e" and am: "a < m" by blast
    then have again: "attemptOnce env m a w = (Again, w')" using once by simp
    then have "runAttempt env m a w = runAttempt env m (a + 1) w'"
      by (subst runAttempt.simps) simp
    then show ?thesis
      using "1.IH" [OF again [symmetric] refl "1.prems"(1)] am e list by simp
  next
    case False
    then show ?thesis
      using once "1.prems"(2) list by (subst runAttempt.simps) (auto split: sum.splits)
  qed
qed

text \<open>
  With a live Context, a policy that retries and legal delays, \<open>retry\<close> returns the result of
  the first attempt that succeeds, and throws the failure of attempt \<open>maxAttempts\<close> when none does.
\<close>

lemma retry_first_success:
  assumes "permissive env f"
    and "isSafeInteger (maxAttempts opts)" and "1 \<le> int_of (maxAttempts opts)"
    and "authorization opts \<noteq> OtherAuthorization"
    and "shouldRetry_callable opts" and "backoff_callable opts"
  shows "fst (retry env True (Some opts) w) =
    first_success f [1..<Suc (nat (int_of (maxAttempts opts)))] (Inl Canceled)"
proof -
  obtain st where "activeContext (ctx_now env w) = Inr st"
    using permissiveD(2) [OF assms(1)] by blast
  then have "retry env True (Some opts) w = runAttempt env (nat (int_of (maxAttempts opts))) 1 w"
    using assms(2-) by (simp add: retry_def num_less_safe)
  then show ?thesis
    using permissive_runAttempt [OF assms(1), of 1 "nat (int_of (maxAttempts opts))"] assms(3)
    by (simp del: upt_Suc)
qed

text \<open>
  The exponential backoff of accepted options is a legal delay for every attempt: it starts at
  the initial delay, never falls from one attempt to the next, never passes the maximum, and is
  therefore accepted by the check that \<open>retry\<close> makes of it.
\<close>

lemma backoff_capped_monotone:
  assumes "exponentialBackoff options = Inr cfg" and "1 \<le> a" and "a < max_safe"
  shows "\<exists>d d'. backoff cfg (Fin (of_int a)) = Inr d \<and> backoff cfg (Fin (of_int (a + 1))) = Inr d' \<and>
    backoff cfg (Fin 1) = Inr (initialDelayMs cfg) \<and>
    initialDelayMs cfg \<le> d \<and> d \<le> d' \<and> d' \<le> maxDelayMs cfg \<and>
    validateDelay (Fin d') ''backoff delay'' = Inr d'"
proof -
  note ok = exponentialBackoff_ok [OF assms(1)]
  have eq: "backoff cfg (Fin (of_int i)) =
      Inr (min (initialDelayMs cfg * multiplier cfg ^ nat (i - 1)) (maxDelayMs cfg))"
    if "1 \<le> i" and "i \<le> max_safe" for i
    using that ok by (auto simp: backoff_def min_def int_of_def)
  have one: "backoff cfg (Fin 1) = Inr (initialDelayMs cfg)"
    using eq [of 1] ok by (simp add: max_safe_def min_def)
  have ge: "1 \<le> multiplier cfg ^ n" for n
    using ok by (simp add: one_le_power)
  have step: "multiplier cfg ^ nat (a - 1) \<le> multiplier cfg ^ nat (a + 1 - 1)"
    using ok by (intro power_increasing) auto
  let ?d = "\<lambda>i. min (initialDelayMs cfg * multiplier cfg ^ nat (i - 1)) (maxDelayMs cfg)"
  have "initialDelayMs cfg \<le> ?d a"
    using ok ge [of "nat (a - 1)"] by (auto simp: mult_le_cancel_left1)
  moreover have "?d a \<le> ?d (a + 1)"
    using ok step by (intro min.mono mult_left_mono) auto
  moreover have "validateDelay (Fin (?d (a + 1))) ''backoff delay'' = Inr (?d (a + 1))"
    unfolding validateDelay_Inr using ok calculation by auto
  ultimately show ?thesis
    using eq [of a] eq [of "a + 1"] one assms(2,3)
    by (intro exI [of _ "?d a"] exI [of _ "?d (a + 1)"]) auto
qed

section \<open>Witnesses\<close>

text \<open>A world that is the list of attempts made; the operation succeeds at attempt 3.\<close>

definition wit_env :: "(nat list, nat) retry_env" where
  "wit_env = \<lparr>ctx_now = (\<lambda>_. Shape None ErrNull),
     operation = (\<lambda>a w. (if a < 3 then Inl (UserError a) else Inr (10 * a), w @ [a])),
     shouldRetry = (\<lambda>_ _ w. (Inr (Some True), w)), backoffOf = Some (\<lambda>_ w. (Inr (Fin 5), w)),
     delay_setup = (\<lambda>_. (False, ErrNull, None, None)), delay_event = (\<lambda>_ w. (TimerFired, w))\<rparr>"

definition wit_retry :: retry_options where
  "wit_retry = \<lparr>authorization = Idempotent, maxAttempts = Fin 4, shouldRetry_callable = True,
     backoff_callable = True\<rparr>"

theorem retry_attempts_bounded_witness:
  "logs_attempts wit_env (\<lambda>w. w) \<and>
   (\<exists>k. snd (retry wit_env True (Some wit_retry) []) = [1..<Suc k] \<and> int k \<le> 4)"
proof -
  have logs: "logs_attempts wit_env (\<lambda>w. w)"
    by (simp add: logs_attempts_def wit_env_def)
  show ?thesis
    using logs retry_attempts_bounded [OF logs, of True "Some wit_retry" "[]"]
    by (auto simp: wit_retry_def int_of_def)
qed

end
