(* ===== verification/Dns_Name.thy ===== *)
theory Dns_Name
  imports Utf8 Js_String
begin

text \<open>
  The lowest layer of the mDNS codec (\<open>packages/registry/mdns/src/dns.ts\<close>): integers in network byte
  order and domain names. A writer returns the bytes it appends to the output array, or the value it
  throws; a reader takes the packet and the cursor offset and returns the value with the new offset.

  The locale \<open>wire_format\<close> is the contract of a writer with its reader, in any context of bytes; its
  lemmas lift the contract to counted sequences. It is interpreted here for 16-bit integers, TTLs
  and names, and by the packet layer for questions and resource records.
\<close>

unbundle bit_operations_syntax

section \<open>The contract of a writer and its reader\<close>

type_synonym 'a reader = "byte list \<Rightarrow> nat \<Rightarrow> ('a \<times> nat) res"

fun read_times :: "'a reader \<Rightarrow> byte list \<Rightarrow> nat \<Rightarrow> nat \<Rightarrow> ('a list \<times> nat) res" where
  "read_times rd data 0 off = Inr ([], off)"
| "read_times rd data (Suc n) off =
     bindE (rd data off) (\<lambda>(x, off).
     bindE (read_times rd data n off) (\<lambda>(xs, off). Inr (x # xs, off)))"

definition write_all :: "('a \<Rightarrow> byte list res) \<Rightarrow> 'a list \<Rightarrow> byte list res" where
  "write_all wr xs = bindE (mapE wr xs) (\<lambda>bss. Inr (concat bss))"

lemma write_all_Nil [simp]: "write_all wr [] = Inr []"
  by (simp add: write_all_def)

lemma write_all_Cons:
  "write_all wr (x # xs) = Inr bs \<longleftrightarrow>
     (\<exists>b c. wr x = Inr b \<and> write_all wr xs = Inr c \<and> bs = b @ c)"
  by (auto simp: write_all_def js_res)

locale wire_format =
  fixes wr :: "'a \<Rightarrow> byte list res"
    and rd :: "'b reader"
    and norm :: "'a \<Rightarrow> 'b"
  assumes read_write: "wr x = Inr bs \<Longrightarrow>
    rd (before @ bs @ after) (length before) = Inr (norm x, length before + length bs)"
begin

lemma read_write_at:
  assumes "wr x = Inr bs" and "data = before @ bs @ after" and "off = length before"
  shows "rd data off = Inr (norm x, length (before @ bs))"
  using read_write [OF assms(1), of before after] assms(2,3) by simp

lemma read_times_write_all:
  assumes "write_all wr xs = Inr bs"
  shows "read_times rd (before @ bs @ after) (length xs) (length before) =
    Inr (map norm xs, length before + length bs)"
  using assms
proof (induction xs arbitrary: bs before)
  case (Cons x xs)
  then obtain b c where b: "wr x = Inr b" and c: "write_all wr xs = Inr c" and bs: "bs = b @ c"
    by (auto simp: write_all_Cons)
  have "read_times rd (before @ bs @ after) (length xs) (length before + length b) =
      Inr (map norm xs, length before + length bs)"
    using Cons.IH [OF c, of "before @ b"] by (simp add: bs)
  then show ?case
    using read_write [OF b, of before "c @ after"] by (simp add: bs)
qed simp

end

section \<open>Integers\<close>

definition num :: "nat \<Rightarrow> js_number" where
  "num n = Fin (of_nat n)"

definition writeU16 :: "js_number \<Rightarrow> byte list res" where
  "writeU16 value =
     (if \<not> isInteger value \<or> num_less value (Fin 0) \<or> num_less (Fin 65535) value
      then Inl (RangeError ''DNS uint16 value is out of range'')
      else let w = (word_of_int (int_of value) :: 32 word)
           in Inr [ucast (drop_bit 8 w AND 255), ucast (w AND 255)])"

definition writeU32 :: "js_number \<Rightarrow> byte list res" where
  "writeU32 value =
     (if \<not> isInteger value \<or> num_less value (Fin 0) \<or> num_less (Fin 2147483647) value
      then Inl (RangeError ''DNS TTL value is out of range'')
      else let w = (word_of_int (int_of value) :: 32 word)
           in Inr [ucast (drop_bit 24 w AND 255), ucast (drop_bit 16 w AND 255),
                   ucast (drop_bit 8 w AND 255), ucast (w AND 255)])"

definition readByte :: "byte reader" where
  "readByte data off =
     (if off < length data then Inr (data ! off, off + 1)
      else Inl (TypeError ''DNS packet is truncated''))"

definition shl :: "byte \<Rightarrow> nat \<Rightarrow> 32 word" where
  "shl b k = push_bit k (ucast b)"

definition readU16 :: "nat reader" where
  "readU16 data off =
     bindE (readByte data off) (\<lambda>(a, off).
     bindE (readByte data off) (\<lambda>(b, off).
     Inr (unat (shl a 8 OR ucast b), off)))"

definition readU32 :: "nat reader" where
  "readU32 data off =
     bindE (readByte data off) (\<lambda>(a, off).
     bindE (readByte data off) (\<lambda>(b, off).
     bindE (readByte data off) (\<lambda>(c, off).
     bindE (readByte data off) (\<lambda>(d, off).
     Inr (unat a * 16777216 + unat (shl b 16) + unat (shl c 8) + unat d, off)))))"

section \<open>Names\<close>

definition is_label_unit :: "16 word \<Rightarrow> bool" where
  "is_label_unit u \<longleftrightarrow>
     0x41 \<le> u \<and> u \<le> 0x5A \<or> 0x61 \<le> u \<and> u \<le> 0x7A \<or> is_digit u \<or> u = 0x5F \<or> u = 0x2D"

abbreviation dot :: "16 word" where
  "dot \<equiv> 0x2E"

fun validate_labels :: "jsstr list \<Rightarrow> jsstr list \<Rightarrow> nat \<Rightarrow> (jsstr list \<times> nat) res" where
  "validate_labels [] normalized wireBytes = Inr (normalized, wireBytes)"
| "validate_labels (labelValue # labels) normalized wireBytes =
     (if labelValue = [] \<or> \<not> list_all is_label_unit labelValue
      then Inl (TypeError ''DNS label must contain only ASCII letters, digits, hyphen, or underscore'')
      else let label = lower_ascii labelValue; bytes = utf8_encode label in
           if length bytes > 63 then Inl (RangeError ''DNS label exceeds 63 bytes'')
           else validate_labels labels (normalized @ [label]) (wireBytes + (length bytes + 1)))"

definition validateDNSName :: "jsstr list \<Rightarrow> jsstr res" where
  "validateDNSName labels =
     (if labels = [] then Inl (TypeError ''DNS name labels must be non-empty'')
      else bindE (validate_labels labels [] 1) (\<lambda>(normalized, wireBytes).
        if wireBytes > 255 then Inl (RangeError ''encoded DNS name exceeds 255 bytes'')
        else Inr (join_with [dot] normalized @ [dot])))"

definition name_labels :: "jsstr \<Rightarrow> jsstr list" where
  "name_labels value =
     (if endsWith value [dot] then split_char dot (butlast value) else split_char dot value)"

definition encode_label :: "jsstr \<Rightarrow> byte list" where
  "encode_label label = (let bytes = utf8_encode label in of_nat (length bytes) # bytes)"

definition encodeName :: "jsstr \<Rightarrow> byte list res" where
  "encodeName value =
     bindE (validateDNSName (name_labels value)) (\<lambda>normalized.
     let normalizedLabels = split_char dot (butlast normalized)
     in Inr (concat (map encode_label normalizedLabels) @ [0]))"

text \<open>
  The loop of \<open>decodeName\<close>. Its arguments are the loop's variables: the labels read, the pointers
  visited, the offset, the cursor's offset once a pointer was followed (\<open>jumped\<close>), and the number of
  iterations, which bounds the loop.
\<close>

function decode_labels ::
    "byte list \<Rightarrow> jsstr list \<Rightarrow> nat set \<Rightarrow> nat \<Rightarrow> nat option \<Rightarrow> nat \<Rightarrow> (jsstr list \<times> nat) res" where
  "decode_labels data labels visited offset jumped iterations =
     (if iterations > 128 then Inl (TypeError ''DNS name pointer depth is invalid'')
      else if offset \<ge> length data then Inl (TypeError ''DNS name is truncated'')
      else let len = data ! offset in
        if len AND 0xC0 = 0xC0 then
          if offset + 1 \<ge> length data then Inl (TypeError ''DNS name pointer is truncated'')
          else let pointer = unat (shl (len AND 0x3F) 8 OR ucast (data ! (offset + 1))) in
            if pointer \<ge> length data \<or> pointer \<in> visited
            then Inl (TypeError ''DNS name pointer is invalid'')
            else decode_labels data labels (insert pointer visited) pointer
                   (case jumped of None \<Rightarrow> Some (offset + 2) | Some c \<Rightarrow> Some c) (iterations + 1)
        else if len AND 0xC0 \<noteq> 0 then Inl (TypeError ''DNS label length is invalid'')
        else if len = 0
        then Inr (labels, case jumped of None \<Rightarrow> offset + 1 | Some c \<Rightarrow> c)
        else if unat len > 63 \<or> offset + 1 + unat len > length data
        then Inl (TypeError ''DNS label is invalid'')
        else (case utf8_decode_fatal (take (unat len) (drop (offset + 1) data)) of
                None \<Rightarrow> Inl (TypeError ''The encoded data was not valid for encoding utf-8'')
              | Some label \<Rightarrow>
                  decode_labels data (labels @ [label]) visited (offset + 1 + unat len) jumped
                    (iterations + 1)))"
  by pat_completeness auto
termination
  by (relation "measure (\<lambda>(_, _, _, _, _, iterations). 129 - iterations)") auto

declare decode_labels.simps [simp del]

definition decodeName :: "jsstr reader" where
  "decodeName data cursor =
     bindE (decode_labels data [] {} cursor None 0) (\<lambda>(labels, cursor).
     if labels = [] then Inr ([dot], cursor)
     else bindE (validateDNSName labels) (\<lambda>name. Inr (name, cursor)))"

section \<open>Round trip of integers\<close>

lemma unat_ucast_byte [simp]: "unat (ucast (a :: byte) :: 32 word) = unat a"
  using unsigned_less [of a, where 'a = nat]
  by (simp add: unsigned_ucast_eq take_bit_nat_eq_self)

lemma unat_shl: "k \<le> 24 \<Longrightarrow> unat (shl a k) = unat a * 2 ^ k"
proof -
  assume "k \<le> 24"
  then have "(2 :: nat) ^ k \<le> 2 ^ 24"
    by (intro power_increasing) auto
  then have "unat a * 2 ^ k \<le> 255 * 2 ^ 24"
    using unsigned_less [of a, where 'a = nat] by (intro mult_mono) auto
  then show ?thesis
    unfolding shl_def unsigned_push_bit_eq
    by (simp add: push_bit_eq_mult take_bit_nat_eq_self)
qed

lemma unat_shl_or: "unat (shl a 8 OR ucast (b :: byte)) = unat a * 256 + unat b"
proof -
  have "shl a 8 AND ucast b = 0"
    by (rule bit_eqI) (auto simp: shl_def bit_simps dest: bit_imp_le_length)
  then have "shl a 8 OR ucast b = shl a 8 + ucast b"
    by (simp add: disjunctive_add_eq_or)
  then show ?thesis
    using unsigned_less [of a, where 'a = nat] unsigned_less [of b, where 'a = nat]
    by (simp add: unat_word_ariths unat_shl)
qed

lemma byte_at: "ucast (drop_bit k w AND 255 :: 32 word) = byte_of (unat w div 2 ^ k mod 256)"
proof -
  have m: "x AND 255 = take_bit 8 x" for x :: "32 word"
    by (simp add: take_bit_eq_mask mask_eq_exp_minus_1)
  have "unat (ucast (drop_bit k w AND 255) :: byte) = unat w div 2 ^ k mod 256"
    unfolding m unsigned_ucast_eq unsigned_take_bit_eq unsigned_drop_bit_eq
    using unsigned_less [of w, where 'a = nat]
    by (simp add: take_bit_eq_mod drop_bit_eq_div)
  then show ?thesis
    by (simp add: word_unat_eq_iff unat_byte)
qed

lemma byte_at_0: "ucast (w AND 255 :: 32 word) = byte_of (unat w mod 256)"
  using byte_at [of 0 w] by simp

lemma int_of_num [simp]: "int_of (num n) = int n"
  by (simp add: num_def int_of_def)

lemma integer_range:
  assumes "isInteger v" "\<not> num_less v (Fin 0)" "\<not> num_less (Fin (of_nat m)) v"
  obtains n where "v = num n" "n \<le> m" "int_of v = int n"
proof -
  obtain r where v: "v = Fin r" "of_int \<lfloor>r\<rfloor> = r"
    using assms(1) by (cases v) auto
  then have "0 \<le> \<lfloor>r\<rfloor>" "\<lfloor>r\<rfloor> \<le> int m"
    using assms(2,3) by (auto simp: floor_le_iff le_floor_iff)
  moreover have "v = num (nat \<lfloor>r\<rfloor>)"
    using v(2) \<open>0 \<le> \<lfloor>r\<rfloor>\<close> unfolding num_def v(1) by (metis of_int_of_nat_eq int_nat_eq)
  ultimately show thesis
    using that [of "nat \<lfloor>r\<rfloor>"] by (simp add: nat_le_iff)
qed

lemma writeU16_Inr:
  assumes "writeU16 v = Inr bs"
  obtains n where "v = num n" "n < 65536" "bs = [byte_of (n div 256), byte_of (n mod 256)]"
proof -
  have "isInteger v" "\<not> num_less v (Fin 0)" "\<not> num_less (Fin (of_nat 65535)) v"
    using assms by (auto simp: writeU16_def Let_def split: if_splits)
  then obtain n where n: "v = num n" "n \<le> 65535" "int_of v = int n"
    by (rule integer_range)
  have "unat (word_of_int (int n) :: 32 word) = n"
    using n(2) by (simp add: unat_of_nat)
  then show thesis
    using that [of n] assms n byte_at [of 8 "of_nat n"] byte_at_0 [of "of_nat n"]
    by (auto simp: writeU16_def Let_def split: if_splits)
qed

lemma writeU32_Inr:
  assumes "writeU32 v = Inr bs"
  obtains n where "v = num n" "n < 2147483648"
    "bs = [byte_of (n div 16777216), byte_of (n div 65536 mod 256), byte_of (n div 256 mod 256),
           byte_of (n mod 256)]"
proof -
  have "isInteger v" "\<not> num_less v (Fin 0)" "\<not> num_less (Fin (of_nat 2147483647)) v"
    using assms by (auto simp: writeU32_def Let_def split: if_splits)
  then obtain n where n: "v = num n" "n \<le> 2147483647" "int_of v = int n"
    by (rule integer_range)
  have "unat (word_of_int (int n) :: 32 word) = n"
    using n(2) by (simp add: unat_of_nat)
  then show thesis
    using that [of n] assms n byte_at [of 24 "of_nat n"] byte_at [of 16 "of_nat n"]
      byte_at [of 8 "of_nat n"] byte_at_0 [of "of_nat n"]
    by (auto simp: writeU32_def Let_def split: if_splits)
qed

lemma readByte_at [simp]: "readByte (before @ b # after) (length before) = Inr (b, length before + 1)"
  by (simp add: readByte_def)

lemma readByte_next [simp]:
  "readByte (before @ a # b # after) (Suc (length before)) = Inr (b, length before + 2)"
  "readByte (before @ a # b # c # after) (Suc (Suc (length before))) = Inr (c, length before + 3)"
  "readByte (before @ a # b # c # d # after) (length before + 3) =
     Inr (d, length before + 4)"
  by (simp_all add: readByte_def nth_append)

definition read_num16 :: "js_number reader" where
  "read_num16 data off = bindE (readU16 data off) (\<lambda>(n, off). Inr (num n, off))"

definition read_num32 :: "js_number reader" where
  "read_num32 data off = bindE (readU32 data off) (\<lambda>(n, off). Inr (num n, off))"

lemma readU16_at:
  "readU16 (before @ a # b # after) (length before) =
     Inr (unat a * 256 + unat b, length before + 2)"
  by (simp add: readU16_def unat_shl_or)

lemma readU32_at:
  "readU32 (before @ a # b # c # d # after) (length before) =
     Inr (unat a * 16777216 + unat b * 65536 + unat c * 256 + unat d, length before + 4)"
  by (simp add: readU32_def unat_shl)

interpretation u16: wire_format writeU16 read_num16 id
proof unfold_locales
  fix v bs before after
  assume "writeU16 v = Inr bs"
  then obtain n where n: "v = num n" "n < 65536" "bs = [byte_of (n div 256), byte_of (n mod 256)]"
    by (rule writeU16_Inr)
  have "n div 256 < 256" using n(2) by auto
  then have "unat (byte_of (n div 256)) * 256 + unat (byte_of (n mod 256)) = n"
    by (simp add: unat_byte)
  then show "read_num16 (before @ bs @ after) (length before) =
      Inr (id v, length before + length bs)"
    by (simp add: n read_num16_def readU16_at)
qed

interpretation u32: wire_format writeU32 read_num32 id
proof unfold_locales
  fix v bs before after
  assume "writeU32 v = Inr bs"
  then obtain n where n: "v = num n" "n < 2147483648"
    and bs: "bs = [byte_of (n div 16777216), byte_of (n div 65536 mod 256),
                   byte_of (n div 256 mod 256), byte_of (n mod 256)]"
    by (rule writeU32_Inr)
  have d: "n div 65536 = n div 256 div 256" "n div 16777216 = n div 256 div 256 div 256"
    by (simp_all add: div_mult2_eq [symmetric])
  have "n div 16777216 * 16777216 + n div 65536 mod 256 * 65536 + n div 256 mod 256 * 256 + n mod 256 = n"
    unfolding d using div_mult_mod_eq [of n 256] div_mult_mod_eq [of "n div 256" 256]
      div_mult_mod_eq [of "n div 256 div 256" 256] by linarith
  moreover have "n div 16777216 < 256" using n(2) by auto
  ultimately show "read_num32 (before @ bs @ after) (length before) =
      Inr (id v, length before + length bs)"
    by (simp add: n bs read_num32_def readU32_at unat_byte)
qed

section \<open>Round trip of names\<close>

definition label_ok :: "jsstr \<Rightarrow> bool" where
  "label_ok l \<longleftrightarrow> l \<noteq> [] \<and> list_all is_label_unit l \<and> length l \<le> 63"

definition wire_length :: "jsstr list \<Rightarrow> nat" where
  "wire_length ls = 1 + sum_list (map (\<lambda>l. length l + 1) ls)"

definition labels_ok :: "jsstr list \<Rightarrow> bool" where
  "labels_ok ls \<longleftrightarrow> ls \<noteq> [] \<and> list_all label_ok ls \<and> wire_length ls \<le> 255"

definition normal_name :: "jsstr \<Rightarrow> jsstr" where
  "normal_name value = join_with [dot] (map lower_ascii (name_labels value)) @ [dot]"

lemma label_unit_ascii: "is_label_unit u \<Longrightarrow> is_ascii u \<and> u \<noteq> dot"
  by (auto simp: is_label_unit_def is_digit_def is_ascii_def word_le_nat_alt word_less_nat_alt)

lemma lower_unit_label:
  assumes "is_label_unit u"
  shows "is_label_unit (lower_unit u) \<and> lower_unit (lower_unit u) = lower_unit u"
proof (cases "0x41 \<le> u \<and> u \<le> 0x5A")
  case True
  then have "unat (u + 32) = unat u + 32"
    by (simp add: word_le_nat_alt unat_word_ariths)
  with True assms show ?thesis
    by (auto simp: lower_unit_def is_label_unit_def is_digit_def word_le_nat_alt)
next
  case False
  then have "lower_unit u = u"
    by (auto simp: lower_unit_def)
  with assms show ?thesis by simp
qed

lemma label_lower:
  assumes "list_all is_label_unit l"
  shows "list_all is_label_unit (lower_ascii l)" "lower_ascii (lower_ascii l) = lower_ascii l"
  using assms by (auto simp: lower_ascii_def list_all_iff lower_unit_label)

lemma label_ok_lower: "label_ok l \<Longrightarrow> label_ok (lower_ascii l)"
  by (auto simp: label_ok_def label_lower) (simp add: lower_ascii_def)

lemma wire_length_lower [simp]: "wire_length (map lower_ascii ls) = wire_length ls"
  by (simp add: wire_length_def o_def)

lemma labels_ok_lower: "labels_ok ls \<Longrightarrow> labels_ok (map lower_ascii ls)"
  by (auto simp: labels_ok_def list_all_iff label_ok_lower)

lemma lower_idem: "labels_ok ls \<Longrightarrow> map lower_ascii (map lower_ascii ls) = map lower_ascii ls"
  by (auto simp: labels_ok_def label_ok_def list_all_iff intro!: label_lower)

lemma utf8_encode_label: "list_all is_label_unit l \<Longrightarrow> utf8_encode l = map ucast l"
  using label_unit_ascii by (intro utf8_encode_ascii) (auto simp: list_all_iff)

lemma validate_labels_Inr:
  "validate_labels ls acc w = Inr r \<longleftrightarrow>
     list_all label_ok ls \<and> r = (acc @ map lower_ascii ls, w + sum_list (map (\<lambda>l. length l + 1) ls))"
  by (induction ls acc w rule: validate_labels.induct)
    (auto simp: Let_def label_ok_def utf8_encode_label label_lower)

lemma validateDNSName_Inr:
  "validateDNSName ls = Inr s \<longleftrightarrow>
     labels_ok ls \<and> s = join_with [dot] (map lower_ascii ls) @ [dot]"
  by (auto simp: validateDNSName_def js_res validate_labels_Inr labels_ok_def wire_length_def
      split: if_splits)

lemma split_normalised:
  assumes "labels_ok ls"
  shows "split_char dot (join_with [dot] ls) = ls"
proof (rule split_join)
  show "ls \<noteq> []" using assms by (simp add: labels_ok_def)
  show "\<forall>p \<in> set ls. dot \<notin> set p"
    using assms label_unit_ascii by (fastforce simp: labels_ok_def label_ok_def list_all_iff)
qed

lemma encodeName_Inr:
  "encodeName v = Inr bs \<longleftrightarrow>
     labels_ok (name_labels v) \<and>
     bs = concat (map encode_label (map lower_ascii (name_labels v))) @ [0]"
  by (auto simp: encodeName_def js_res validateDNSName_Inr Let_def split_normalised
      labels_ok_lower simp del: map_map)

lemma small_label: "unat (b :: byte) < 64 \<Longrightarrow> b AND 0xC0 = 0"
proof -
  assume "unat b < 64"
  then have "take_bit 6 b = b"
    by (simp add: take_bit_eq_mod word_unat_eq_iff unat_mod)
  then have "b AND 0xC0 = b AND (mask 6 AND 0xC0)"
    by (metis and.assoc take_bit_eq_mask)
  also have "mask 6 AND 0xC0 = (0 :: byte)"
    by (simp add: mask_eq_exp_minus_1)
  finally show ?thesis by simp
qed

lemma encode_label_bytes:
  "list_all is_label_unit l \<Longrightarrow> encode_label l = byte_of (length l) # map ucast l"
  by (simp add: encode_label_def utf8_encode_label byte_of_def Let_def)

lemma decode_label:
  assumes "list_all is_label_unit l"
  shows "utf8_decode_fatal (map ucast l) = Some l"
proof -
  have a: "\<forall>u \<in> set l. is_ascii u"
    using assms label_unit_ascii by (auto simp: list_all_iff)
  show ?thesis
    using utf8_roundtrip [OF isWellFormed_ascii [OF a]] ascii_no_bom [OF a] utf8_encode_ascii [OF a]
    by simp
qed

lemma decode_labels_step:
  assumes "label_ok l" and "it \<le> 128"
  shows "decode_labels (before @ encode_label l @ after) ls vis (length before) j it =
    decode_labels (before @ encode_label l @ after) (ls @ [l]) vis
      (length before + length (encode_label l)) j (it + 1)"
proof -
  have l: "list_all is_label_unit l" "0 < length l" "length l \<le> 63"
    using assms(1) by (auto simp: label_ok_def)
  have u: "unat (byte_of (length l)) = length l"
    using l(3) by (simp add: unat_byte)
  then have "byte_of (length l) \<noteq> 0"
    using l(2) by auto
  moreover have "byte_of (length l) AND 0xC0 = 0"
    using l(3) u by (intro small_label) simp
  ultimately show ?thesis
    using l u assms(2)
    by (subst decode_labels.simps) (simp add: Let_def encode_label_bytes nth_append decode_label)
qed

lemma decode_labels_all:
  assumes "list_all label_ok ls" and "it + length ls \<le> 128"
  shows "decode_labels (before @ concat (map encode_label ls) @ [0] @ after) acc vis (length before)
      None it =
    Inr (acc @ ls, length before + length (concat (map encode_label ls)) + 1)"
  using assms
proof (induction ls arbitrary: before acc it)
  case Nil
  then show ?case by (subst decode_labels.simps) (simp add: Let_def nth_append)
next
  case (Cons l ls)
  then show ?case
    using decode_labels_step [of l it before "concat (map encode_label ls) @ [0] @ after" acc vis None]
      Cons.IH [of "it + 1" "before @ encode_label l" "acc @ [l]"] by simp
qed

lemma labels_count: "labels_ok ls \<Longrightarrow> length ls \<le> 127"
proof -
  have "2 * length ls \<le> sum_list (map (\<lambda>l. length l + 1) ls)" if "list_all label_ok ls"
    using that by (induction ls) (auto simp: label_ok_def simp flip: length_greater_0_conv)
  then show "labels_ok ls \<Longrightarrow> length ls \<le> 127"
    by (fastforce simp: labels_ok_def wire_length_def)
qed

interpretation name: wire_format encodeName decodeName normal_name
proof unfold_locales
  fix v bs before after
  assume "encodeName v = Inr bs"
  then have ok: "labels_ok (name_labels v)"
    and bs: "bs = concat (map encode_label (map lower_ascii (name_labels v))) @ [0]"
    by (auto simp: encodeName_Inr)
  let ?ls = "map lower_ascii (name_labels v)"
  have ls: "labels_ok ?ls" using ok by (rule labels_ok_lower)
  have "decode_labels (before @ bs @ after) [] {} (length before) None 0 =
      Inr (?ls, length before + length bs)"
    using decode_labels_all [of ?ls 0 before after "[]" "{}"] labels_count [OF ls] ls
    by (simp add: bs labels_ok_def)
  moreover have "validateDNSName ?ls = Inr (normal_name v)"
    using ls ok by (simp add: validateDNSName_Inr normal_name_def lower_idem del: map_map)
  ultimately show "decodeName (before @ bs @ after) (length before) =
      Inr (normal_name v, length before + length bs)"
    using ls by (simp add: decodeName_def labels_ok_def)
qed

text \<open>Every name that the decoder returns, other than the root, is in normal form and encodes.\<close>

lemma name_labels_joined: "labels_ok ls \<Longrightarrow> name_labels (join_with [dot] ls @ [dot]) = ls"
  by (simp add: name_labels_def endsWith_def split_normalised)

lemma encoded_name_length: "encodeName v = Inr bs \<Longrightarrow> length bs = wire_length (name_labels v)"
proof -
  assume e: "encodeName v = Inr bs"
  have "length (concat (map encode_label (map lower_ascii ls))) =
      sum_list (map (\<lambda>l. length l + 1) ls)" if "list_all label_ok ls" for ls
    using that by (induction ls) (auto simp: label_ok_def encode_label_bytes label_lower)
  then show ?thesis
    using e by (auto simp: encodeName_Inr labels_ok_def wire_length_def)
qed

lemma decodeName_normal:
  assumes "decodeName data off = Inr (s, off')" and "s \<noteq> [dot]"
  shows "normal_name s = s \<and> (\<exists>bs. encodeName s = Inr bs \<and> length bs \<le> 255)"
proof -
  obtain ls where ok: "labels_ok ls" and s: "s = join_with [dot] (map lower_ascii ls) @ [dot]"
    using assms by (auto simp: decodeName_def js_res validateDNSName_Inr split: if_splits)
  have labels: "name_labels s = map lower_ascii ls"
    unfolding s using ok by (intro name_labels_joined labels_ok_lower)
  have "normal_name s = s"
    using lower_idem [OF ok] by (simp only: normal_name_def labels) (simp only: s)
  moreover have ok': "labels_ok (name_labels s)"
    using labels_ok_lower [OF ok] by (simp add: labels)
  then obtain bs where bs: "encodeName s = Inr bs"
    by (auto simp: encodeName_Inr)
  moreover have "length bs \<le> 255"
    using encoded_name_length [OF bs] ok' by (simp add: labels_ok_def)
  ultimately show ?thesis by blast
qed

lemmas name_eval =
  validateDNSName_def is_label_unit_def is_digit_def lower_ascii_def lower_unit_def name_labels_def
  endsWith_def startsWith_def encode_label_def encodeName_def decode_labels.simps decodeName_def
  writeU16_def writeU32_def num_def int_of_def shl_def write_all_def normal_name_def

declare name_eval [js_defs]

end
