(* ===== verification/Dns_Address.thy ===== *)
theory Dns_Address
  imports Dns_Name
begin

text \<open>
  Address literals of the mDNS codec (\<open>packages/registry/mdns/src/dns.ts\<close>): the parser of IPv4
  literals, the parser of IPv6 literals with its \<open>::\<close> and embedded IPv4 forms, and the printer of
  canonical compressed IPv6 literals. The parser inverts the printer on every sixteen octets.

  \<open>toLowerCase\<close> is modelled on ASCII letters. No other unit is mapped by it to a hexadecimal digit, a
  colon, a dot or a bracket, or makes a part equal to one of the two markers, so every literal with
  such a unit is refused in the same way.
\<close>

section \<open>IPv4\<close>

fun octet_part :: "jsstr \<Rightarrow> bool" where
  "octet_part [] = False"
| "octet_part (u # s) =
     (u = 0x30 \<and> s = [] \<or>
      0x31 \<le> u \<and> u \<le> 0x39 \<and> length s \<le> 2 \<and> list_all is_digit s)"

abbreviation not_ipv4 :: thrown where
  "not_ipv4 \<equiv> TypeError ''DNS A data must be an IPv4 literal''"

definition octet :: "jsstr \<Rightarrow> byte res" where
  "octet part =
     (if \<not> octet_part part then Inl not_ipv4
      else if digits_value 10 part > 255 then Inl not_ipv4
      else Inr (of_nat (digits_value 10 part)))"

definition encodeIPv4 :: "jsstr \<Rightarrow> byte list res" where
  "encodeIPv4 value =
     (let parts = split_char dot value in
      if length parts \<noteq> 4 then Inl not_ipv4 else mapE octet parts)"

definition decodeIPv4 :: "byte list \<Rightarrow> jsstr" where
  "decodeIPv4 bs = join_with [dot] (map (\<lambda>b. decimal (unat b)) bs)"

section \<open>IPv6\<close>

abbreviation colon :: "16 word" where
  "colon \<equiv> 0x3A"

abbreviation not_ipv6 :: thrown where
  "not_ipv6 \<equiv> TypeError ''DNS AAAA data must be an IPv6 literal''"

definition be_word :: "byte list \<Rightarrow> 32 word" where
  "be_word bs = fold (\<lambda>b word. push_bit 8 word OR ucast b) bs 0"

fun be_words :: "byte list \<Rightarrow> nat list" where
  "be_words (a # b # bs) = unat (be_word [a, b]) # be_words bs"
| "be_words [a] = [unat (be_word [a])]"
| "be_words [] = []"

definition part_words :: "nat list \<Rightarrow> jsstr \<Rightarrow> nat list res" where
  "part_words ipv4 part =
     (if part = js ''ipv4'' then Inr ipv4
      else if part = js ''tail'' then Inr []
      else if part = [] \<or> length part > 4 \<or> \<not> list_all is_hex part then Inl not_ipv6
      else Inr [digits_value 16 part])"

definition half :: "nat list \<Rightarrow> jsstr \<Rightarrow> nat list res" where
  "half ipv4 valuePart =
     (if valuePart = [] then Inr []
      else bindE (mapE (part_words ipv4) (split_char colon valuePart)) (\<lambda>ws. Inr (concat ws)))"

text \<open>The literal with an IPv4 tail replaced by the parts \<open>ipv4\<close> and \<open>tail\<close>, and its words.\<close>

definition take_ipv4 :: "jsstr \<Rightarrow> (nat list \<times> jsstr) res" where
  "take_ipv4 normalized =
     (let (prefix, tail) = (case split_last colon normalized of
             Some (a, b) \<Rightarrow> (a, b) | None \<Rightarrow> (butlast normalized, normalized))
      in if dot \<in> set tail
         then bindE (encodeIPv4 tail) (\<lambda>bytes. Inr (be_words bytes, prefix @ js '':ipv4:tail''))
         else Inr ([], normalized))"

definition ipv6Words :: "jsstr \<Rightarrow> nat list res" where
  "ipv6Words value =
     (if value = [] \<or> 0x25 \<in> set value then Inl not_ipv6
      else
        let lowered = lower_ascii value;
            normalized = (if startsWith lowered (js ''['') \<and> endsWith lowered (js '']'')
                          then butlast (tl lowered) else lowered)
        in bindE (take_ipv4 normalized) (\<lambda>(ipv4, normalized).
           let halves = split_double colon normalized in
           if length halves > 2 then Inl not_ipv6
           else
             bindE (half ipv4 (concat (take 1 halves))) (\<lambda>left.
             bindE (half ipv4 (concat (take 1 (drop 1 halves)))) (\<lambda>right.
             let missing = 8 - int (length left) - int (length right) in
             if length halves = 1 \<and> missing \<noteq> 0 \<or> length halves = 2 \<and> missing < 1
             then Inl not_ipv6
             else
               let words = left @ replicate (nat missing) 0 @ right in
               if length words \<noteq> 8 then Inl not_ipv6 else Inr words))))"

definition word_bytes :: "nat \<Rightarrow> byte list" where
  "word_bytes word = (let w = (of_nat word :: 32 word) in [ucast (drop_bit 8 w), ucast (w AND 255)])"

definition encodeIPv6 :: "jsstr \<Rightarrow> byte list res" where
  "encodeIPv6 value = bindE (ipv6Words value) (\<lambda>words. Inr (concat (map word_bytes words)))"

text \<open>The printer: the first longest run of at least two zero words is compressed.\<close>

function run_end :: "nat list \<Rightarrow> nat \<Rightarrow> nat" where
  "run_end words e = (if e < length words \<and> words ! e = 0 then run_end words (e + 1) else e)"
  by pat_completeness auto
termination
  by (relation "measure (\<lambda>(words, e). length words - e)") auto

declare run_end.simps [simp del]

lemma run_end_ge: "e \<le> run_end words e"
  by (induction words e rule: run_end.induct) (subst run_end.simps, auto)

lemma run_end_gt: "e < length words \<Longrightarrow> words ! e = 0 \<Longrightarrow> e < run_end words e"
  using run_end_ge [of "e + 1" words] by (subst run_end.simps) simp

function best_run :: "nat list \<Rightarrow> nat \<Rightarrow> nat option \<Rightarrow> nat \<Rightarrow> nat option \<times> nat" where
  "best_run words start bestStart bestLength =
     (if start < length words then
        if words ! start \<noteq> 0 then best_run words (start + 1) bestStart bestLength
        else let e = run_end words start in
          if e - start > bestLength \<and> e - start \<ge> 2
          then best_run words e (Some start) (e - start)
          else best_run words e bestStart bestLength
      else (bestStart, bestLength))"
  by pat_completeness auto
termination
  by (relation "measure (\<lambda>(words, start, _, _). length words - start)")
    (auto simp: run_end_gt diff_less_mono2)

declare best_run.simps [simp del]

function ipv6_parts :: "nat list \<Rightarrow> nat option \<Rightarrow> nat \<Rightarrow> nat \<Rightarrow> jsstr list \<Rightarrow> jsstr list" where
  "ipv6_parts words bestStart bestLength index parts =
     (if index < length words then
        if bestStart = Some index then
          let index = index + (bestLength - 1) in
          ipv6_parts words bestStart bestLength (index + 1)
            (parts @ [[]] @ (if index = length words - 1 then [[]] else []))
        else ipv6_parts words bestStart bestLength (index + 1) (parts @ [hex (words ! index)])
      else parts)"
  by pat_completeness auto
termination
  by (relation "measure (\<lambda>(words, _, _, index, _). length words - index)") auto

declare ipv6_parts.simps [simp del]

definition print_words :: "nat list \<Rightarrow> jsstr" where
  "print_words words =
     (let (bestStart, bestLength) = best_run words 0 None 0;
          joined = join_with [colon] (ipv6_parts words bestStart bestLength 0 [])
      in if startsWith joined (js '':'') then colon # joined else joined)"

definition decodeIPv6 :: "byte list \<Rightarrow> jsstr res" where
  "decodeIPv6 data =
     (if length data \<noteq> 16 then Inl (TypeError ''DNS AAAA rdata length is invalid'')
      else Inr (print_words (be_words data)))"

section \<open>IPv4 literals are canonical\<close>

lemma digit_inverse: "is_digit u \<Longrightarrow> digit_value u < 10 \<and> of_nat (48 + digit_value u) = u"
  by (auto simp: is_digit_def digit_value_def word_le_nat_alt word_unat_eq_iff unat_unit
      simp del: of_nat_add of_nat_numeral)

lemma digits_value_pos:
  "list_all is_digit s \<Longrightarrow> s \<noteq> [] \<Longrightarrow> hd s \<noteq> 0x30 \<Longrightarrow> 0 < digits_value 10 s"
proof (induction s rule: rev_induct)
  case (snoc u s)
  show ?case
  proof (cases s)
    case Nil
    then have "digit_value u \<noteq> 0"
      using snoc.prems digit_inverse [of u] by (intro notI) simp
    then show ?thesis using Nil by (simp add: digits_value_def)
  next
    case Cons
    then have "0 < digits_value 10 s" using snoc by simp
    then show ?thesis by (simp add: digits_value_snoc)
  qed
qed simp

lemma decimal_digits:
  "list_all is_digit s \<Longrightarrow> s \<noteq> [] \<Longrightarrow> hd s \<noteq> 0x30 \<or> length s = 1 \<Longrightarrow>
    decimal (digits_value 10 s) = s"
proof (induction s rule: rev_induct)
  case (snoc u s)
  have u: "digit_value u < 10" "of_nat (48 + digit_value u) = u"
    using snoc.prems digit_inverse by auto
  show ?case
  proof (cases s)
    case Nil
    then show ?thesis
      using u by (subst decimal.simps) (simp add: digits_value_def)
  next
    case Cons
    then have "0 < digits_value 10 s" "decimal (digits_value 10 s) = s"
      using snoc digits_value_pos [of s] by auto
    then show ?thesis
      using u by (subst decimal.simps) (simp add: digits_value_snoc del: of_nat_add)
  qed
qed simp

lemma octet_Inr:
  assumes "octet p = Inr b"
  shows "decimal (unat b) = p"
proof -
  have p: "octet_part p" "digits_value 10 p \<le> 255" "b = byte_of (digits_value 10 p)"
    using assms by (auto simp: octet_def byte_of_def split: if_splits)
  have "p \<noteq> []" "list_all is_digit p" "hd p \<noteq> 0x30 \<or> length p = 1"
    using p(1) by (cases p; auto simp: is_digit_def word_le_nat_alt)+
  then show ?thesis
    using p(2,3) by (simp add: unat_byte decimal_digits)
qed

lemma encodeIPv4_Inr:
  assumes "encodeIPv4 v = Inr bs"
  shows "length bs = 4 \<and> decodeIPv4 bs = v"
proof -
  let ?ps = "split_char dot v"
  have ps: "length ?ps = 4" and oct: "list_all2 (\<lambda>p b. octet p = Inr b) ?ps bs"
    using assms by (auto simp: encodeIPv4_def Let_def mapE_Inr_iff split: if_splits)
  have "map (\<lambda>b. decimal (unat b)) bs = ?ps"
    using oct by (induction rule: list_all2_induct) (auto simp: octet_Inr)
  then show ?thesis
    using ps list_all2_lengthD [OF oct] by (simp add: decodeIPv4_def join_split)
qed

section \<open>The IPv6 parser inverts the printer\<close>

lemma be_word_pair: "unat (be_word [a, b]) = unat a * 256 + unat b"
proof -
  have "be_word [a, b] = shl a 8 OR ucast b"
    by (simp add: be_word_def shl_def)
  then show ?thesis by (simp add: unat_shl_or)
qed

lemma word_bytes_pair: "word_bytes (unat a * 256 + unat b) = [a, b]"
proof -
  have a: "unat a < 256" and b: "unat b < 256"
    using unsigned_less [of a, where 'a = nat] unsigned_less [of b, where 'a = nat] by auto
  define w where "w = (of_nat (unat a * 256 + unat b) :: 32 word)"
  have w: "unat w = unat a * 256 + unat b"
    unfolding w_def using a b by (subst unat_of_nat) simp
  have "unat (ucast (drop_bit 8 w) :: byte) = unat a"
    unfolding unsigned_ucast_eq unsigned_drop_bit_eq w
    using a b by (simp add: take_bit_eq_mod drop_bit_eq_div)
  moreover have "ucast (w AND 255) = b"
    using b w by (simp only: byte_at_0) (simp add: word_unat_eq_iff unat_byte)
  ultimately show ?thesis
    unfolding word_bytes_def w_def [symmetric] Let_def by (simp add: word_unat_eq_iff)
qed

lemma words_bytes: "even (length bs) \<Longrightarrow> concat (map word_bytes (be_words bs)) = bs"
  by (induction bs rule: be_words.induct) (auto simp: be_word_pair word_bytes_pair)

lemma be_words_range:
  "even (length bs) \<Longrightarrow> length (be_words bs) = length bs div 2 \<and> (\<forall>w \<in> set (be_words bs). w < 65536)"
proof (induction bs rule: be_words.induct)
  case (1 a b bs)
  then show ?case
    using unsigned_less [of a, where 'a = nat] unsigned_less [of b, where 'a = nat]
    by (simp add: be_word_pair)
qed auto

fun no_double :: "'a \<Rightarrow> 'a list \<Rightarrow> bool" where
  "no_double d (u # v # s) = (\<not> (u = d \<and> v = d) \<and> no_double d (v # s))"
| "no_double d _ = True"

lemma split_double_none: "no_double d s \<Longrightarrow> split_double d s = [s]"
  by (induction d s rule: split_double.induct) auto

lemma split_double_first:
  "no_double d s \<Longrightarrow> s = [] \<or> last s \<noteq> d \<Longrightarrow> split_double d (s @ d # d # t) = s # split_double d t"
proof (induction s)
  case (Cons u s)
  then show ?case by (cases s) (auto split: list.splits)
qed simp

lemma no_double_append:
  "d \<notin> set p \<Longrightarrow> p \<noteq> [] \<Longrightarrow> no_double d s \<Longrightarrow> s \<noteq> [] \<Longrightarrow> hd s \<noteq> d \<Longrightarrow>
    no_double d (p @ d # s)"
  by (induction p rule: induct_list012; cases s) auto

lemma no_double_single: "d \<notin> set p \<Longrightarrow> no_double d p"
  by (induction p rule: induct_list012) auto

definition clean :: "16 word \<Rightarrow> jsstr \<Rightarrow> bool" where
  "clean d p \<longleftrightarrow> p \<noteq> [] \<and> d \<notin> set p"

lemma join_clean:
  assumes "list_all (clean d) ps" "ps \<noteq> []"
  shows "no_double d (join_with [d] ps) \<and> join_with [d] ps \<noteq> [] \<and>
    hd (join_with [d] ps) \<noteq> d \<and> last (join_with [d] ps) \<noteq> d"
  using assms
proof (induction "[d]" ps rule: join_with.induct)
  case (2 p)
  then show ?case using no_double_single [of d p] by (auto simp: clean_def dest: hd_in_set last_in_set)
next
  case (3 p q ps)
  then show ?case
    using no_double_append [of d p "join_with [d] (q # ps)"]
    by (auto simp: clean_def dest: hd_in_set last_in_set)
qed simp

lemma join_append:
  "xs \<noteq> [] \<Longrightarrow> ys \<noteq> [] \<Longrightarrow> join_with sep (xs @ ys) = join_with sep xs @ sep @ join_with sep ys"
proof (induction xs)
  case (Cons x xs)
  then show ?case by (cases xs; cases ys) auto
qed simp

text \<open>The run that the printer compresses.\<close>

definition zero_run :: "nat list \<Rightarrow> nat \<Rightarrow> nat \<Rightarrow> bool" where
  "zero_run ws s l \<longleftrightarrow> 2 \<le> l \<and> s + l \<le> length ws \<and> (\<forall>i. s \<le> i \<and> i < s + l \<longrightarrow> ws ! i = 0)"

lemma run_end_zero:
  "(\<forall>i. e \<le> i \<and> i < run_end ws e \<longrightarrow> ws ! i = 0) \<and> (e \<le> length ws \<longrightarrow> run_end ws e \<le> length ws)"
proof (induction ws e rule: run_end.induct)
  case (1 ws e)
  show ?case
  proof (cases "e < length ws \<and> ws ! e = 0")
    case True
    then have r: "run_end ws e = run_end ws (e + 1)"
      by (subst run_end.simps) simp
    show ?thesis
      using 1 [OF True] True unfolding r by (metis Suc_eq_plus1 Suc_leI le_antisym not_less_eq_eq)
  next
    case False
    then have "run_end ws e = e" by (subst run_end.simps) auto
    then show ?thesis by simp
  qed
qed

lemma best_run_zero:
  assumes "case bs of None \<Rightarrow> True | Some s \<Rightarrow> zero_run ws s bl"
  shows "case best_run ws start bs bl of (None, _) \<Rightarrow> True | (Some s, l) \<Rightarrow> zero_run ws s l"
  using assms
proof (induction ws start bs bl rule: best_run.induct)
  case (1 ws start bs bl)
  let ?e = "run_end ws start"
  have z: "zero_run ws start (?e - start)" if "start < length ws" "2 \<le> ?e - start"
    using run_end_zero [of start ws] that by (auto simp: zero_run_def)
  show ?case
    by (subst best_run.simps) (use 1 z in \<open>auto simp: Let_def split: option.splits\<close>)
qed

lemma upt_step: "i < length ws \<Longrightarrow> hex (ws ! i) # map hex (drop (Suc i) ws) = map hex (drop i ws)"
  by (simp flip: Cons_nth_drop_Suc)

lemma ipv6_parts_rest:
  "(case bs of None \<Rightarrow> True | Some s \<Rightarrow> s < i) \<Longrightarrow>
    ipv6_parts ws bs bl i ps = ps @ map hex (drop i ws)"
proof (induction ws bs bl i ps rule: ipv6_parts.induct)
  case (1 ws bs bl i ps)
  show ?case
    by (subst ipv6_parts.simps)
      (use 1 upt_step [of i ws] in \<open>auto split: option.splits\<close>)
qed

lemma ipv6_parts_run:
  assumes "zero_run ws s l"
  shows "i \<le> s \<Longrightarrow> ipv6_parts ws (Some s) l i ps =
    ps @ map hex (take (s - i) (drop i ws)) @ [[]] @
      (if s + l = length ws then [[]] else map hex (drop (s + l) ws))"
proof (induction "s - i" arbitrary: i ps)
  case 0
  then have i: "i = s" by simp
  have "s < length ws" "s + (l - 1) = length ws - 1 \<longleftrightarrow> s + l = length ws" "0 < l"
    using assms by (auto simp: zero_run_def)
  then show ?case
    unfolding i by (subst ipv6_parts.simps) (simp add: Let_def ipv6_parts_rest)
next
  case (Suc n)
  then have i: "i < s" "i < length ws" using assms by (auto simp: zero_run_def)
  then have t: "take (s - i) (drop i ws) = ws ! i # take (s - Suc i) (drop (Suc i) ws)"
    by (metis Cons_nth_drop_Suc Suc_diff_Suc take_Suc_Cons)
  show ?case
    unfolding t by (subst ipv6_parts.simps) (use i Suc in simp)
qed

definition join_words :: "nat list \<Rightarrow> jsstr" where
  "join_words ws = join_with [colon] (map hex ws)"

lemma hex_clean: "clean colon (hex n)"
proof -
  have "\<not> is_hex colon" by (simp add: is_hex_def is_digit_def)
  then show ?thesis using hex_value [of n] by (auto simp: clean_def list_all_iff)
qed

lemma join_words_clean:
  "ws \<noteq> [] \<Longrightarrow> no_double colon (join_words ws) \<and> join_words ws \<noteq> [] \<and>
     hd (join_words ws) \<noteq> colon \<and> last (join_words ws) \<noteq> colon"
  unfolding join_words_def by (rule join_clean) (auto simp: list_all_iff hex_clean)

lemma join_words_double:
  "no_double colon (join_words ws) \<and> (join_words ws = [] \<or> last (join_words ws) \<noteq> colon)"
  using join_words_clean [of ws] by (cases "ws = []") (auto simp: join_words_def)

lemma starts_colon: "startsWith s (js '':'') \<longleftrightarrow> s \<noteq> [] \<and> hd s = colon"
  by (cases s) (auto simp: startsWith_def js_def)

lemma print_words_form:
  assumes "ws \<noteq> []"
  obtains "print_words ws = join_words ws"
  | s l where "zero_run ws s l"
      "print_words ws = join_words (take s ws) @ [colon, colon] @ join_words (drop (s + l) ws)"
proof (cases "best_run ws 0 None 0")
  case (Pair b l)
  show thesis
  proof (cases b)
    case None
    then have "print_words ws = join_words ws"
      using Pair join_words_clean [OF assms] ipv6_parts_rest [where bs = None and i = 0 and ws = ws and bl = l and ps = "[]"]
      by (auto simp: print_words_def starts_colon join_words_def)
    then show thesis by (rule that(1))
  next
    case (Some s)
    then have z: "zero_run ws s l"
      using best_run_zero [where bs = None and ws = ws and bl = 0 and start = 0] Pair by simp
    let ?r = "if s + l = length ws then [[]] else map hex (drop (s + l) ws)"
    have r: "join_with [colon] ?r = join_words (drop (s + l) ws)" "?r \<noteq> []"
      using z by (auto simp: join_words_def zero_run_def)
    have parts: "ipv6_parts ws b l 0 [] = map hex (take s ws) @ [[]] @ ?r"
      using ipv6_parts_run [OF z, of 0 "[]"] Some by simp
    have tail: "join_with [colon] ([[]] @ ?r) = colon # join_words (drop (s + l) ws)"
      using join_append [of "[[]]" ?r "[colon]"] r by simp
    have "print_words ws = join_words (take s ws) @ [colon, colon] @ join_words (drop (s + l) ws)"
    proof (cases "s = 0")
      case True
      then show ?thesis
        using Pair parts tail by (simp add: print_words_def starts_colon join_words_def)
    next
      case False
      then have t: "take s ws \<noteq> []" using assms by simp
      then have "join_with [colon] (map hex (take s ws) @ [[]] @ ?r) =
          join_words (take s ws) @ [colon] @ (colon # join_words (drop (s + l) ws))"
        using join_append [of "map hex (take s ws)" "[[]] @ ?r" "[colon]"] tail
        by (simp add: join_words_def)
      then show ?thesis
        using Pair parts join_words_clean [OF t] by (simp add: print_words_def starts_colon)
    qed
    then show thesis using that(2) z by blast
  qed
qed

text \<open>The parser on printed literals.\<close>

lemma hex_part:
  assumes "w < 65536"
  shows "part_words v4 (hex w) = Inr [w]"
proof -
  have "\<not> is_hex 0x69" "\<not> is_hex 0x74" by (simp_all add: is_hex_def is_digit_def)
  then have "hex w \<noteq> js ''ipv4''" "hex w \<noteq> js ''tail''"
    using hex_value [of w] by (auto simp: js_def)
  then show ?thesis
    using hex_value [of w] hex_length [of w 4] assms by (simp add: part_words_def)
qed

lemma half_join:
  assumes "\<forall>w \<in> set ws. w < 65536"
  shows "half v4 (join_words ws) = Inr ws"
proof (cases "ws = []")
  case False
  have "split_char colon (join_words ws) = map hex ws"
    unfolding join_words_def using False hex_clean by (intro split_join) (auto simp: clean_def)
  moreover have "mapE (part_words v4) (map hex ws) = Inr (map (\<lambda>w. [w]) ws)"
    using assms by (induction ws) (auto simp: hex_part)
  moreover have "concat (map (\<lambda>w. [w]) ws) = ws" by (induction ws) auto
  ultimately show ?thesis
    using join_words_clean [OF False] by (simp add: half_def)
qed (simp add: half_def join_words_def)

definition literal_unit :: "16 word \<Rightarrow> bool" where
  "literal_unit u \<longleftrightarrow> is_hex u \<or> u = colon"

lemma literal_unit_simps:
  "literal_unit u \<Longrightarrow> lower_unit u = u \<and> u \<noteq> 0x25 \<and> u \<noteq> 0x5B \<and> u \<noteq> dot"
  by (auto simp: literal_unit_def is_hex_def is_digit_def lower_unit_def word_le_nat_alt)

lemma join_words_units: "list_all literal_unit (join_words ws)"
proof -
  have "set (join_words ws) \<subseteq> {colon} \<union> (\<Union>p \<in> set (map hex ws). set p)"
    unfolding join_words_def using set_join [of "[colon]" "map hex ws"] by simp
  then show ?thesis
    using hex_value by (fastforce simp: list_all_iff literal_unit_def)
qed

lemma split_last_parts: "split_last d s = Some (a, b) \<Longrightarrow> set b \<subseteq> set s"
  by (induction s arbitrary: a) (auto split: option.splits if_splits)

lemma plain_literal:
  assumes "list_all literal_unit v" and "v \<noteq> []"
  shows "lower_ascii v = v" "0x25 \<notin> set v" "\<not> startsWith v (js ''['')" "take_ipv4 v = Inr ([], v)"
proof -
  have u: "\<forall>u \<in> set v. lower_unit u = u \<and> u \<noteq> 0x25 \<and> u \<noteq> 0x5B \<and> u \<noteq> dot"
    using assms(1) literal_unit_simps by (auto simp: list_all_iff)
  then show "lower_ascii v = v" "0x25 \<notin> set v"
    by (auto simp: lower_ascii_def intro: map_idI)
  show "\<not> startsWith v (js ''['')"
    using assms(2) u by (cases v) (auto simp: startsWith_def js_def)
  show "take_ipv4 v = Inr ([], v)"
    using u split_last_parts [of colon v]
    by (auto simp: take_ipv4_def Let_def split: option.splits prod.splits)
qed

lemma words_split: "zero_run ws s l \<Longrightarrow> take s ws @ replicate l 0 @ drop (s + l) ws = ws"
proof (rule nth_equalityI)
  assume "zero_run ws s l"
  then show "length (take s ws @ replicate l 0 @ drop (s + l) ws) = length ws"
    by (auto simp: zero_run_def)
  fix i
  assume "zero_run ws s l" "i < length (take s ws @ replicate l 0 @ drop (s + l) ws)"
  then show "(take s ws @ replicate l 0 @ drop (s + l) ws) ! i = ws ! i"
    by (auto simp: zero_run_def nth_append)
qed

lemma ipv6Words_print:
  assumes len: "length ws = 8" and range: "\<forall>w \<in> set ws. w < 65536"
  shows "ipv6Words (print_words ws) = Inr ws"
proof (rule print_words_form [of ws])
  show "ws \<noteq> []" using len by auto
next
  assume p: "print_words ws = join_words ws"
  have ws: "ws \<noteq> []" using len by auto
  note c = join_words_clean [OF ws]
  show ?thesis
    using c plain_literal [OF join_words_units, of ws] half_join [OF range, of "[]"] len
    by (simp add: p ipv6Words_def split_double_none half_def)
next
  fix s l
  assume z: "zero_run ws s l"
    and p: "print_words ws = join_words (take s ws) @ [colon, colon] @ join_words (drop (s + l) ws)"
  let ?a = "join_words (take s ws)" and ?b = "join_words (drop (s + l) ws)"
  have units: "list_all literal_unit (print_words ws)" "print_words ws \<noteq> []"
    using join_words_units [of "take s ws"] join_words_units [of "drop (s + l) ws"]
    by (auto simp: p literal_unit_def)
  have "no_double colon ?a \<and> (?a = [] \<or> last ?a \<noteq> colon)" "no_double colon ?b"
    using join_words_double [of "take s ws"] join_words_double [of "drop (s + l) ws"] by blast+
  then have split: "split_double colon (print_words ws) = [?a, ?b]"
    by (simp add: p split_double_first split_double_none)
  have h: "half [] ?a = Inr (take s ws)" "half [] ?b = Inr (drop (s + l) ws)"
    using range by (auto intro!: half_join dest: in_set_takeD in_set_dropD)
  have m: "8 - int (length (take s ws)) - int (length (drop (s + l) ws)) = int l"
    "1 \<le> int l"
    using z len by (auto simp: zero_run_def)
  show ?thesis
    using plain_literal [OF units] units(2) split h m words_split [OF z] len
    by (simp add: ipv6Words_def Let_def del: length_take length_drop)
qed

lemma encodeIPv6_decode:
  assumes "decodeIPv6 bs = Inr s"
  shows "encodeIPv6 s = Inr bs"
proof -
  have "length bs = 16" and s: "s = print_words (be_words bs)"
    using assms by (auto simp: decodeIPv6_def split: if_splits)
  then show ?thesis
    using be_words_range [of bs] words_bytes [of bs] by (simp add: encodeIPv6_def ipv6Words_print)
qed

lemma encodeIPv6_length: "encodeIPv6 v = Inr bs \<Longrightarrow> length bs = 16"
proof -
  assume "encodeIPv6 v = Inr bs"
  then obtain ws where ws: "ipv6Words v = Inr ws" "bs = concat (map word_bytes ws)"
    by (auto simp: encodeIPv6_def js_res)
  moreover have "length ws = 8"
    using ws(1) by (auto simp: ipv6Words_def js_res Let_def split: if_splits)
  moreover have "length (concat (map word_bytes ws)) = 2 * length ws" for ws
    by (induction ws) (auto simp: word_bytes_def Let_def)
  ultimately show ?thesis by simp
qed

text \<open>
  The markers of \<open>take_ipv4\<close> are ordinary parts of the literal, so a literal that already contains one
  passes the parser although it is not an IPv6 literal.
\<close>

lemma ipv6_marker_accepted:
  "ipv6Words (js ''1:2:3:4:5:6:7:8:tail'') = Inr [1, 2, 3, 4, 5, 6, 7, 8]"
  "ipv6Words (js ''ipv4::1'') = Inr [0, 0, 0, 0, 0, 0, 0, 1]"
  by code_simp+

end
