(* ===== verification/Dns.thy ===== *)
theory Dns
  imports Dns_Address
begin

text \<open>
  The mDNS packet codec (\<open>packages/registry/mdns/src/dns.ts\<close>): resource records of the types A, AAAA,
  PTR, SRV and TXT, questions and whole messages under a packet ceiling. The payload of a record is
  a string, an SRV object or an array of byte strings whatever its type, as in the source, and the
  encoder refuses a payload of the wrong kind.
\<close>

section \<open>Messages\<close>

datatype DNSRecordType = T_A | T_AAAA | T_PTR | T_SRV | T_TXT

datatype question_type = T_ANY | T_RR DNSRecordType

record DNSQuestion =
  q_name :: jsstr
  q_type :: question_type

record DNSSRVData =
  priority :: js_number
  weight :: js_number
  port :: js_number
  target :: jsstr

datatype dns_data = D_String jsstr | D_SRV DNSSRVData | D_TXT "byte list list"

record DNSRecord =
  r_name :: jsstr
  r_type :: DNSRecordType
  ttl :: js_number
  flush :: bool
  r_data :: dns_data

record DNSPacket =
  p_id :: js_number
  response :: bool
  questions :: "DNSQuestion list"
  answers :: "DNSRecord list"
  authorities :: "DNSRecord list"
  additionals :: "DNSRecord list"

fun typeCodes :: "DNSRecordType \<Rightarrow> nat" where
  "typeCodes T_A = 1"
| "typeCodes T_PTR = 12"
| "typeCodes T_TXT = 16"
| "typeCodes T_AAAA = 28"
| "typeCodes T_SRV = 33"

definition recordType :: "nat \<Rightarrow> DNSRecordType option" where
  "recordType code =
     (if code = 1 then Some T_A
      else if code = 12 then Some T_PTR
      else if code = 16 then Some T_TXT
      else if code = 28 then Some T_AAAA
      else if code = 33 then Some T_SRV
      else None)"

definition packetLimit :: "js_number \<Rightarrow> nat res" where
  "packetLimit value =
     (if \<not> isInteger value \<or> num_less value (Fin 512) \<or> num_less (Fin 1200) value
      then Inl (RangeError ''DNS maximumBytes must be an integer from 512 through 1200'')
      else Inr (nat (int_of value)))"

section \<open>Encoding\<close>

definition encode_txt_item :: "byte list \<Rightarrow> byte list res" where
  "encode_txt_item item =
     (if length item > 255 then Inl (RangeError ''DNS TXT item exceeds 255 bytes'')
      else Inr (of_nat (length item) # item))"

definition encodeSRV :: "DNSSRVData \<Rightarrow> byte list res" where
  "encodeSRV d =
     bindE (writeU16 (priority d)) (\<lambda>a.
     bindE (writeU16 (weight d)) (\<lambda>b.
     bindE (writeU16 (port d)) (\<lambda>c.
     bindE (encodeName (target d)) (\<lambda>n. Inr (a @ b @ c @ n)))))"

definition encodeRecordData :: "DNSRecord \<Rightarrow> byte list res" where
  "encodeRecordData r =
     (case r_type r of
        T_A \<Rightarrow> (case r_data r of D_String s \<Rightarrow> encodeIPv4 s
                 | _ \<Rightarrow> Inl (TypeError ''DNS A data must be a string''))
      | T_AAAA \<Rightarrow> (case r_data r of D_String s \<Rightarrow> encodeIPv6 s
                 | _ \<Rightarrow> Inl (TypeError ''DNS AAAA data must be a string''))
      | T_PTR \<Rightarrow> (case r_data r of D_String s \<Rightarrow> encodeName s
                 | _ \<Rightarrow> Inl (TypeError ''DNS PTR data must be a name''))
      | T_SRV \<Rightarrow> (case r_data r of D_SRV d \<Rightarrow> encodeSRV d
                 | _ \<Rightarrow> Inl (TypeError ''DNS SRV data must be an object''))
      | T_TXT \<Rightarrow> (case r_data r of D_TXT items \<Rightarrow> write_all encode_txt_item items
                 | _ \<Rightarrow> Inl (TypeError ''DNS TXT data must be an array'')))"

definition encodeRecord :: "DNSRecord \<Rightarrow> byte list res" where
  "encodeRecord r =
     bindE (encodeName (r_name r)) (\<lambda>name.
     bindE (writeU16 (num (typeCodes (r_type r)))) (\<lambda>typ.
     bindE (writeU16 (num (if flush r then 0x8001 else 1))) (\<lambda>cls.
     bindE (writeU32 (ttl r)) (\<lambda>time.
     bindE (encodeRecordData r) (\<lambda>rdata.
     bindE (writeU16 (num (length rdata))) (\<lambda>len.
     Inr (name @ typ @ cls @ time @ len @ rdata)))))))"

definition encodeQuestion :: "DNSQuestion \<Rightarrow> byte list res" where
  "encodeQuestion q =
     bindE (encodeName (q_name q)) (\<lambda>name.
     bindE (writeU16 (num (case q_type q of T_ANY \<Rightarrow> 255 | T_RR t \<Rightarrow> typeCodes t))) (\<lambda>typ.
     bindE (writeU16 (num 1)) (\<lambda>cls.
     Inr (name @ typ @ cls))))"

definition encodeHeader :: "DNSPacket \<Rightarrow> byte list res" where
  "encodeHeader packet =
     write_all writeU16
       [p_id packet, num (if response packet then 0x8400 else 0), num (length (questions packet)),
        num (length (answers packet)), num (length (authorities packet)),
        num (length (additionals packet))]"

definition encodeDNSPacket :: "DNSPacket \<Rightarrow> js_number \<Rightarrow> byte list res" where
  "encodeDNSPacket packet maximumBytes =
     bindE (packetLimit maximumBytes) (\<lambda>maximum.
     bindE (encodeHeader packet) (\<lambda>header.
     bindE (write_all encodeQuestion (questions packet)) (\<lambda>qs.
     bindE (write_all encodeRecord (answers packet)) (\<lambda>ans.
     bindE (write_all encodeRecord (authorities packet)) (\<lambda>aut.
     bindE (write_all encodeRecord (additionals packet)) (\<lambda>add.
     let output = header @ qs @ ans @ aut @ add in
     if length output > maximum
     then Inl (RangeError ''DNS packet exceeds the configured ceiling'')
     else Inr output))))))"

section \<open>Decoding\<close>

function decode_txt :: "byte list \<Rightarrow> nat \<Rightarrow> nat \<Rightarrow> byte list list \<Rightarrow> byte list list res" where
  "decode_txt data off stop items =
     (if off < stop then
        (case readByte data off of
           Inl e \<Rightarrow> Inl e
         | Inr (itemLength, off') \<Rightarrow>
             if off + 1 + unat itemLength > stop then Inl (TypeError ''DNS TXT item is truncated'')
             else decode_txt data (off + 1 + unat itemLength) stop
                    (items @ [take (unat itemLength) (drop (off + 1) data)]))
      else Inr items)"
  by pat_completeness auto
termination
  by (relation "measure (\<lambda>(_, off, stop, _). stop - off)") auto

declare decode_txt.simps [simp del]

definition slice :: "byte list \<Rightarrow> nat \<Rightarrow> nat \<Rightarrow> byte list" where
  "slice data start stop = take (stop - start) (drop start data)"

definition decodeRecordData :: "byte list \<Rightarrow> DNSRecordType \<Rightarrow> nat \<Rightarrow> nat \<Rightarrow> dns_data res" where
  "decodeRecordData data typ start len =
     (let stop = start + len in
      if stop > length data then Inl (TypeError ''DNS rdata is truncated'')
      else case typ of
        T_A \<Rightarrow>
          if len \<noteq> 4 then Inl (TypeError ''DNS A rdata length is invalid'')
          else Inr (D_String (decodeIPv4 (slice data start stop)))
      | T_AAAA \<Rightarrow> bindE (decodeIPv6 (slice data start stop)) (\<lambda>s. Inr (D_String s))
      | T_PTR \<Rightarrow>
          bindE (decodeName data start) (\<lambda>(name, cursor).
          if cursor \<noteq> stop then Inl (TypeError ''DNS PTR rdata length is invalid'')
          else Inr (D_String name))
      | T_SRV \<Rightarrow>
          if len < 7 then Inl (TypeError ''DNS SRV rdata is truncated'')
          else
            bindE (read_num16 data start) (\<lambda>(pri, cursor).
            bindE (read_num16 data cursor) (\<lambda>(wei, cursor).
            bindE (read_num16 data cursor) (\<lambda>(por, cursor).
            bindE (decodeName data cursor) (\<lambda>(tar, cursor).
            if cursor \<noteq> stop then Inl (TypeError ''DNS SRV rdata length is invalid'')
            else Inr (D_SRV \<lparr>priority = pri, weight = wei, port = por, target = tar\<rparr>)))))
      | T_TXT \<Rightarrow> bindE (decode_txt data start stop []) (\<lambda>items. Inr (D_TXT items)))"

definition decodeRecord :: "DNSRecord option reader" where
  "decodeRecord data cursor =
     bindE (decodeName data cursor) (\<lambda>(name, cursor).
     bindE (readU16 data cursor) (\<lambda>(code, cursor).
     bindE (readU16 data cursor) (\<lambda>(classValue, cursor).
     bindE (readU32 data cursor) (\<lambda>(ttlValue, cursor).
     bindE (readU16 data cursor) (\<lambda>(len, start).
     if start + len > length data then Inl (TypeError ''DNS rdata is truncated'')
     else case recordType code of
       None \<Rightarrow> Inr (None, start + len)
     | Some typ \<Rightarrow>
         if classValue AND 0x7FFF \<noteq> 1 then Inl (TypeError ''DNS record class is unsupported'')
         else bindE (decodeRecordData data typ start len) (\<lambda>d.
           Inr (Some \<lparr>r_name = name, r_type = typ,
                      ttl = num (if ttlValue \<ge> 2147483648 then 0 else ttlValue),
                      flush = (classValue AND 0x8000 \<noteq> 0), r_data = d\<rparr>, start + len)))))))"

definition decodeQuestion :: "DNSQuestion reader" where
  "decodeQuestion data cursor =
     bindE (decodeName data cursor) (\<lambda>(name, cursor).
     bindE (readU16 data cursor) (\<lambda>(typeCode, cursor).
     case (if typeCode = 255 then Some T_ANY else map_option T_RR (recordType typeCode)) of
       None \<Rightarrow> Inl (TypeError ''DNS record type is unsupported'')
     | Some typ \<Rightarrow>
         bindE (readU16 data cursor) (\<lambda>(classValue, cursor).
         if classValue AND 0x7FFF \<noteq> 1 then Inl (TypeError ''DNS question class is unsupported'')
         else Inr (\<lparr>q_name = name, q_type = typ\<rparr>, cursor))))"

definition decode_section :: "byte list \<Rightarrow> nat \<Rightarrow> nat \<Rightarrow> (DNSRecord list \<times> nat) res" where
  "decode_section data n cursor =
     bindE (read_times decodeRecord data n cursor) (\<lambda>(rs, cursor).
     Inr (concat (map (\<lambda>r. case r of None \<Rightarrow> [] | Some r \<Rightarrow> [r]) rs), cursor))"

definition decodeDNSPacket :: "byte list \<Rightarrow> js_number \<Rightarrow> DNSPacket res" where
  "decodeDNSPacket data maximumBytes =
     bindE (packetLimit maximumBytes) (\<lambda>maximum.
     if length data > maximum then Inl (RangeError ''DNS packet exceeds the configured ceiling'')
     else if length data < 12 then Inl (TypeError ''DNS packet header is truncated'')
     else
       bindE (readU16 data 0) (\<lambda>(ident, cursor).
       bindE (readU16 data cursor) (\<lambda>(flags, cursor).
       if flags AND 0x7800 \<noteq> 0 \<or> flags AND 0x000F \<noteq> 0
       then Inl (TypeError ''DNS packet opcode or response code is unsupported'')
       else
         bindE (readU16 data cursor) (\<lambda>(questionCount, cursor).
         bindE (readU16 data cursor) (\<lambda>(answerCount, cursor).
         bindE (readU16 data cursor) (\<lambda>(authorityCount, cursor).
         bindE (readU16 data cursor) (\<lambda>(additionalCount, cursor).
         bindE (read_times decodeQuestion data questionCount cursor) (\<lambda>(qs, cursor).
         bindE (decode_section data answerCount cursor) (\<lambda>(ans, cursor).
         bindE (decode_section data authorityCount cursor) (\<lambda>(aut, cursor).
         bindE (decode_section data additionalCount cursor) (\<lambda>(add, cursor).
         if cursor \<noteq> length data then Inl (TypeError ''DNS packet has trailing bytes'')
         else Inr \<lparr>p_id = num ident, response = (flags AND 0x8000 \<noteq> 0), questions = qs,
                    answers = ans, authorities = aut, additionals = add\<rparr>)))))))))))"

section \<open>Round trip\<close>

definition normal_ipv6 :: "jsstr \<Rightarrow> jsstr" where
  "normal_ipv6 s = (case bindE (encodeIPv6 s) decodeIPv6 of Inr t \<Rightarrow> t | Inl _ \<Rightarrow> s)"

fun normal_data :: "DNSRecordType \<Rightarrow> dns_data \<Rightarrow> dns_data" where
  "normal_data T_AAAA (D_String s) = D_String (normal_ipv6 s)"
| "normal_data T_PTR (D_String s) = D_String (normal_name s)"
| "normal_data T_SRV (D_SRV d) = D_SRV (d\<lparr>target := normal_name (target d)\<rparr>)"
| "normal_data _ d = d"

definition normal_record :: "DNSRecord \<Rightarrow> DNSRecord" where
  "normal_record r = r\<lparr>r_name := normal_name (r_name r), r_data := normal_data (r_type r) (r_data r)\<rparr>"

definition normal_question :: "DNSQuestion \<Rightarrow> DNSQuestion" where
  "normal_question q = q\<lparr>q_name := normal_name (q_name q)\<rparr>"

definition normal_packet :: "DNSPacket \<Rightarrow> DNSPacket" where
  "normal_packet p = p\<lparr>questions := map normal_question (questions p),
     answers := map normal_record (answers p), authorities := map normal_record (authorities p),
     additionals := map normal_record (additionals p)\<rparr>"

lemma num_inj [simp]: "num m = num n \<longleftrightarrow> m = n"
  by (simp add: num_def)

interpretation n16: wire_format "\<lambda>n. writeU16 (num n)" readU16 id
proof unfold_locales
  fix n bs before after
  assume "writeU16 (num n) = Inr bs"
  then show "readU16 (before @ bs @ after) (length before) = Inr (id n, length before + length bs)"
    using u16.read_write [of "num n" bs before after]
    by (auto simp: read_num16_def js_res split: prod.splits)
qed

interpretation n32: wire_format "\<lambda>n. writeU32 (num n)" readU32 id
proof unfold_locales
  fix n bs before after
  assume "writeU32 (num n) = Inr bs"
  then show "readU32 (before @ bs @ after) (length before) = Inr (id n, length before + length bs)"
    using u32.read_write [of "num n" bs before after]
    by (auto simp: read_num32_def js_res split: prod.splits)
qed

lemma recordType_typeCodes [simp]: "recordType (typeCodes t) = Some t" "typeCodes t \<noteq> 255"
  by (cases t; simp add: recordType_def)+

interpretation question: wire_format encodeQuestion decodeQuestion normal_question
proof unfold_locales
  fix q bs before after
  assume "encodeQuestion q = Inr bs"
  then obtain n t c where n: "encodeName (q_name q) = Inr n"
    and t: "writeU16 (num (case q_type q of T_ANY \<Rightarrow> 255 | T_RR t \<Rightarrow> typeCodes t)) = Inr t"
    and c: "writeU16 (num 1) = Inr c" and bs: "bs = n @ t @ c"
    by (auto simp: encodeQuestion_def js_res)
  show "decodeQuestion (before @ bs @ after) (length before) =
      Inr (normal_question q, length before + length bs)"
    using name.read_write [OF n, of before "t @ c @ after"]
      n16.read_write [OF t, of "before @ n" "c @ after"]
      n16.read_write [OF c, of "before @ n @ t" after]
    by (cases "q_type q")
      (auto simp: decodeQuestion_def bs normal_question_def add.assoc split: if_splits)
qed

lemma encode_txt_item_Inr:
  "encode_txt_item i = Inr b \<longleftrightarrow> length i \<le> 255 \<and> b = byte_of (length i) # i"
  by (auto simp: encode_txt_item_def byte_of_def)

lemma decode_txt_encode:
  "write_all encode_txt_item items = Inr bs \<Longrightarrow>
    decode_txt (before @ bs @ after) (length before) (length before + length bs) acc = Inr (acc @ items)"
proof (induction items arbitrary: bs before acc)
  case Nil
  then show ?case by (subst decode_txt.simps) (simp add: write_all_def)
next
  case (Cons item items)
  then obtain c where i: "length item \<le> 255" and c: "write_all encode_txt_item items = Inr c"
    and bs: "bs = byte_of (length item) # item @ c"
    by (auto simp: write_all_Cons encode_txt_item_Inr)
  have "unat (byte_of (length item)) = length item" using i by (simp add: unat_byte)
  then show ?case
    using Cons.IH [OF c, of "before @ byte_of (length item) # item" "acc @ [item]"]
    by (subst decode_txt.simps) (simp add: bs add.assoc)
qed

lemma encodeName_not_Nil: "encodeName v = Inr bs \<Longrightarrow> bs \<noteq> []"
  by (auto simp: encodeName_Inr)

lemma writeU16_length: "writeU16 v = Inr bs \<Longrightarrow> length bs = 2"
  by (auto elim: writeU16_Inr)

lemma slice_at: "slice (before @ bs @ after) (length before) (length before + length bs) = bs"
  by (simp add: slice_def)

lemma decodeRecordData_encode:
  assumes "encodeRecordData r = Inr bs"
  shows "decodeRecordData (before @ bs @ after) (r_type r) (length before) (length bs) =
    Inr (normal_data (r_type r) (r_data r))"
proof (cases "r_type r")
  case T_A
  then obtain s where "r_data r = D_String s" "encodeIPv4 s = Inr bs"
    using assms by (auto simp: encodeRecordData_def split: dns_data.splits)
  then show ?thesis
    using T_A encodeIPv4_Inr [of s bs] slice_at [of before bs after]
    by (simp add: decodeRecordData_def)
next
  case T_AAAA
  then obtain s where s: "r_data r = D_String s" "encodeIPv6 s = Inr bs"
    using assms by (auto simp: encodeRecordData_def split: dns_data.splits)
  then have "decodeIPv6 bs = Inr (normal_ipv6 s)"
    using encodeIPv6_length [OF s(2)] by (simp add: normal_ipv6_def decodeIPv6_def)
  then show ?thesis
    using T_AAAA s by (simp add: decodeRecordData_def slice_at)
next
  case T_PTR
  then obtain s where "r_data r = D_String s" "encodeName s = Inr bs"
    using assms by (auto simp: encodeRecordData_def split: dns_data.splits)
  then show ?thesis
    using T_PTR name.read_write [of s bs before after] by (simp add: decodeRecordData_def)
next
  case T_SRV
  then obtain d a b c n where d: "r_data r = D_SRV d" and a: "writeU16 (priority d) = Inr a"
    and b: "writeU16 (weight d) = Inr b" and c: "writeU16 (port d) = Inr c"
    and n: "encodeName (target d) = Inr n" and bs: "bs = a @ b @ c @ n"
    using assms by (auto simp: encodeRecordData_def encodeSRV_def js_res split: dns_data.splits)
  have "length a = 2" "length b = 2" "length c = 2" "0 < length n"
    using a b c n by (auto simp: writeU16_length encodeName_not_Nil)
  then have len: "\<not> length a + (length b + (length c + length n)) < 7" by simp
  show ?thesis
    using T_SRV d bs len u16.read_write [OF a, of before "b @ c @ n @ after"]
      u16.read_write [OF b, of "before @ a" "c @ n @ after"]
      u16.read_write [OF c, of "before @ a @ b" "n @ after"]
      name.read_write [OF n, of "before @ a @ b @ c" after]
    by (simp add: decodeRecordData_def add.assoc)
next
  case T_TXT
  then obtain items where "r_data r = D_TXT items" "write_all encode_txt_item items = Inr bs"
    using assms by (auto simp: encodeRecordData_def split: dns_data.splits)
  then show ?thesis
    using T_TXT decode_txt_encode [of items bs before after "[]"] by (simp add: decodeRecordData_def)
qed

interpretation rr: wire_format encodeRecord decodeRecord "\<lambda>r. Some (normal_record r)"
proof unfold_locales
  fix r bs before after
  assume "encodeRecord r = Inr bs"
  then obtain n t c u d l where n: "encodeName (r_name r) = Inr n"
    and t: "writeU16 (num (typeCodes (r_type r))) = Inr t"
    and c: "writeU16 (num (if flush r then 0x8001 else 1)) = Inr c"
    and u: "writeU32 (ttl r) = Inr u" and d: "encodeRecordData r = Inr d"
    and l: "writeU16 (num (length d)) = Inr l" and bs: "bs = n @ t @ c @ u @ l @ d"
    by (auto simp: encodeRecord_def js_res)
  obtain k where k: "ttl r = num k" "k < 2147483648"
    using u by (rule writeU32_Inr)
  show "decodeRecord (before @ bs @ after) (length before) =
      Inr (Some (normal_record r), length before + length bs)"
    using name.read_write [OF n, of before "t @ c @ u @ l @ d @ after"]
      n16.read_write [OF t, of "before @ n" "c @ u @ l @ d @ after"]
      n16.read_write [OF c, of "before @ n @ t" "u @ l @ d @ after"]
      n32.read_write [OF u [unfolded k(1)], of "before @ n @ t @ c" "l @ d @ after"]
      n16.read_write [OF l, of "before @ n @ t @ c @ u" "d @ after"]
      decodeRecordData_encode [OF d, of "before @ n @ t @ c @ u @ l" after] k
    by (cases "flush r")
      (simp_all add: decodeRecord_def bs normal_record_def add.assoc not_le)
qed

lemma decode_section_encode:
  assumes "write_all encodeRecord rs = Inr bs"
  shows "decode_section (before @ bs @ after) (length rs) (length before) =
    Inr (map normal_record rs, length before + length bs)"
proof -
  have "concat (map (\<lambda>r. case r of None \<Rightarrow> [] | Some r \<Rightarrow> [r]) (map (\<lambda>r. Some (normal_record r)) rs)) =
      map normal_record rs"
    by (induction rs) auto
  then show ?thesis
    using rr.read_times_write_all [OF assms, of before after]
    by (simp add: decode_section_def del: map_map)
qed

lemma encodeHeader_Inr:
  assumes "encodeHeader p = Inr h"
  obtains i a b c d e f where "p_id p = num i" "h = a @ b @ c @ d @ e @ f" "length h = 12"
    "writeU16 (num i) = Inr a" "writeU16 (num (if response p then 0x8400 else 0)) = Inr b"
    "writeU16 (num (length (questions p))) = Inr c" "writeU16 (num (length (answers p))) = Inr d"
    "writeU16 (num (length (authorities p))) = Inr e"
    "writeU16 (num (length (additionals p))) = Inr f"
proof -
  obtain a b c d e f where w: "writeU16 (p_id p) = Inr a"
      "writeU16 (num (if response p then 0x8400 else 0)) = Inr b"
      "writeU16 (num (length (questions p))) = Inr c" "writeU16 (num (length (answers p))) = Inr d"
      "writeU16 (num (length (authorities p))) = Inr e"
      "writeU16 (num (length (additionals p))) = Inr f" "h = a @ b @ c @ d @ e @ f"
    using assms by (auto simp: encodeHeader_def write_all_Cons)
  moreover obtain i where "p_id p = num i"
    using w(1) by (rule writeU16_Inr)
  moreover have "length h = 12"
    using w by (simp add: writeU16_length)
  ultimately show thesis using that by auto
qed

lemma decode_encode:
  assumes "encodeDNSPacket p m = Inr bs"
  shows "decodeDNSPacket bs m = Inr (normal_packet p)"
proof -
  obtain mx h q an au ad where m: "packetLimit m = Inr mx" and h: "encodeHeader p = Inr h"
    and q: "write_all encodeQuestion (questions p) = Inr q"
    and an: "write_all encodeRecord (answers p) = Inr an"
    and au: "write_all encodeRecord (authorities p) = Inr au"
    and ad: "write_all encodeRecord (additionals p) = Inr ad"
    and len: "length bs \<le> mx" and bs: "bs = h @ q @ an @ au @ ad"
    using assms by (auto simp: encodeDNSPacket_def js_res Let_def not_less split: if_splits)
  obtain i a b c d e f where i: "p_id p = num i" and hs: "h = a @ b @ c @ d @ e @ f"
    and l: "length h = 12"
    and w: "writeU16 (num i) = Inr a" "writeU16 (num (if response p then 0x8400 else 0)) = Inr b"
      "writeU16 (num (length (questions p))) = Inr c" "writeU16 (num (length (answers p))) = Inr d"
      "writeU16 (num (length (authorities p))) = Inr e"
      "writeU16 (num (length (additionals p))) = Inr f"
    using h by (rule encodeHeader_Inr)
  have reads: "readU16 bs 0 = Inr (i, length a)"
    "readU16 bs (length a) = Inr (if response p then 0x8400 else 0, length (a @ b))"
    "readU16 bs (length (a @ b)) = Inr (length (questions p), length (a @ b @ c))"
    "readU16 bs (length (a @ b @ c)) = Inr (length (answers p), length (a @ b @ c @ d))"
    "readU16 bs (length (a @ b @ c @ d)) = Inr (length (authorities p), length (a @ b @ c @ d @ e))"
    "readU16 bs (length (a @ b @ c @ d @ e)) = Inr (length (additionals p), length h)"
    using n16.read_write [OF w(1), of "[]"] n16.read_write [OF w(2), of a]
      n16.read_write [OF w(3), of "a @ b"] n16.read_write [OF w(4), of "a @ b @ c"]
      n16.read_write [OF w(5), of "a @ b @ c @ d"] n16.read_write [OF w(6), of "a @ b @ c @ d @ e"]
    by (simp_all add: bs hs add.assoc)
  have sections:
    "read_times decodeQuestion bs (length (questions p)) (length h) =
      Inr (map normal_question (questions p), length (h @ q))"
    "decode_section bs (length (answers p)) (length (h @ q)) =
      Inr (map normal_record (answers p), length (h @ q @ an))"
    "decode_section bs (length (authorities p)) (length (h @ q @ an)) =
      Inr (map normal_record (authorities p), length (h @ q @ an @ au))"
    "decode_section bs (length (additionals p)) (length (h @ q @ an @ au)) =
      Inr (map normal_record (additionals p), length bs)"
    using question.read_times_write_all [OF q, of h "an @ au @ ad"]
      decode_section_encode [OF an, of "h @ q" "au @ ad"]
      decode_section_encode [OF au, of "h @ q @ an" ad]
      decode_section_encode [OF ad, of "h @ q @ an @ au" "[]"]
    by (simp_all add: bs add.assoc)
  have "\<not> length bs < 12" using l by (simp add: bs)
  moreover have "((if response p then 0x8400 else 0) AND 0x7800 :: nat) = 0"
    "((if response p then 0x8400 else 0) AND 0x000F :: nat) = 0"
    "((if response p then 0x8400 else 0) AND 0x8000 :: nat) \<noteq> 0 \<longleftrightarrow> response p"
    by auto
  ultimately show ?thesis
    using m len i
    by (simp add: decodeDNSPacket_def reads sections normal_packet_def del: length_append)
qed

text \<open>Normal forms: a decoded message encodes to the bytes it was decoded from.\<close>

lemma encodeName_normal: "encodeName v = Inr bs \<Longrightarrow> encodeName (normal_name v) = Inr bs"
  using lower_idem [of "name_labels v"] name_labels_joined [OF labels_ok_lower, of "name_labels v"]
  by (auto simp: encodeName_Inr normal_name_def labels_ok_lower simp del: map_map)

lemma encodeIPv6_normal: "encodeIPv6 s = Inr bs \<Longrightarrow> encodeIPv6 (normal_ipv6 s) = Inr bs"
  using encodeIPv6_length [of s bs] encodeIPv6_decode [of bs "normal_ipv6 s"]
  by (simp add: normal_ipv6_def decodeIPv6_def)

lemma encodeRecordData_normal:
  "encodeRecordData r = Inr bs \<Longrightarrow> encodeRecordData (normal_record r) = Inr bs"
  by (cases "r_type r"; cases "r_data r")
    (auto simp: encodeRecordData_def normal_record_def encodeSRV_def js_res
      dest: encodeName_normal encodeIPv6_normal)

lemma encodeRecord_normal: "encodeRecord r = Inr bs \<Longrightarrow> encodeRecord (normal_record r) = Inr bs"
  using encodeRecordData_normal [of r] encodeName_normal [of "r_name r"]
  by (auto simp: encodeRecord_def js_res normal_record_def)

lemma encodeQuestion_normal:
  "encodeQuestion q = Inr bs \<Longrightarrow> encodeQuestion (normal_question q) = Inr bs"
  using encodeName_normal [of "q_name q"]
  by (auto simp: encodeQuestion_def js_res normal_question_def)

lemma write_all_normal:
  assumes "\<And>x b. wr x = Inr b \<Longrightarrow> wr (f x) = Inr b"
  shows "write_all wr xs = Inr bs \<Longrightarrow> write_all wr (map f xs) = Inr bs"
  by (induction xs arbitrary: bs) (auto simp: write_all_Cons assms)

lemma encode_normal:
  "encodeDNSPacket p m = Inr bs \<Longrightarrow> encodeDNSPacket (normal_packet p) m = Inr bs"
  using write_all_normal [of encodeRecord normal_record] encodeRecord_normal
    write_all_normal [of encodeQuestion normal_question] encodeQuestion_normal
  by (auto simp: encodeDNSPacket_def js_res normal_packet_def encodeHeader_def Let_def
      split: if_splits)

lemmas dns_eval =
  packetLimit_def encode_txt_item_def encodeSRV_def encodeRecordData_def encodeRecord_def
  encodeQuestion_def encodeHeader_def encodeDNSPacket_def encodeIPv6_def ipv6Words_def take_ipv4_def
  half_def part_words_def is_hex_def digits_value_def digit_value_def word_bytes_def

declare dns_eval [js_defs]

lemma length_header: "encodeDNSPacket p m = Inr bs \<Longrightarrow> 12 \<le> length bs \<and> length bs \<le> 1200"
proof -
  assume "encodeDNSPacket p m = Inr bs"
  then obtain mx h where m: "packetLimit m = Inr mx" and h: "encodeHeader p = Inr h"
    and len: "length bs \<le> mx" "length h \<le> length bs"
    by (auto simp: encodeDNSPacket_def js_res Let_def not_less split: if_splits)
  have "isInteger m" "\<not> num_less m (Fin 0)" "\<not> num_less (Fin (of_nat 1200)) m" "mx = nat (int_of m)"
    using m by (cases m; auto simp: packetLimit_def split: if_splits)+
  then have "mx \<le> 1200"
    using integer_range [of m 1200] by (metis nat_int)
  then show ?thesis
    using len encodeHeader_Inr [OF h] by (metis le_trans)
qed

section \<open>Properties\<close>

text \<open>
  C11: decoding inverts encoding. Whatever message \<open>encodeDNSPacket\<close> accepts, it writes between 12
  and 1200 bytes, and \<open>decodeDNSPacket\<close> under the same ceiling returns the message with its names in
  lower case with a final dot and its IPv6 literals in compressed form; that normal form
  encodes to the same bytes.
\<close>

theorem packet_roundtrip:
  assumes "encodeDNSPacket p m = Inr bs"
  shows "12 \<le> length bs \<and> length bs \<le> 1200 \<and> decodeDNSPacket bs m = Inr (normal_packet p) \<and>
    encodeDNSPacket (normal_packet p) m = Inr bs"
  using length_header [OF assms] decode_encode [OF assms] encode_normal [OF assms] by blast

definition sample_packet :: DNSPacket where
  "sample_packet = \<lparr>p_id = num 7, response = True,
     questions = [\<lparr>q_name = js ''_go.LOCAL'', q_type = T_ANY\<rparr>],
     answers = [\<lparr>r_name = js ''A.local.'', r_type = T_AAAA, ttl = num 120, flush = True,
                 r_data = D_String (js ''FE80:0:0::1'')\<rparr>],
     authorities = [\<lparr>r_name = js ''x'', r_type = T_SRV, ttl = num 2147483647, flush = False,
                 r_data = D_SRV \<lparr>priority = num 1, weight = num 2, port = num 65535, target = js ''B''\<rparr>\<rparr>],
     additionals = [\<lparr>r_name = js ''x'', r_type = T_TXT, ttl = num 0, flush = False,
                 r_data = D_TXT [[1, 2], []]\<rparr>]\<rparr>"

theorem packet_roundtrip_witness:
  "\<exists>bs. encodeDNSPacket sample_packet (num 512) = Inr bs \<and>
     decodeDNSPacket bs (num 512) = Inr (normal_packet sample_packet)"
proof -
  have "\<not> isl (encodeDNSPacket sample_packet (num 512))"
    by (simp add: js_defs sample_packet_def length_concat sum_list_replicate)
  then obtain bs where bs: "encodeDNSPacket sample_packet (num 512) = Inr bs"
    by (cases "encodeDNSPacket sample_packet (num 512)") auto
  then show ?thesis
    using packet_roundtrip [OF bs] by blast
qed

text \<open>
  names are safe whatever the packet. On any bytes and any offset \<open>decodeName\<close> stops, and a name
  it returns is the root or a name in normal form whose uncompressed encoding exists and has at most
  255 bytes.
\<close>

lemma decoded_names_encode:
  assumes "decodeName data off = Inr (s, off')" and "s \<noteq> [dot]"
  shows "normal_name s = s \<and> (\<exists>bs. encodeName s = Inr bs \<and> length bs \<le> 255)"
  using assms by (rule decodeName_normal)

text \<open>
  IPv6 literals. The literal that \<open>decodeIPv6\<close> prints for sixteen octets, with its longest run
  of zero words compressed, is parsed by \<open>encodeIPv6\<close> to the same octets.
\<close>

lemma ipv6_roundtrip: "length bs = 16 \<Longrightarrow> bindE (decodeIPv6 bs) encodeIPv6 = Inr bs"
  using encodeIPv6_decode [of bs] by (simp add: decodeIPv6_def)

text \<open>A label that starts with a byte order mark passes the decoder, which drops the mark.\<close>

lemma bom_label_accepted:
  "decodeName [4, 0xEF, 0xBB, 0xBF, 0x61, 0] 0 = Inr (js ''a.'', 6)"
  by (simp add: js_defs)

end
