(* ===== verification/Base32.thy ===== *)
theory Base32
  imports Utf8 Js_String
begin

text \<open>
  \<open>packages/registry/mdns/src/base32.ts\<close>: RFC 4648 base32 without padding, computed with a bit buffer
  held in a 32-bit integer that wraps. The result is the big-endian number of the input cut
  into groups of five bits, whatever its length: the wrap-around loses no bit that is still needed.
\<close>

unbundle bit_operations_syntax

definition alphabet :: jsstr where
  "alphabet = js ''abcdefghijklmnopqrstuvwxyz234567''"

definition char_at :: "32 word \<Rightarrow> 16 word" where
  "char_at i = alphabet ! unat (i AND 31)"

record base32_state =
  outp :: jsstr
  buffer :: "32 word"
  bits :: nat

function base32_drain :: "base32_state \<Rightarrow> base32_state" where
  "base32_drain st =
     (if bits st \<ge> 5 then
        let n = bits st - 5 in
        base32_drain (st\<lparr>bits := n, outp := outp st @ [char_at (drop_bit n (buffer st))]\<rparr>)
      else st)"
  by pat_completeness auto
termination
  by (relation "measure bits") auto

declare base32_drain.simps [simp del]

definition base32_byte :: "byte \<Rightarrow> base32_state \<Rightarrow> base32_state" where
  "base32_byte b st =
     base32_drain (st\<lparr>buffer := push_bit 8 (buffer st) OR ucast b, bits := bits st + 8\<rparr>)"

definition base32 :: "byte list \<Rightarrow> jsstr" where
  "base32 bs =
     (let st = fold base32_byte bs \<lparr>outp = [], buffer = 0, bits = 0\<rparr>;
          out = outp st @ [char_at (push_bit ((5 - bits st) mod 5) (buffer st))]
      in take ((length bs * 8 + 4) div 5) out)"

section \<open>The reference definition\<close>

definition be_value :: "byte list \<Rightarrow> nat" where
  "be_value bs = foldl (\<lambda>n b. n * 256 + unat b) 0 bs"

definition quintets :: "byte list \<Rightarrow> nat" where
  "quintets bs = (length bs * 8 + 4) div 5"

definition base32_spec :: "byte list \<Rightarrow> jsstr" where
  "base32_spec bs =
     (let m = quintets bs; n = be_value bs * 2 ^ (5 * m - 8 * length bs)
      in map (\<lambda>i. alphabet ! (n div 2 ^ (5 * (m - 1 - i)) mod 32)) [0..<m])"

section \<open>Equivalence\<close>

text \<open>\<open>group n k\<close> is the group of five bits of \<open>n\<close> that starts at bit \<open>k\<close>.\<close>

definition group :: "nat \<Rightarrow> nat \<Rightarrow> 16 word" where
  "group n k = alphabet ! (n div 2 ^ k mod 32)"

definition groups :: "nat \<Rightarrow> nat \<Rightarrow> nat \<Rightarrow> jsstr" where
  "groups n tot c = map (\<lambda>i. group n (tot - 5 * (i + 1))) [0..<c]"

lemma length_groups [simp]: "length (groups n t c) = c"
  by (simp add: groups_def)

lemma char_at_drop:
  assumes "unat w = n mod 2 ^ 32" and "k + 5 \<le> 32"
  shows "char_at (drop_bit k w) = group n k"
proof -
  have "drop_bit k w AND 31 = take_bit 5 (drop_bit k w)"
    by (simp add: take_bit_eq_mask mask_eq_exp_minus_1)
  then have "unat (drop_bit k w AND 31) = (n mod 2 ^ 32) div 2 ^ k mod 32"
    unfolding assms(1) [symmetric] using unsigned_less [of w, where 'a = nat]
    by (simp only: unsigned_take_bit_eq unsigned_drop_bit_eq) (simp add: take_bit_eq_mod drop_bit_eq_div)
  also have "\<dots> = take_bit 5 (drop_bit k (take_bit 32 n))"
    by (simp add: take_bit_eq_mod drop_bit_eq_div)
  also have "\<dots> = take_bit 5 (drop_bit k n)"
    using assms(2) by (simp add: drop_bit_take_bit)
  also have "\<dots> = n div 2 ^ k mod 32"
    by (simp add: take_bit_eq_mod drop_bit_eq_div)
  finally show ?thesis by (simp add: char_at_def group_def)
qed

lemma drain_groups:
  assumes "unat (buffer st) = n mod 2 ^ 32" and "bits st \<le> 32"
    and "5 * length (outp st) + bits st = tot" and "outp st = groups n tot (length (outp st))"
  shows "base32_drain st = st\<lparr>outp := groups n tot (tot div 5), bits := tot mod 5\<rparr>"
  using assms
proof (induction st rule: base32_drain.induct)
  case (1 st)
  show ?case
  proof (cases "5 \<le> bits st")
    case True
    let ?k = "bits st - 5"
    let ?st = "st\<lparr>bits := ?k, outp := outp st @ [char_at (drop_bit ?k (buffer st))]\<rparr>"
    have "tot - 5 * (length (outp st) + 1) = ?k"
      using 1(4) True by simp
    then have out: "outp ?st = groups n tot (Suc (length (outp st)))"
      using 1(2,3,5) char_at_drop [of "buffer st" n ?k] True by (simp add: groups_def)
    have "base32_drain ?st = ?st\<lparr>outp := groups n tot (tot div 5), bits := tot mod 5\<rparr>"
      using 1(1) [OF True refl] 1(2,3,4) True out by simp
    then show ?thesis
      using True by (subst base32_drain.simps) (simp add: Let_def)
  next
    case False
    then have "tot div 5 = length (outp st)" "tot mod 5 = bits st"
      using 1(4) by auto
    then show ?thesis
      using False 1(5) by (subst base32_drain.simps) simp
  qed
qed

lemma be_value_snoc: "be_value (bs @ [b]) = be_value bs * 256 + unat b"
  by (simp add: be_value_def)

lemma buffer_step:
  assumes "unat (w :: 32 word) = n mod 2 ^ 32"
  shows "unat (push_bit 8 w OR ucast (b :: byte)) = (n * 256 + unat b) mod 2 ^ 32"
proof -
  have b: "unat b < 256"
    using unsigned_less [of b, where 'a = nat] by simp
  have "push_bit 8 w AND ucast b = 0"
    by (rule bit_eqI) (auto simp: bit_simps dest: bit_imp_le_length)
  then have "push_bit 8 w OR ucast b = push_bit 8 w + ucast b"
    by (simp add: disjunctive_add_eq_or)
  moreover have "unat (push_bit 8 w) = (n * 256) mod 2 ^ 32"
    unfolding unsigned_push_bit_eq assms
    by (simp add: push_bit_eq_mult take_bit_eq_mod mod_mult_left_eq)
  moreover have "unat (ucast b :: 32 word) = unat b"
    using b by (simp add: unsigned_ucast_eq take_bit_nat_eq_self)
  ultimately show ?thesis
    by (simp add: unat_word_ariths mod_add_left_eq)
qed

lemma group_shift: "8 \<le> k \<Longrightarrow> b < 256 \<Longrightarrow> group (n * 256 + b) k = group n (k - 8)"
proof -
  assume "8 \<le> k" "b < 256"
  then have "(2 :: nat) ^ k = 2 ^ 8 * 2 ^ (k - 8)"
    by (metis le_add_diff_inverse power_add)
  with \<open>b < 256\<close> show ?thesis
    by (simp add: group_def div_mult2_eq)
qed

lemma groups_step: "b < 256 \<Longrightarrow> 5 * c \<le> t \<Longrightarrow> groups (n * 256 + b) (t + 8) c = groups n t c"
  by (auto simp: groups_def group_shift intro!: map_cong)

lemma fold_base32:
  "\<exists>w. unat w = be_value bs mod 2 ^ 32 \<and>
     fold base32_byte bs \<lparr>outp = [], buffer = 0, bits = 0\<rparr> =
       \<lparr>outp = groups (be_value bs) (8 * length bs) (8 * length bs div 5), buffer = w,
        bits = 8 * length bs mod 5\<rparr>"
proof (induction bs rule: rev_induct)
  case Nil
  show ?case by (simp add: be_value_def groups_def)
next
  case (snoc b bs)
  let ?n = "be_value bs" and ?t = "8 * length bs"
  obtain w where w: "unat w = ?n mod 2 ^ 32"
    and f: "fold base32_byte bs \<lparr>outp = [], buffer = 0, bits = 0\<rparr> =
      \<lparr>outp = groups ?n ?t (?t div 5), buffer = w, bits = ?t mod 5\<rparr>"
    using snoc by blast
  define st where "st = \<lparr>outp = groups ?n ?t (?t div 5), buffer = push_bit 8 w OR ucast b,
    bits = ?t mod 5 + 8\<rparr>"
  have b: "unat b < 256"
    using unsigned_less [of b, where 'a = nat] by simp
  have "base32_drain st = st\<lparr>outp := groups (?n * 256 + unat b) (?t + 8) ((?t + 8) div 5),
      bits := (?t + 8) mod 5\<rparr>"
  proof (rule drain_groups)
    show "unat (buffer st) = (?n * 256 + unat b) mod 2 ^ 32"
      using buffer_step [OF w] by (simp add: st_def)
    show "outp st = groups (?n * 256 + unat b) (?t + 8) (length (outp st))"
      using groups_step [OF b, of "?t div 5" ?t ?n] by (simp add: st_def)
    show "bits st \<le> 32" by (simp add: st_def)
    show "5 * length (outp st) + bits st = ?t + 8"
      by (simp add: st_def)
  qed
  moreover have "base32_byte b \<lparr>outp = groups ?n ?t (?t div 5), buffer = w, bits = ?t mod 5\<rparr> =
      base32_drain st"
    by (simp add: base32_byte_def st_def)
  ultimately show ?case
    using f buffer_step [OF w, of b] by (simp add: st_def be_value_snoc add.commute)
qed

lemma char_at_push:
  assumes "unat (w :: 32 word) = n mod 2 ^ 32"
  shows "char_at (push_bit k w) = group (n * 2 ^ k) 0"
proof -
  have "push_bit k w AND 31 = take_bit 5 (push_bit k w)"
    by (simp add: take_bit_eq_mask mask_eq_exp_minus_1)
  then have "unat (push_bit k w AND 31) = take_bit 5 (take_bit 32 (push_bit k (take_bit 32 n)))"
    using assms by (simp only: unsigned_take_bit_eq unsigned_push_bit_eq) (simp add: take_bit_eq_mod)
  also have "\<dots> = n * 2 ^ k mod 32"
  proof -
    have "n mod 2 ^ 32 mod 32 = n mod 32"
      by (rule mod_mod_cancel) simp
    then have "n mod 2 ^ 32 * 2 ^ k mod 32 = n * 2 ^ k mod 32"
      by (metis mod_mult_left_eq)
    then show ?thesis
      by (simp add: push_bit_eq_mult take_bit_eq_mod mod_mod_cancel)
  qed
  finally show ?thesis by (simp add: char_at_def group_def)
qed

lemma group_pad: "p \<le> k \<Longrightarrow> group (n * 2 ^ p) k = group n (k - p)"
proof -
  assume "p \<le> k"
  then have "(2 :: nat) ^ k = 2 ^ p * 2 ^ (k - p)"
    by (metis le_add_diff_inverse power_add)
  then show ?thesis
    by (simp add: group_def div_mult2_eq)
qed

lemma ceil5:
  "(t + 4) div 5 = (if t mod 5 = 0 then t div 5 else Suc (t div 5))"
  "(5 - t mod 5) mod 5 = 5 * ((t + 4) div 5) - (t :: nat)"
proof -
  define q r where "q = t div 5" and "r = t mod 5"
  have t: "t = r + 5 * q" and r: "r < 5" by (simp_all add: q_def r_def)
  have d: "(t + 4) div 5 = (if r = 0 then q else Suc q)"
  proof (cases r)
    case (Suc s)
    then have e: "t + 4 = s + Suc q * 5" and s: "s < 5" using t r by auto
    show ?thesis unfolding e using Suc s by (subst div_mult_self1) simp_all
  qed (simp add: t)
  then show "(t + 4) div 5 = (if t mod 5 = 0 then t div 5 else Suc (t div 5))"
    by (simp add: q_def r_def)
  have "(5 - r) mod 5 = 5 * ((t + 4) div 5) - t"
    unfolding d using t r by auto
  then show "(5 - t mod 5) mod 5 = 5 * ((t + 4) div 5) - t"
    by (simp add: r_def)
qed

text \<open>
  C39: \<open>base32\<close> computes the RFC 4648 encoding of any byte string: character \<open>i\<close> is the \<open>i\<close>-th group of
  five bits of the input, read as one big-endian number with zero bits at the end. In particular the
  32-bit buffer never loses a pending bit.
\<close>

theorem base32_correct: "base32 bs = base32_spec bs"
proof -
  let ?n = "be_value bs" and ?t = "8 * length bs" and ?m = "quintets bs"
  let ?p = "5 * ?m - ?t"
  have m: "?m = (if ?t mod 5 = 0 then ?t div 5 else Suc (?t div 5))"
    using ceil5(1) [of ?t] by (simp add: quintets_def mult.commute)
  have spec: "base32_spec bs = map (\<lambda>i. group (?n * 2 ^ ?p) (5 * (?m - 1 - i))) [0..<?m]"
    by (simp add: base32_spec_def Let_def group_def mult.commute)
  have early: "group (?n * 2 ^ ?p) (5 * (?m - 1 - i)) = group ?n (?t - 5 * (i + 1))"
    if "i < ?t div 5" for i
  proof -
    have "?p \<le> 5 * (?m - 1 - i)" "5 * (?m - 1 - i) - ?p = ?t - 5 * (i + 1)"
      using that m by (auto split: if_splits)
    then show ?thesis by (simp add: group_pad)
  qed
  obtain w where w: "unat w = ?n mod 2 ^ 32"
    and f: "fold base32_byte bs \<lparr>outp = [], buffer = 0, bits = 0\<rparr> =
      \<lparr>outp = groups ?n ?t (?t div 5), buffer = w, bits = ?t mod 5\<rparr>"
    using fold_base32 [of bs] by blast
  have out: "base32 bs =
      take ?m (groups ?n ?t (?t div 5) @ [group (?n * 2 ^ ((5 - ?t mod 5) mod 5)) 0])"
    by (simp add: base32_def f quintets_def char_at_push [OF w] Let_def mult.commute)
  show ?thesis
  proof (cases "?t mod 5 = 0")
    case True
    then show ?thesis
      using early m by (auto simp: out spec groups_def)
  next
    case False
    have "(5 - ?t mod 5) mod 5 = ?p"
      using ceil5(2) [of ?t] by (simp add: quintets_def mult.commute)
    then show ?thesis
      using False early m by (auto simp: out spec groups_def)
  qed
qed

end
