(* ===== verification/Registry.thy ===== *)
theory Registry
  imports Store Js_Uri
begin

text \<open>
  \<open>packages/registry/src/snapshot.ts\<close>: canonical snapshots of service instances, which every provider,
  the selectors and the application lifecycle build on.

  \<open>url\<close> stands for the \<open>URL\<close> constructor of the runtime: \<open>None\<close> when it throws, otherwise the parts
  the code reads. \<open>url_canonical\<close> states the documented fact that a serialised URL parses to itself.
  A metadata record is the list of its properties in enumeration order; the checks of \<open>typeof\<close>,
  arrays and prototypes hold by the types.
\<close>

section \<open>Instances\<close>

record service_instance =
  si_id :: jsstr
  si_name :: jsstr
  si_version :: jsstr
  si_metadata :: "(jsstr, jsstr) jsmap"
  si_endpoints :: "jsstr list"

record url_parts =
  u_protocol :: jsstr
  u_username :: jsstr
  u_password :: jsstr
  u_href :: jsstr

type_synonym url = "jsstr \<Rightarrow> url_parts option"

definition url_canonical :: "url \<Rightarrow> bool" where
  "url_canonical url \<longleftrightarrow> (\<forall>s u. url s = Some u \<longrightarrow> url (u_href u) = Some u \<and> u_href u \<noteq> [] \<and> isWellFormed (u_href u))"

text \<open>The same loop as \<open>compareStoreKeys\<close>, without its checks.\<close>

definition compareCodePoints :: "jsstr \<Rightarrow> jsstr \<Rightarrow> int" where
  "compareCodePoints left right = compare_loop left right 0 0"

definition text_value :: "jsstr \<Rightarrow> string \<Rightarrow> bool \<Rightarrow> jsstr res" where
  "text_value v field nonEmpty =
     (if (nonEmpty \<and> length v = 0) \<or> \<not> isWellFormed v
      then Inl (TypeError (field @ '' must be a'' @ (if nonEmpty then '' non-empty'' else []) @ '' string'')) else Inr v)"

definition endpoint :: "url \<Rightarrow> jsstr \<Rightarrow> jsstr res" where
  "endpoint url v =
     bindE (text_value v ''ServiceInstance endpoint'' True) (\<lambda>source.
     case url source of
       None \<Rightarrow> Inl (TypeError ''ServiceInstance endpoint must be an absolute URL'')
     | Some parsed \<Rightarrow>
         if length (u_protocol parsed) = 0 \<or> length (u_username parsed) \<noteq> 0 \<or> length (u_password parsed) \<noteq> 0 \<or>
            35 \<in> set (u_href parsed)
         then Inl (TypeError ''ServiceInstance endpoint must omit credentials and fragments'')
         else Inr (u_href parsed))"

definition instance_metadata :: "(jsstr, jsstr) jsmap \<Rightarrow> (jsstr, jsstr) jsmap res" where
  "instance_metadata v =
     bindE (mapE (\<lambda>(k, x).
        bindE (text_value k ''ServiceInstance.metadata key'' False) (\<lambda>k'.
        bindE (text_value x ''ServiceInstance.metadata value'' False) (\<lambda>x'. Inr (k', x')))) v) (\<lambda>entries.
     Inr (fromEntries (sort_with (\<lambda>l r. compareCodePoints (fst l) (fst r)) entries)))"

text \<open>A \<open>Set\<close> of strings in insertion order.\<close>

definition set_add :: "'a \<Rightarrow> 'a list \<Rightarrow> 'a list" where
  "set_add x xs = (if x \<in> set xs then xs else xs @ [x])"

fun collect_endpoints :: "url \<Rightarrow> jsstr list \<Rightarrow> jsstr list \<Rightarrow> jsstr list res" where
  "collect_endpoints url endpoints [] = Inr endpoints"
| "collect_endpoints url endpoints (address # addresses) =
     bindE (endpoint url address) (\<lambda>e. collect_endpoints url (set_add e endpoints) addresses)"

definition snapshotServiceInstance :: "url \<Rightarrow> service_instance \<Rightarrow> service_instance res" where
  "snapshotServiceInstance url v =
     bindE (collect_endpoints url [] (si_endpoints v)) (\<lambda>endpoints.
     let sortedEndpoints = sort_with compareCodePoints endpoints in
     bindE (text_value (si_id v) ''ServiceInstance.id'' False) (\<lambda>i.
     bindE (text_value (si_name v) ''ServiceInstance.name'' True) (\<lambda>n.
     bindE (text_value (si_version v) ''ServiceInstance.version'' False) (\<lambda>ver.
     bindE (instance_metadata (si_metadata v)) (\<lambda>m.
     Inr \<lparr>si_id = i, si_name = n, si_version = ver, si_metadata = m, si_endpoints = sortedEndpoints\<rparr>)))))"

definition compareInstances :: "service_instance \<Rightarrow> service_instance \<Rightarrow> int" where
  "compareInstances left right =
     (let byName = compareCodePoints (si_name left) (si_name right) in
      if byName \<noteq> 0 then byName
      else let byId = compareCodePoints (si_id left) (si_id right) in
        if byId = 0 then compareCodePoints (si_version left) (si_version right) else byId)"

text \<open>\<open>JSON.stringify([snapshot.name, snapshot.id])\<close>.\<close>

definition instance_identity :: "service_instance \<Rightarrow> jsstr" where
  "instance_identity s = json_array [json_string (si_name s), json_string (si_id s)]"

text \<open>An array published here is trusted; any other array is copied and checked.\<close>

datatype instances_arg = Published "service_instance list" | Unpublished "service_instance list"

fun collect_instances ::
    "url \<Rightarrow> jsstr set \<Rightarrow> service_instance list \<Rightarrow> service_instance list \<Rightarrow> service_instance list res" where
  "collect_instances url identities snapshots [] = Inr snapshots"
| "collect_instances url identities snapshots (v # vs) =
     bindE (snapshotServiceInstance url v) (\<lambda>snapshot.
     let identity = instance_identity snapshot in
     if identity \<in> identities
     then Inl (TypeError ''ServiceInstance snapshot contains a duplicate service identity'')
     else collect_instances url (insert identity identities) (snapshots @ [snapshot]) vs)"

definition snapshotServiceInstances :: "url \<Rightarrow> instances_arg \<Rightarrow> service_instance list res" where
  "snapshotServiceInstances url a =
     (case a of
        Published vs \<Rightarrow> Inr vs
      | Unpublished vs \<Rightarrow>
          bindE (collect_instances url {} [] vs) (\<lambda>snapshots. Inr (sort_with compareInstances snapshots)))"

section \<open>The order of strings\<close>

lemma code_points_units_all: "concat (map units_of_point (code_points s)) = s"
proof (induction s rule: code_points.induct)
  case (2 u s)
  then show ?case by (cases s; cases "is_high u"; cases "is_low (hd s)") (simp_all add: pair_point_units)
qed simp

lemma code_points_eq: "code_points s = code_points t \<longleftrightarrow> s = t"
  using code_points_units_all by metis

lemma compareCodePoints_sign: "compareCodePoints l r = order_sign (code_points l) (code_points r)"
  by (simp add: compareCodePoints_def compare_loop_points)

lemma compareCodePoints_zero: "compareCodePoints l r = 0 \<longleftrightarrow> l = r"
  using code_points_eq by (auto simp: compareCodePoints_sign order_sign_def)

lemma compareCodePoints_le: "compareCodePoints l r \<le> 0 \<longleftrightarrow> code_points l \<le> code_points r"
  by (simp add: compareCodePoints_sign order_sign_le)

definition instance_key :: "service_instance \<Rightarrow> nat list list" where
  "instance_key s = [code_points (si_name s), code_points (si_id s), code_points (si_version s)]"

lemma compareInstances_le: "compareInstances l r \<le> 0 \<longleftrightarrow> instance_key l \<le> instance_key r"
  by (auto simp: compareInstances_def Let_def compareCodePoints_sign order_sign_def instance_key_def split: if_splits)

lemma sort_strings: "sort_with compareCodePoints xs = sort_key code_points xs"
  by (rule sort_with_key) (simp add: compareCodePoints_le)

lemma sort_instances: "sort_with compareInstances xs = sort_key instance_key xs"
  by (rule sort_with_key) (simp add: compareInstances_le)

lemma sort_entries: "sort_with (\<lambda>l r. compareCodePoints (fst l) (fst r)) xs = sort_key (\<lambda>e. code_points (fst e)) xs"
  by (rule sort_with_key) (simp add: compareCodePoints_le)

lemma identity_eq: "instance_identity s = instance_identity t \<longleftrightarrow> si_name s = si_name t \<and> si_id s = si_id t"
proof
  assume e: "instance_identity s = instance_identity t"
  have "JSON_parse (instance_identity s) = Inr (JArr [JStr (si_name s), JStr (si_id s)])" for s :: service_instance
    unfolding instance_identity_def by (intro reads_parse reads_array) (simp add: reads_string)
  from this [of s] this [of t] e show "si_name s = si_name t \<and> si_id s = si_id t" by simp
qed (simp add: instance_identity_def)

section \<open>Snapshots are canonical\<close>

lemma text_value_Inr [js_res]: "text_value v field ne = Inr x \<longleftrightarrow> x = v \<and> text_ok ne v"
  by (auto simp: text_value_def text_ok_def)

abbreviation canonical_entries :: "(jsstr, jsstr) jsmap \<Rightarrow> (jsstr, jsstr) jsmap" where
  "canonical_entries m \<equiv> fromEntries (sort_key (\<lambda>e. code_points (fst e)) m)"

lemma canonical_entries_idem: "canonical_entries (canonical_entries m) = canonical_entries m"
  by (subst sort_fromEntries) (auto simp: code_points_eq)

lemma instance_metadata_Inr [js_res]:
  "instance_metadata m = Inr y \<longleftrightarrow>
     (\<forall>e \<in> set m. isWellFormed (fst e) \<and> isWellFormed (snd e)) \<and> y = canonical_entries m"
proof -
  let ?f = "\<lambda>(k, x). bindE (text_value k ''ServiceInstance.metadata key'' False)
      (\<lambda>k'. bindE (text_value x ''ServiceInstance.metadata value'' False) (\<lambda>x'. Inr (k', x')))"
  have "mapE ?f m = Inr z \<longleftrightarrow> (\<forall>e \<in> set m. isWellFormed (fst e) \<and> isWellFormed (snd e)) \<and> z = m" for z
    by (induction m arbitrary: z) (auto simp: js_res text_ok_def)
  then show ?thesis by (auto simp: instance_metadata_def js_res sort_entries)
qed

lemma endpoint_canonical:
  assumes "url_canonical url" "endpoint url a = Inr e"
  shows "endpoint url e = Inr e"
proof -
  obtain u where u: "url a = Some u" "e = u_href u" "length (u_protocol u) \<noteq> 0" "length (u_username u) = 0"
      "length (u_password u) = 0" "35 \<notin> set (u_href u)"
    using assms(2) by (auto simp: endpoint_def js_res split: option.splits if_splits)
  moreover have "url e = Some u" "e \<noteq> []" "isWellFormed e" using assms(1) u(1,2) by (auto simp: url_canonical_def)
  ultimately show ?thesis by (simp add: endpoint_def text_value_def)
qed

lemma collect_endpoints_Inr:
  "collect_endpoints url acc as = Inr es \<longleftrightarrow>
     (\<exists>bs. mapE (endpoint url) as = Inr bs \<and> es = foldl (\<lambda>a b. set_add b a) acc bs)"
  by (induction as arbitrary: acc) (auto simp: js_res)

lemma foldl_set_add:
  "set (foldl (\<lambda>a b. set_add b a) acc bs) = set acc \<union> set bs"
  "distinct acc \<Longrightarrow> distinct (foldl (\<lambda>a b. set_add b a) acc bs)"
  "distinct (acc @ bs) \<Longrightarrow> foldl (\<lambda>a b. set_add b a) acc bs = acc @ bs"
  by (induction bs arbitrary: acc) (auto simp: set_add_def)

lemma mapE_set: "mapE f xs = Inr ys \<Longrightarrow> y \<in> set ys \<Longrightarrow> \<exists>x \<in> set xs. f x = Inr y"
  by (induction xs arbitrary: ys) (auto simp: js_res)

lemma mapE_fixed: "\<forall>x \<in> set xs. f x = Inr x \<Longrightarrow> mapE f xs = Inr xs"
  by (induction xs) auto

lemma collect_fixed:
  "distinct es \<Longrightarrow> \<forall>e \<in> set es. endpoint url e = Inr e \<Longrightarrow> collect_endpoints url [] es = Inr es"
  using foldl_set_add(3) [of "[]" es] by (auto simp: collect_endpoints_Inr mapE_fixed)

text \<open>A snapshot is its own snapshot.\<close>

definition instance_ok :: "url \<Rightarrow> service_instance \<Rightarrow> bool" where
  "instance_ok url s \<longleftrightarrow> text_ok False (si_id s) \<and> text_ok True (si_name s) \<and> text_ok False (si_version s) \<and>
     (\<forall>e \<in> set (si_metadata s). isWellFormed (fst e) \<and> isWellFormed (snd e)) \<and>
     canonical_entries (si_metadata s) = si_metadata s \<and>
     sorted (map code_points (si_endpoints s)) \<and> distinct (si_endpoints s) \<and>
     (\<forall>e \<in> set (si_endpoints s). endpoint url e = Inr e)"

lemma snapshot_instance_ok:
  assumes "url_canonical url" "snapshotServiceInstance url v = Inr s"
  shows "instance_ok url s"
proof -
  obtain es where es: "collect_endpoints url [] (si_endpoints v) = Inr es" "si_endpoints s = sort_key code_points es"
    using assms(2) by (auto simp: snapshotServiceInstance_def js_res Let_def sort_strings)
  obtain bs where bs: "mapE (endpoint url) (si_endpoints v) = Inr bs" "es = foldl (\<lambda>a b. set_add b a) [] bs"
    using es(1) by (auto simp: collect_endpoints_Inr)
  have "distinct es" "set es = set bs" using foldl_set_add [of "[]" bs] bs(2) by auto
  moreover have "endpoint url e = Inr e" if "e \<in> set bs" for e
    using mapE_set [OF bs(1) that] endpoint_canonical [OF assms(1)] by blast
  ultimately have "sorted (map code_points (si_endpoints s))" "distinct (si_endpoints s)"
    "\<forall>e \<in> set (si_endpoints s). endpoint url e = Inr e" using es(2) by simp_all
  then show ?thesis
    using assms(2) canonical_entries_idem by (auto simp: instance_ok_def snapshotServiceInstance_def js_res Let_def)
qed

lemma instance_ok_snapshot: "instance_ok url s \<Longrightarrow> snapshotServiceInstance url s = Inr s"
  by (simp add: instance_ok_def snapshotServiceInstance_def collect_fixed js_res Let_def sort_strings sort_key_id_if_sorted)

lemma collect_instances_Inr:
  "collect_instances url seen acc vs = Inr ys \<longleftrightarrow>
     (\<exists>ss. mapE (snapshotServiceInstance url) vs = Inr ss \<and> ys = acc @ ss \<and>
        distinct (map instance_identity ss) \<and> instance_identity ` set ss \<inter> seen = {})"
  by (induction vs arbitrary: seen acc) (auto simp: js_res Let_def)

lemma snapshot_published:
  assumes "\<forall>s \<in> set zs. instance_ok url s" "distinct (map instance_identity zs)"
  shows "snapshotServiceInstances url (Unpublished zs) = Inr (sort_key instance_key zs)"
proof -
  have "mapE (snapshotServiceInstance url) zs = Inr zs" using assms(1) instance_ok_snapshot by (intro mapE_fixed) blast
  then have "collect_instances url {} [] zs = Inr zs" using assms(2) by (simp add: collect_instances_Inr)
  then show ?thesis by (simp add: snapshotServiceInstances_def sort_instances)
qed

lemma instance_key_identity: "instance_key s = instance_key t \<Longrightarrow> instance_identity s = instance_identity t"
  by (simp add: instance_key_def code_points_eq identity_eq)

lemma sort_instances_perm:
  assumes "mset xs = mset ys" "distinct (map instance_identity xs)"
  shows "sort_key instance_key xs = sort_key instance_key ys"
proof (rule properties_for_sort_key)
  show m: "mset (sort_key instance_key ys) = mset xs" using assms(1) by simp
  have d: "distinct xs" "inj_on instance_identity (set xs)" using assms(2) by (auto simp: distinct_map)
  have dy: "distinct (sort_key instance_key ys)" using m d(1) mset_eq_imp_distinct_iff by blast
  fix k assume k: "k \<in> set (sort_key instance_key ys)"
  have s: "set (sort_key instance_key ys) = set xs" using m mset_eq_setD by blast
  then have one: "x \<in> set xs \<Longrightarrow> instance_key k = instance_key x \<longleftrightarrow> x = k" for x
    using k d(2) instance_key_identity by (metis inj_onD)
  have single: "filter (\<lambda>x. x = k) zs = [k]" if "distinct zs" "k \<in> set zs" for zs
    using that by (induction zs) (auto simp: filter_empty_conv)
  have c: "filter (\<lambda>x. instance_key k = instance_key x) zs = filter (\<lambda>x. x = k) zs" if "set zs = set xs" for zs
    using one that by (intro filter_cong) auto
  have "filter (\<lambda>x. instance_key k = instance_key x) (sort_key instance_key ys) = [k]"
    using single [OF dy k] c [OF s] by simp
  moreover have "filter (\<lambda>x. instance_key k = instance_key x) xs = [k]" using single [OF d(1)] k s c [OF refl] by simp
  ultimately show "filter (\<lambda>x. instance_key k = instance_key x) (sort_key instance_key ys) =
      filter (\<lambda>x. instance_key k = instance_key x) xs" by simp
qed simp

lemma snapshots_ok:
  assumes "url_canonical url" "snapshotServiceInstances url (Unpublished vs) = Inr ys"
  shows "\<forall>s \<in> set ys. instance_ok url s" "distinct (map instance_identity ys)" "sorted (map instance_key ys)"
    "mapE (snapshotServiceInstance url) vs = Inr ss \<Longrightarrow> set ys = set ss"
proof -
  obtain ss where ss: "mapE (snapshotServiceInstance url) vs = Inr ss" "distinct (map instance_identity ss)"
      "ys = sort_key instance_key ss"
    using assms(2) by (auto simp: snapshotServiceInstances_def js_res collect_instances_Inr sort_instances)
  show "\<forall>s \<in> set ys. instance_ok url s"
    using mapE_set [OF ss(1)] snapshot_instance_ok [OF assms(1)] ss(3) by fastforce
  show "distinct (map instance_identity ys)" using ss(2,3) by (simp add: distinct_map)
  show "sorted (map instance_key ys)" using ss(3) by simp
  show "mapE (snapshotServiceInstance url) vs = Inr ss \<Longrightarrow> set ys = set ss" for ss using ss by simp
qed


text \<open>A parser that accepts what starts with \<open>a:\<close>, for the witnesses.\<close>

definition sample_url :: url where
  "sample_url s = (if take 2 s = [97, 58] \<and> isWellFormed s
     then Some \<lparr>u_protocol = [97, 58], u_username = [], u_password = [], u_href = s\<rparr> else None)"

definition sample_instance :: "16 word \<Rightarrow> jsstr list \<Rightarrow> service_instance" where
  "sample_instance i es = \<lparr>si_id = [i], si_name = [110], si_version = [], si_metadata = [], si_endpoints = es\<rparr>"

lemma sample_canonical: "url_canonical sample_url"
  by (auto simp: url_canonical_def sample_url_def)


end
