(* ===== verification/Mdns_Cache.thy ===== *)
theory Mdns_Cache
  imports Registry
begin

text \<open>
  \<open>packages/registry/mdns/src/cache.ts\<close>: the TTL cache of what mDNS publishers announce, and the texts of
  \<open>canonical.ts\<close> that it compares. The state is the \<open>Map\<close> from identity to the \<open>Map\<close> of publishers, by value:
  nothing else holds the inner maps. A record that a publisher announces for an identity must have the content of the
  records that others hold for it.
\<close>

section \<open>Canonical texts\<close>

text \<open>\<open>canonical.ts\<close> compares strings as \<open>compareCodePoints\<close> of \<open>snapshot.ts\<close> does.\<close>

definition metadataPairs :: "(jsstr, jsstr) jsmap \<Rightarrow> (jsstr \<times> jsstr) list" where
  "metadataPairs v = sort_with (\<lambda>l r. compareCodePoints (fst l) (fst r)) v"

definition identityPreimage :: "url \<Rightarrow> service_instance \<Rightarrow> jsstr res" where
  "identityPreimage url i =
     bindE (snapshotServiceInstance url i) (\<lambda>selected.
     Inr (json_array [json_string (si_name selected), json_string (si_id selected)]))"

definition payload_text :: "service_instance \<Rightarrow> jsstr" where
  "payload_text i =
     js ''{\"id\":'' @ json_string (si_id i) @ js '',\"name\":'' @ json_string (si_name i) @
     js '',\"version\":'' @ json_string (si_version i) @
     js '',\"metadata\":'' @ json_array (map (\<lambda>(k, v). json_array [json_string k, json_string v]) (metadataPairs (si_metadata i))) @
     js '',\"endpoints\":'' @ json_array (map json_string (si_endpoints i)) @ js ''}''"

definition canonicalPayload :: "url \<Rightarrow> service_instance \<Rightarrow> jsstr res" where
  "canonicalPayload url i = bindE (snapshotServiceInstance url i) (\<lambda>selected. Inr (payload_text selected))"

section \<open>The cache\<close>

record publisher_record =
  pr_instance :: service_instance
  pr_expiresAt :: rat

type_synonym publishers = "(jsstr, publisher_record) jsmap"

type_synonym mdns_cache = "(jsstr, publishers) jsmap"

definition cacheTime :: "js_number \<Rightarrow> rat res" where
  "cacheTime v =
     (if \<not> isFinite v \<or> num_less v (Fin 0) then Inl (RangeError ''mDNS cache time must be finite and non-negative'')
      else Inr (rat_of v))"

fun logical_loop ::
    "url \<Rightarrow> publisher_record list \<Rightarrow> service_instance option \<Rightarrow> jsstr option \<Rightarrow> service_instance option res" where
  "logical_loop url [] found content = Inr found"
| "logical_loop url (r # rs) found content =
     bindE (canonicalPayload url (pr_instance r)) (\<lambda>candidate.
     if content \<noteq> None \<and> content \<noteq> Some candidate
     then Inl (RegistryProtocolError ''mDNS identity-content collision'')
     else logical_loop url rs (Some (pr_instance r)) (Some candidate))"

definition logical :: "url \<Rightarrow> publishers option \<Rightarrow> service_instance option res" where
  "logical url records =
     (case records of
        None \<Rightarrow> Inr None
      | Some m \<Rightarrow> if length m = 0 then Inr None else logical_loop url (map snd m) None None)"

definition changed :: "url \<Rightarrow> service_instance option \<Rightarrow> service_instance option \<Rightarrow> bool res" where
  "changed url before after =
     (case (before, after) of
        (Some b, Some a) \<Rightarrow>
          bindE (canonicalPayload url b) (\<lambda>x. bindE (canonicalPayload url a) (\<lambda>y. Inr (x \<noteq> y)))
      | _ \<Rightarrow> Inr (before \<noteq> after))"

text \<open>A goodbye (a lifetime of zero) shortens the record of its publisher when the content is the same.\<close>

definition observe_goodbye ::
    "url \<Rightarrow> jsstr \<Rightarrow> service_instance \<Rightarrow> jsstr \<Rightarrow> rat \<Rightarrow> mdns_cache \<Rightarrow> mdns_cache \<times> jsstr list res" where
  "observe_goodbye url publisher inst identity now c =
     (case Option.bind (map_get c identity) (\<lambda>m. map_get m publisher) of
        None \<Rightarrow> (c, Inr [])
      | Some previous \<Rightarrow>
          (case bindE (canonicalPayload url (pr_instance previous)) (\<lambda>x. bindE (canonicalPayload url inst) (\<lambda>y. Inr (x \<noteq> y))) of
             Inl e \<Rightarrow> (c, Inl e)
           | Inr True \<Rightarrow> (c, Inr [])
           | Inr False \<Rightarrow>
               (map_set identity (map_set publisher
                  (previous\<lparr>pr_expiresAt := min (pr_expiresAt previous) (now + 1000)\<rparr>) (the (map_get c identity))) c, Inr [])))"

definition observe_record ::
    "url \<Rightarrow> jsstr \<Rightarrow> service_instance \<Rightarrow> jsstr \<Rightarrow> nat \<Rightarrow> rat \<Rightarrow> service_instance option \<Rightarrow> mdns_cache \<Rightarrow>
      mdns_cache \<times> jsstr list res" where
  "observe_record url publisher inst identity ttl now before c =
     (let created = (map_get c identity = None);
          records = (case map_get c identity of None \<Rightarrow> [] | Some m \<Rightarrow> m);
          previous = map_get records publisher;
          stored = map_set publisher \<lparr>pr_instance = inst, pr_expiresAt = now + of_nat ttl * 1000\<rparr> records;
          c' = map_set identity stored c
      in case bindE (logical url (Some stored)) (\<lambda>after. changed url before after) of
           Inr ch \<Rightarrow> (c', Inr (if ch then [si_name inst] else []))
         | Inl e \<Rightarrow>
             let restored = (case previous of None \<Rightarrow> map_delete publisher stored | Some p \<Rightarrow> map_set publisher p stored)
             in (if created \<or> length restored = 0 then map_delete identity c' else map_set identity restored c', Inl e))"

definition observe ::
    "url \<Rightarrow> jsstr \<Rightarrow> service_instance \<Rightarrow> js_number \<Rightarrow> js_number \<Rightarrow> mdns_cache \<Rightarrow> mdns_cache \<times> jsstr list res" where
  "observe url publisher v ttlSeconds nowMs c =
     (case
        bindE (check (length publisher \<noteq> 0) (TypeError ''mDNS cache publisher must be non-empty'')) (\<lambda>_.
        bindE (check (isInteger ttlSeconds \<and> \<not> num_less ttlSeconds (Fin 0) \<and> \<not> num_less (Fin 4294967) ttlSeconds)
          (RangeError ''mDNS cache TTL is out of range'')) (\<lambda>_.
        bindE (cacheTime nowMs) (\<lambda>now.
        bindE (snapshotServiceInstance url v) (\<lambda>inst.
        bindE (identityPreimage url inst) (\<lambda>identity.
        bindE (logical url (map_get c identity)) (\<lambda>before.
        Inr (now, inst, identity, before))))))) of
        Inl e \<Rightarrow> (c, Inl e)
      | Inr (now, inst, identity, before) \<Rightarrow>
          if int_of ttlSeconds = 0 then observe_goodbye url publisher inst identity now c
          else observe_record url publisher inst identity (nat (int_of ttlSeconds)) now before c)"

text \<open>The loop of \<open>expire\<close> over the entries that the cache had; only the entry it visits is deleted.\<close>

fun expire_loop ::
    "url \<Rightarrow> rat \<Rightarrow> (jsstr \<times> publishers) list \<Rightarrow> mdns_cache \<Rightarrow> jsstr list \<Rightarrow> mdns_cache \<times> jsstr list res" where
  "expire_loop url now [] c names = (c, Inr names)"
| "expire_loop url now ((identity, records) # entries) c names =
     (case logical url (Some records) of
        Inl e \<Rightarrow> (c, Inl e)
      | Inr before \<Rightarrow>
          let kept = filter (\<lambda>(p, r). \<not> pr_expiresAt r \<le> now) records;
              c' = (if length kept = 0 then map_delete identity c else map_set identity kept c)
          in case bindE (logical url (Some kept)) (\<lambda>after. changed url before after) of
               Inl e \<Rightarrow> (c', Inl e)
             | Inr ch \<Rightarrow>
                 expire_loop url now entries c'
                   (case before of Some b \<Rightarrow> if ch then set_add (si_name b) names else names | None \<Rightarrow> names))"

text \<open>\<open>sort()\<close> without a comparison orders strings by their code units.\<close>

fun compareUnits :: "jsstr \<Rightarrow> jsstr \<Rightarrow> int" where
  "compareUnits [] [] = 0"
| "compareUnits [] (v # t) = -1"
| "compareUnits (u # s) [] = 1"
| "compareUnits (u # s) (v # t) = (if u < v then -1 else if v < u then 1 else compareUnits s t)"

definition expire :: "url \<Rightarrow> js_number \<Rightarrow> mdns_cache \<Rightarrow> mdns_cache \<times> jsstr list res" where
  "expire url nowMs c =
     (case cacheTime nowMs of
        Inl e \<Rightarrow> (c, Inl e)
      | Inr now \<Rightarrow>
          (case expire_loop url now c c [] of
             (c', Inl e) \<Rightarrow> (c', Inl e)
           | (c', Inr names) \<Rightarrow> (c', Inr (sort_with compareUnits names))))"

definition instances :: "url \<Rightarrow> jsstr \<Rightarrow> mdns_cache \<Rightarrow> service_instance list res" where
  "instances url name c =
     (if length name = 0 then Inl (TypeError ''mDNS cache service name must be non-empty'')
      else bindE (mapE (\<lambda>(identity, records). logical url (Some records)) c) (\<lambda>found.
        snapshotServiceInstances url (Unpublished (filter (\<lambda>i. si_name i = name) (List.map_filter (\<lambda>i. i) found)))))"

definition close :: "mdns_cache \<Rightarrow> mdns_cache" where
  "close c = []"

section \<open>Equal texts, equal instances\<close>

lemma reads_prefix:
  assumes "reads t v" "reads t' v'" "t @ r = t' @ r'"
  shows "v = v' \<and> r = r'"
proof -
  obtain N where N: "\<forall>n \<ge> N. \<forall>r. p_value n (t @ r) = Some (v, r)" using assms(1) by (auto simp: reads_def)
  obtain M where M: "\<forall>n \<ge> M. \<forall>r. p_value n (t' @ r) = Some (v', r)" using assms(2) by (auto simp: reads_def)
  have "p_value (N + M) (t @ r) = Some (v, r)" "p_value (N + M) (t' @ r') = Some (v', r')" using N M by simp_all
  then show ?thesis using assms(3) by simp
qed

lemma json_string_prefix: "json_string s @ r = json_string s' @ r' \<Longrightarrow> s = s' \<and> r = r'"
  using reads_prefix [OF reads_string reads_string] by blast

lemma json_strings_prefix:
  assumes "json_array (map json_string xs) @ r = json_array (map json_string ys) @ r'"
  shows "xs = ys \<and> r = r'"
proof -
  have s: "list_all2 reads (map json_string zs) (map JStr zs)" for zs by (induction zs) (simp_all add: reads_string)
  have "JArr (map JStr xs) = JArr (map JStr ys) \<and> r = r'" by (rule reads_prefix [OF reads_array [OF s] reads_array [OF s] assms])
  moreover have "inj JStr" by (simp add: inj_def)
  ultimately show ?thesis by (simp add: inj_map_eq_map)
qed

lemma json_pairs_prefix:
  fixes xs ys :: "(jsstr \<times> jsstr) list"
  defines "entry \<equiv> \<lambda>(k, v). json_array [json_string k, json_string v]"
  assumes "json_array (map entry xs) @ r = json_array (map entry ys) @ r'"
  shows "xs = ys \<and> r = r'"
proof -
  let ?v = "\<lambda>(k, v). JArr [JStr k, JStr v]"
  have e: "reads (entry z) (?v z)" for z
    by (cases z) (simp add: entry_def, rule reads_array, simp add: reads_string)
  have s: "list_all2 reads (map entry zs) (map ?v zs)" for zs by (induction zs) (simp_all add: e)
  have "JArr (map ?v xs) = JArr (map ?v ys) \<and> r = r'"
    by (rule reads_prefix [OF reads_array [OF s] reads_array [OF s] assms(2)])
  moreover have "inj ?v" by (auto simp: inj_def)
  ultimately show ?thesis by (simp add: inj_map_eq_map)
qed

lemma metadataPairs_eq: "metadataPairs m = sort_key (\<lambda>e. code_points (fst e)) m"
  by (simp add: metadataPairs_def sort_entries)

lemma payload_inj:
  assumes "payload_text i = payload_text j" "instance_ok url i" "instance_ok url j"
  shows "i = j"
proof -
  note e1 = assms(1) [unfolded payload_text_def same_append_eq]
  have a: "si_id i = si_id j" and e2: "json_string (si_name i) @ js '',\"version\":'' @ json_string (si_version i) @
      js '',\"metadata\":'' @ json_array (map (\<lambda>(k, v). json_array [json_string k, json_string v]) (metadataPairs (si_metadata i))) @
      js '',\"endpoints\":'' @ json_array (map json_string (si_endpoints i)) @ js ''}'' =
      json_string (si_name j) @ js '',\"version\":'' @ json_string (si_version j) @
      js '',\"metadata\":'' @ json_array (map (\<lambda>(k, v). json_array [json_string k, json_string v]) (metadataPairs (si_metadata j))) @
      js '',\"endpoints\":'' @ json_array (map json_string (si_endpoints j)) @ js ''}''"
    using json_string_prefix [OF e1] unfolding same_append_eq by blast+
  have b: "si_name i = si_name j" and e3: "json_string (si_version i) @
      js '',\"metadata\":'' @ json_array (map (\<lambda>(k, v). json_array [json_string k, json_string v]) (metadataPairs (si_metadata i))) @
      js '',\"endpoints\":'' @ json_array (map json_string (si_endpoints i)) @ js ''}'' = json_string (si_version j) @
      js '',\"metadata\":'' @ json_array (map (\<lambda>(k, v). json_array [json_string k, json_string v]) (metadataPairs (si_metadata j))) @
      js '',\"endpoints\":'' @ json_array (map json_string (si_endpoints j)) @ js ''}''"
    using json_string_prefix [OF e2] unfolding same_append_eq by blast+
  have c: "si_version i = si_version j" and e4: "json_array (map (\<lambda>(k, v). json_array [json_string k, json_string v])
      (metadataPairs (si_metadata i))) @ js '',\"endpoints\":'' @ json_array (map json_string (si_endpoints i)) @ js ''}'' =
      json_array (map (\<lambda>(k, v). json_array [json_string k, json_string v]) (metadataPairs (si_metadata j))) @
      js '',\"endpoints\":'' @ json_array (map json_string (si_endpoints j)) @ js ''}''"
    using json_string_prefix [OF e3] unfolding same_append_eq by blast+
  have d: "metadataPairs (si_metadata i) = metadataPairs (si_metadata j)"
    and e5: "json_array (map json_string (si_endpoints i)) @ js ''}'' = json_array (map json_string (si_endpoints j)) @ js ''}''"
    using json_pairs_prefix [OF e4] unfolding same_append_eq by blast+
  have "si_endpoints i = si_endpoints j" using json_strings_prefix [OF e5] by blast
  moreover have "si_metadata i = si_metadata j" using d assms(2,3) by (simp add: metadataPairs_eq instance_ok_def)
  ultimately show ?thesis using a b c by (intro service_instance.equality) simp_all
qed

lemma ok_payload: "instance_ok url i \<Longrightarrow> canonicalPayload url i = Inr (payload_text i)"
  by (simp add: canonicalPayload_def instance_ok_snapshot js_res)

lemma ok_preimage: "instance_ok url i \<Longrightarrow> identityPreimage url i = Inr (instance_identity i)"
  by (simp add: identityPreimage_def instance_ok_snapshot instance_identity_def js_res)

lemma ok_changed:
  "(\<And>i. before = Some i \<Longrightarrow> instance_ok url i) \<Longrightarrow> (\<And>i. after = Some i \<Longrightarrow> instance_ok url i) \<Longrightarrow>
    changed url before after = Inr (before \<noteq> after)"
  using payload_inj [of "the before" "the after" url]
  by (cases before; cases after) (auto simp: changed_def ok_payload js_res)

section \<open>Agreement\<close>

lemma logical_loop_agrees:
  assumes "\<forall>r \<in> set rs. instance_ok url (pr_instance r)" "instance_ok url i"
  shows "logical_loop url rs (Some i) (Some (payload_text i)) =
    (if \<forall>r \<in> set rs. pr_instance r = i then Inr (Some i)
     else Inl (RegistryProtocolError ''mDNS identity-content collision''))"
  using assms
proof (induction rs)
  case (Cons r rs)
  have "payload_text i = payload_text (pr_instance r) \<longleftrightarrow> pr_instance r = i"
    using payload_inj [of i "pr_instance r" url] Cons.prems by auto
  then show ?case using Cons by (auto simp: ok_payload js_res)
qed simp

definition agrees :: "url \<Rightarrow> publishers \<Rightarrow> service_instance \<Rightarrow> bool" where
  "agrees url m i \<longleftrightarrow> m \<noteq> [] \<and> distinct (map fst m) \<and> instance_ok url i \<and> (\<forall>r \<in> snd ` set m. pr_instance r = i)"

lemma logical_all:
  assumes "m \<noteq> []" "\<forall>r \<in> snd ` set m. instance_ok url (pr_instance r)"
  shows "logical url (Some m) = (if \<forall>r \<in> snd ` set m. pr_instance r = pr_instance (snd (hd m))
    then Inr (Some (pr_instance (snd (hd m)))) else Inl (RegistryProtocolError ''mDNS identity-content collision''))"
proof -
  obtain x xs where m: "m = x # xs" using assms(1) by (cases m) auto
  have "\<forall>r \<in> set (map snd xs). instance_ok url (pr_instance r)" "instance_ok url (pr_instance (snd x))"
    using assms(2) m by auto
  then show ?thesis using logical_loop_agrees [of "map snd xs" url "pr_instance (snd x)"]
    by (auto simp: logical_def m ok_payload js_res)
qed

lemma logical_agrees: "agrees url m i \<Longrightarrow> logical url (Some m) = Inr (Some i)"
  using logical_all [of m url] by (cases m) (auto simp: agrees_def)

definition cache_ok :: "url \<Rightarrow> mdns_cache \<Rightarrow> bool" where
  "cache_ok url c \<longleftrightarrow> distinct (map fst c) \<and>
     (\<forall>(identity, m) \<in> set c. \<exists>i. agrees url m i \<and> instance_identity i = identity)"

lemma update_same: "map_get m k = Some v \<Longrightarrow> map_set k v m = m"
  by (induction m) auto

lemma update_twice: "map_set k v (map_set k w m) = map_set k v m"
  by (induction m) auto

lemma delete_new: "k \<notin> fst ` set m \<Longrightarrow> map_delete k (map_set k v m) = m"
  by (induction m) (auto simp: AList.delete_eq)

lemma agrees_get:
  "agrees url m i \<longleftrightarrow> m \<noteq> [] \<and> distinct (map fst m) \<and> instance_ok url i \<and>
     (\<forall>p r. map_get m p = Some r \<longrightarrow> pr_instance r = i)"
  by (auto simp: agrees_def map_of_eq_Some_iff) (metis map_of_eq_Some_iff snd_conv)+

lemma cache_ok_get:
  "cache_ok url c \<longleftrightarrow> distinct (map fst c) \<and>
     (\<forall>identity m. map_get c identity = Some m \<longrightarrow> (\<exists>i. agrees url m i \<and> instance_identity i = identity))"
  unfolding cache_ok_def by (auto simp: map_of_eq_Some_iff)

lemma cache_okD:
  assumes "cache_ok url c" "map_get c identity = Some m"
  obtains i where "agrees url m i" "instance_identity i = identity"
  using assms unfolding cache_ok_get by blast

lemma agreesD:
  assumes "agrees url m i"
  shows "m \<noteq> []" "distinct (map fst m)" "instance_ok url i" "map_get m p = Some r \<Longrightarrow> pr_instance r = i"
  using assms unfolding agrees_get by blast+

lemma cache_ok_set:
  assumes "cache_ok url c" "agrees url m i" "instance_identity i = identity"
  shows "cache_ok url (map_set identity m c)"
  using assms by (auto simp: cache_ok_get distinct_update)

definition announced :: "mdns_cache \<Rightarrow> jsstr \<Rightarrow> jsstr \<Rightarrow> publisher_record option" where
  "announced c identity p = Option.bind (map_get c identity) (\<lambda>m. map_get m p)"

lemma announced_set:
  "announced (map_set identity m c) = (announced c)(identity := map_get m)"
  by (auto simp: announced_def fun_eq_iff)

text \<open>Whether an instance is the one that its identity stands for.\<close>

definition live :: "mdns_cache \<Rightarrow> service_instance \<Rightarrow> bool" where
  "live c i \<longleftrightarrow> (\<exists>p r. announced c (instance_identity i) p = Some r \<and> pr_instance r = i)"

lemma logical_live:
  assumes "cache_ok url c"
  shows "\<exists>x. logical url (map_get c (instance_identity i)) = Inr x \<and> (x = Some i \<longleftrightarrow> live c i) \<and>
    (\<forall>j. x = Some j \<longrightarrow> instance_ok url j)"
proof (cases "map_get c (instance_identity i)")
  case None
  then show ?thesis by (auto simp: logical_def live_def announced_def)
next
  case (Some m)
  then obtain j where j: "agrees url m j" using cache_okD [OF assms] by blast
  obtain p r xs where "m = (p, r) # xs" using agreesD(1) [OF j] by (cases m) auto
  then have "map_get m p = Some r" by simp
  have "live c i \<longleftrightarrow> (\<exists>p r. map_get m p = Some r \<and> pr_instance r = i)"
    using Some by (simp add: live_def announced_def)
  also have "\<dots> \<longleftrightarrow> j = i" using \<open>map_get m p = Some r\<close> agreesD(4) [OF j] by blast
  finally have "live c i \<longleftrightarrow> j = i" .
  then show ?thesis using Some logical_agrees [OF j] j by (auto simp: agrees_def)
qed

section \<open>Observations\<close>

definition conflict :: "mdns_cache \<Rightarrow> jsstr \<Rightarrow> service_instance \<Rightarrow> bool" where
  "conflict c publisher inst \<longleftrightarrow>
     (\<exists>p r. p \<noteq> publisher \<and> announced c (instance_identity inst) p = Some r \<and> pr_instance r \<noteq> inst)"

lemma record_outcome:
  assumes "cache_ok url c" "instance_ok url inst" "logical url (map_get c (instance_identity inst)) = Inr before"
  shows "if conflict c publisher inst
    then observe_record url publisher inst (instance_identity inst) ttl now before c =
      (c, Inl (RegistryProtocolError ''mDNS identity-content collision''))
    else \<exists>c'. observe_record url publisher inst (instance_identity inst) ttl now before c =
        (c', Inr (if live c inst then [] else [si_name inst])) \<and> cache_ok url c' \<and>
      announced c' = (announced c)(instance_identity inst := (announced c (instance_identity inst))
        (publisher \<mapsto> \<lparr>pr_instance = inst, pr_expiresAt = now + of_nat ttl * 1000\<rparr>))"
proof -
  let ?k = "instance_identity inst"
  let ?rec = "\<lparr>pr_instance = inst, pr_expiresAt = now + of_nat ttl * 1000\<rparr>"
  define m where "m = (case map_get c ?k of None \<Rightarrow> [] | Some m \<Rightarrow> m)"
  define stored where "stored = map_set publisher ?rec m"
  have get: "announced c ?k = map_get m" by (auto simp: announced_def m_def fun_eq_iff split: option.split)
  have d: "distinct (map fst m)" and okm: "\<forall>p r. map_get m p = Some r \<longrightarrow> instance_ok url (pr_instance r)"
  proof -
    have "distinct (map fst m) \<and> (\<forall>p r. map_get m p = Some r \<longrightarrow> instance_ok url (pr_instance r))"
    proof (cases "map_get c ?k")
      case (Some x)
      then obtain j where j: "agrees url m j" using cache_okD [OF assms(1)] by (metis m_def option.simps(5))
      then show ?thesis using agreesD [OF j] by blast
    qed (simp add: m_def)
    then show "distinct (map fst m)" "\<forall>p r. map_get m p = Some r \<longrightarrow> instance_ok url (pr_instance r)" by blast+
  qed
  have stored: "stored \<noteq> []" "distinct (map fst stored)" "map_get stored = (map_get m)(publisher \<mapsto> ?rec)"
    using d by (auto simp: stored_def distinct_update update_nonempty)
  have vals: "snd ` set stored = {r. \<exists>p. map_get stored p = Some r}"
    using stored(2) by (force simp: map_of_eq_Some_iff)
  have oks: "\<forall>r \<in> snd ` set stored. instance_ok url (pr_instance r)"
    using okm assms(2) unfolding vals stored(3) by (auto split: if_splits)
  have rec: "?rec \<in> snd ` set stored" unfolding vals stored(3) by auto
  have hd: "snd (hd stored) \<in> snd ` set stored" using stored(1) by simp
  have same: "(\<forall>r \<in> snd ` set stored. pr_instance r = pr_instance (snd (hd stored))) \<longleftrightarrow>
      (\<forall>r \<in> snd ` set stored. pr_instance r = inst)"
    using rec hd by (metis publisher_record.select_convs(1))
  have agree: "(\<forall>r \<in> snd ` set stored. pr_instance r = inst) \<longleftrightarrow> \<not> conflict c publisher inst"
  proof -
    have "(\<forall>r \<in> snd ` set stored. pr_instance r = inst) \<longleftrightarrow> (\<forall>p r. map_get stored p = Some r \<longrightarrow> pr_instance r = inst)"
      unfolding vals by blast
    also have "\<dots> \<longleftrightarrow> (\<forall>p r. p \<noteq> publisher \<and> map_get m p = Some r \<longrightarrow> pr_instance r = inst)"
      unfolding stored(3) by auto
    finally show ?thesis by (simp add: conflict_def get) blast
  qed
  have before: "before = Some inst \<longleftrightarrow> live c inst" "\<And>j. before = Some j \<Longrightarrow> instance_ok url j"
    using logical_live [OF assms(1), of inst] assms(3) by auto
  show ?thesis
  proof (cases "conflict c publisher inst")
    case True
    then obtain p r where p: "p \<noteq> publisher" "map_get m p = Some r" by (auto simp: conflict_def get)
    then have c: "map_get c ?k = Some m" "m \<noteq> []" by (auto simp: m_def split: option.splits)
    have restored: "(case map_get m publisher of None \<Rightarrow> map_delete publisher stored | Some q \<Rightarrow> map_set publisher q stored) = m"
      by (auto simp: stored_def update_twice update_same delete_new map_of_eq_None_iff split: option.split)
    have "logical url (Some stored) = Inl (RegistryProtocolError ''mDNS identity-content collision'')"
      using logical_all [OF stored(1) oks] same agree True by simp
    then show ?thesis
      using True c restored [unfolded stored_def]
      by (simp add: observe_record_def js_res update_twice update_same stored_def [symmetric] Let_def)
  next
    case False
    then have "logical url (Some stored) = Inr (Some inst)"
      using logical_all [OF stored(1) oks] same agree hd by auto
    moreover have "changed url before (Some inst) = Inr (before \<noteq> Some inst)"
      using before(2) assms(2) by (intro ok_changed) auto
    ultimately have "observe_record url publisher inst ?k ttl now before c =
        (map_set ?k stored c, Inr (if live c inst then [] else [si_name inst]))"
      using before(1) by (simp add: observe_record_def js_res m_def [symmetric] stored_def [symmetric] Let_def)
    moreover have "agrees url stored inst" using stored(1,2) assms(2) agree False by (simp add: agrees_def)
    moreover have "announced (map_set ?k stored c) = (announced c)(?k := (announced c ?k)(publisher \<mapsto> ?rec))"
      unfolding announced_set get stored(3) ..
    ultimately show ?thesis using False cache_ok_set [OF assms(1), of stored inst ?k] by simp
  qed
qed

text \<open>A goodbye.\<close>

lemma announced_at: "map_get c k = Some m \<Longrightarrow> announced c k = map_get m"
  by (auto simp: announced_def fun_eq_iff)

lemma upd2_idem: "f k p = v \<Longrightarrow> f(k := (f k)(p := v)) = f"
  by (auto simp: fun_eq_iff)

lemma goodbye_outcome:
  assumes "cache_ok url c" "instance_ok url inst"
  shows "\<exists>c'. observe_goodbye url publisher inst (instance_identity inst) now c = (c', Inr []) \<and> cache_ok url c' \<and>
    announced c' = (announced c)(instance_identity inst := (announced c (instance_identity inst))
      (publisher := map_option (\<lambda>r. if pr_instance r = inst
         then r\<lparr>pr_expiresAt := min (pr_expiresAt r) (now + 1000)\<rparr> else r) (announced c (instance_identity inst) publisher)))"
proof (cases "announced c (instance_identity inst) publisher")
  case None
  then have "observe_goodbye url publisher inst (instance_identity inst) now c = (c, Inr [])"
    by (simp add: observe_goodbye_def announced_def)
  then show ?thesis using assms(1) None by (simp add: upd2_idem)
next
  case (Some q)
  then obtain m where m: "map_get c (instance_identity inst) = Some m" "map_get m publisher = Some q"
    by (auto simp: announced_def bind_eq_Some_conv)
  obtain j where j: "agrees url m j" "instance_identity j = instance_identity inst" using cache_okD [OF assms(1) m(1)] by blast
  have q: "pr_instance q = j" "instance_ok url j" using agreesD [OF j(1)] m(2) by blast+
  have eq: "payload_text j = payload_text inst \<longleftrightarrow> j = inst" using payload_inj [OF _ q(2) assms(2)] by blast
  show ?thesis
  proof (cases "j = inst")
    case True
    let ?q = "q\<lparr>pr_expiresAt := min (pr_expiresAt q) (now + 1000)\<rparr>"
    let ?m = "map_set publisher ?q m"
    have "agrees url ?m j" using agreesD [OF j(1)] q(1)
      by (auto simp: agrees_get distinct_update update_nonempty)
    then have "cache_ok url (map_set (instance_identity inst) ?m c)" using cache_ok_set [OF assms(1)] j(2) by blast
    moreover have "observe_goodbye url publisher inst (instance_identity inst) now c =
        (map_set (instance_identity inst) ?m c, Inr [])"
      using m q True assms(2) by (simp add: observe_goodbye_def ok_payload js_res)
    moreover have "announced (map_set (instance_identity inst) ?m c) =
        (announced c)(instance_identity inst := (announced c (instance_identity inst))(publisher \<mapsto> ?q))"
      unfolding announced_set announced_at [OF m(1)] by (simp add: update_conv')
    ultimately show ?thesis using True q(1) unfolding Some by simp
  next
    case False
    then have "observe_goodbye url publisher inst (instance_identity inst) now c = (c, Inr [])"
      using m q assms(2) eq by (simp add: observe_goodbye_def ok_payload js_res)
    then show ?thesis using assms(1) Some False q(1) by (simp add: upd2_idem)
  qed
qed

lemma observe_cases:
  fixes c :: mdns_cache
  assumes "url_canonical url" "cache_ok url c"
  obtains e where "observe url publisher v ttlSeconds nowMs c = (c, Inl e)"
  | now inst before where "length publisher \<noteq> 0" "isInteger ttlSeconds" "\<not> num_less ttlSeconds (Fin 0)"
      "\<not> num_less (Fin 4294967) ttlSeconds"
      "cacheTime nowMs = Inr now" "snapshotServiceInstance url v = Inr inst" "instance_ok url inst"
      "logical url (map_get c (instance_identity inst)) = Inr before"
      "observe url publisher v ttlSeconds nowMs c =
        (if int_of ttlSeconds = 0 then observe_goodbye url publisher inst (instance_identity inst) now c
         else observe_record url publisher inst (instance_identity inst) (nat (int_of ttlSeconds)) now before c)"
proof (cases "length publisher \<noteq> 0 \<and> isInteger ttlSeconds \<and> \<not> num_less ttlSeconds (Fin 0) \<and> \<not> num_less (Fin 4294967) ttlSeconds")
  case True
  show ?thesis
  proof (cases "bindE (cacheTime nowMs) (\<lambda>now. bindE (snapshotServiceInstance url v) (\<lambda>inst. Inr (now, inst)))")
    case (Inl e)
    then have "observe url publisher v ttlSeconds nowMs c = (c, Inl e)"
      using True by (auto simp: observe_def js_res)
    then show ?thesis by (rule that(1))
  next
    case (Inr x)
    then obtain now inst where i: "cacheTime nowMs = Inr now" "snapshotServiceInstance url v = Inr inst"
      by (auto simp: js_res)
    have ok: "instance_ok url inst" using snapshot_instance_ok [OF assms(1) i(2)] .
    obtain before where b: "logical url (map_get c (instance_identity inst)) = Inr before"
      using logical_live [OF assms(2)] by blast
    have "observe url publisher v ttlSeconds nowMs c =
        (if int_of ttlSeconds = 0 then observe_goodbye url publisher inst (instance_identity inst) now c
         else observe_record url publisher inst (instance_identity inst) (nat (int_of ttlSeconds)) now before c)"
      using True i b ok_preimage [OF ok] by (simp add: observe_def)
    with True i ok b that(2) show ?thesis by blast
  qed
next
  case False
  then have "\<exists>e. observe url publisher v ttlSeconds nowMs c = (c, Inl e)"
    by (cases "length publisher \<noteq> 0") (auto simp: observe_def)
  then show ?thesis using that(1) by blast
qed

lemma observe_ok:
  assumes "url_canonical url" "cache_ok url c"
  shows "cache_ok url (fst (observe url publisher v ttlSeconds nowMs c))"
proof -
  from assms show ?thesis
  proof (cases rule: observe_cases [where v = v and publisher = publisher and ttlSeconds = ttlSeconds and nowMs = nowMs])
    case 1
    then show ?thesis using assms(2) by simp
  next
    case (2 now inst before)
    show ?thesis
    proof (cases "int_of ttlSeconds = 0")
      case True
      then show ?thesis using 2 goodbye_outcome [OF assms(2) 2(7), of publisher now] by auto
    next
      case False
      then show ?thesis
        using 2 record_outcome [OF assms(2) 2(7,8), of publisher "nat (int_of ttlSeconds)" now] assms(2)
        by (auto split: if_splits)
    qed
  qed
qed

section \<open>Expiry\<close>

abbreviation kept :: "rat \<Rightarrow> publishers \<Rightarrow> publishers" where
  "kept now m \<equiv> filter (\<lambda>(p, r). \<not> pr_expiresAt r \<le> now) m"

lemma map_set_at: "k \<notin> fst ` set pre \<Longrightarrow> map_set k v (pre @ (k, m) # rest) = pre @ (k, v) # rest"
  by (induction pre) auto

lemma map_delete_at: "k \<notin> fst ` set pre \<Longrightarrow> k \<notin> fst ` set rest \<Longrightarrow> map_delete k (pre @ (k, m) # rest) = pre @ rest"
proof (induction pre)
  case Nil
  have "map_delete k xs = xs" if "k \<notin> fst ` set xs" for xs :: "('a \<times> 'b) list"
    using that by (induction xs) auto
  then show ?case using Nil by simp
qed auto

lemma kept_agrees: "agrees url m i \<Longrightarrow> kept now m \<noteq> [] \<Longrightarrow> agrees url (kept now m) i"
  by (auto simp: agrees_def intro: distinct_map_filter)

definition survivors :: "rat \<Rightarrow> mdns_cache \<Rightarrow> mdns_cache" where
  "survivors now c = filter (\<lambda>(k, m). m \<noteq> []) (map (\<lambda>(k, m). (k, kept now m)) c)"

definition vanished :: "rat \<Rightarrow> mdns_cache \<Rightarrow> jsstr list" where
  "vanished now c = map (\<lambda>(k, m). si_name (pr_instance (snd (hd m)))) (filter (\<lambda>(k, m). kept now m = []) c)"

lemma expire_loop_eq:
  assumes "distinct (map fst (pre @ es))" "\<forall>(k, m) \<in> set es. \<exists>i. agrees url m i"
  shows "expire_loop url now es (pre @ es) names =
    (pre @ survivors now es, Inr (foldl (\<lambda>a b. set_add b a) names (vanished now es)))"
  using assms
proof (induction es arbitrary: pre names)
  case (Cons e es)
  obtain k m where e: "e = (k, m)" by force
  obtain i where i: "agrees url m i" using Cons.prems(2) e by auto
  have k: "k \<notin> fst ` set pre" "k \<notin> fst ` set es" using Cons.prems(1) e by auto
  have rest: "\<forall>(k, m) \<in> set es. \<exists>i. agrees url m i" using Cons.prems(2) by simp
  have hd: "pr_instance (snd (hd m)) = i" using i by (cases m) (auto simp: agrees_def)
  have log: "logical url (Some m) = Inr (Some i)" by (rule logical_agrees [OF i])
  have ok: "instance_ok url i" using agreesD(3) [OF i] .
  show ?case
  proof (cases "kept now m = []")
    case True
    have "changed url (Some i) None = Inr True" by (simp add: changed_def)
    then have "expire_loop url now (e # es) (pre @ e # es) names = expire_loop url now es (pre @ es) (set_add (si_name i) names)"
      using True log k by (simp add: e map_delete_at logical_def [of url "Some []"])
    then show ?thesis using Cons.IH [of pre] Cons.prems(1) rest True hd by (simp add: e survivors_def vanished_def)
  next
    case False
    have "logical url (Some (kept now m)) = Inr (Some i)" using logical_agrees [OF kept_agrees [OF i False]] .
    moreover have "changed url (Some i) (Some i) = Inr False" using ok_changed [of "Some i" url "Some i"] ok by simp
    ultimately have "expire_loop url now (e # es) (pre @ e # es) names =
        expire_loop url now es ((pre @ [(k, kept now m)]) @ es) names"
      using False log k by (simp add: e map_set_at Let_def)
    also have "\<dots> = ((pre @ [(k, kept now m)]) @ survivors now es, Inr (foldl (\<lambda>a b. set_add b a) names (vanished now es)))"
      by (rule Cons.IH) (use Cons.prems(1) e rest in auto)
    finally show ?thesis using False by (simp add: e survivors_def vanished_def)
  qed
qed (simp add: survivors_def vanished_def)

lemma get_map_kept:
  assumes "distinct (map fst c)"
  shows "map_get (filter (\<lambda>(k, m). m \<noteq> []) (map (\<lambda>(k, m). (k, f m)) c)) k =
    (case map_get c k of None \<Rightarrow> None | Some m \<Rightarrow> if f m = [] then None else Some (f m))"
  using assms
proof (induction c)
  case (Cons e c)
  have "map_get (filter (\<lambda>(k, m). m \<noteq> []) (map (\<lambda>(k, m). (k, f m)) c)) (fst e) = None"
    unfolding map_of_eq_None_iff using Cons.prems by (auto simp: image_iff)
  then show ?case using Cons by (cases "k = fst e") (auto split: prod.split)
qed simp

lemma get_filter:
  assumes "distinct (map fst m)"
  shows "map_get (filter (\<lambda>(p, r). P r) m) p =
    (case map_get m p of None \<Rightarrow> None | Some r \<Rightarrow> if P r then Some r else None)"
  using assms
proof (induction m)
  case (Cons e m)
  have "map_get (filter (\<lambda>(p, r). P r) m) (fst e) = None"
    unfolding map_of_eq_None_iff using Cons.prems by (auto simp: image_iff)
  then show ?case using Cons by (cases "p = fst e") (auto split: prod.split)
qed simp

lemma announced_survivors:
  assumes "cache_ok url c"
  shows "announced (survivors now c) k p = (case announced c k p of None \<Rightarrow> None
    | Some r \<Rightarrow> if pr_expiresAt r \<le> now then None else Some r)"
proof (cases "map_get c k")
  case None
  then show ?thesis using assms by (simp add: announced_def survivors_def get_map_kept cache_ok_def)
next
  case (Some m)
  then obtain i where "agrees url m i" using cache_okD [OF assms] by blast
  then have m: "map_get (kept now m) p = (case map_get m p of None \<Rightarrow> None
      | Some r \<Rightarrow> if pr_expiresAt r \<le> now then None else Some r)"
    using get_filter [of m "\<lambda>r. \<not> pr_expiresAt r \<le> now" p] agreesD(2) by (simp split: option.split)
  have "announced (survivors now c) k p = map_get (kept now m) p"
    using assms Some by (simp add: announced_def survivors_def get_map_kept cache_ok_def)
  then show ?thesis using m Some by (simp add: announced_def)
qed

lemma survivors_ok:
  assumes "cache_ok url c"
  shows "cache_ok url (survivors now c)"
  unfolding cache_ok_def
proof (intro conjI ballI)
  have "map fst (survivors now c) = map fst (filter (\<lambda>(k, m). kept now m \<noteq> []) c)"
    unfolding survivors_def by (induction c) auto
  then show "distinct (map fst (survivors now c))" using assms by (simp add: cache_ok_def distinct_map_filter)
  fix e assume "e \<in> set (survivors now c)"
  then obtain k m where m: "(k, m) \<in> set c" "e = (k, kept now m)" "kept now m \<noteq> []" by (auto simp: survivors_def)
  then obtain i where i: "agrees url m i" "instance_identity i = k" using assms by (auto simp: cache_ok_def)
  have "agrees url (kept now m) i" by (rule kept_agrees [OF i(1) m(3)])
  then show "case e of (identity, m) \<Rightarrow> \<exists>i. agrees url m i \<and> instance_identity i = identity"
    using i(2) m(2) by auto
qed

lemma expire_survivors:
  assumes "cache_ok url c" "cacheTime nowMs = Inr now"
  shows "expire url nowMs c = (survivors now c,
    Inr (sort_with compareUnits (foldl (\<lambda>a b. set_add b a) [] (vanished now c))))"
  using expire_loop_eq [of "[]" c url now "[]"] assms by (force simp: expire_def cache_ok_def)

lemma compareUnits_le: "compareUnits s t \<le> 0 \<longleftrightarrow> s \<le> t"
  by (induction s t rule: compareUnits.induct) (auto simp: Cons_le_Cons)

section \<open>Reachable caches\<close>

inductive mdns_reachable :: "url \<Rightarrow> mdns_cache \<Rightarrow> bool" for url where
  reach_new_cache: "mdns_reachable url []"
| reach_observe: "mdns_reachable url c \<Longrightarrow> mdns_reachable url (fst (observe url publisher v ttlSeconds nowMs c))"
| reach_expire: "mdns_reachable url c \<Longrightarrow> mdns_reachable url (fst (expire url nowMs c))"
| reach_close_cache: "mdns_reachable url c \<Longrightarrow> mdns_reachable url (close c)"

lemma mdns_reachable_ok: "mdns_reachable url c \<Longrightarrow> url_canonical url \<Longrightarrow> cache_ok url c"
proof (induction rule: mdns_reachable.induct)
  case (reach_observe c publisher v ttlSeconds nowMs)
  then show ?case by (simp add: observe_ok)
next
  case (reach_expire c nowMs)
  then have c: "cache_ok url c" by blast
  show ?case
  proof (cases "cacheTime nowMs")
    case (Inl e)
    then show ?thesis using c by (simp add: expire_def)
  next
    case (Inr now)
    then show ?thesis using expire_survivors [OF c Inr] survivors_ok [OF c] by simp
  qed
qed (simp_all add: cache_ok_def close_def)

lemma live_entry:
  assumes "cache_ok url c"
  shows "live c i \<longleftrightarrow> (\<exists>m. (instance_identity i, m) \<in> set c \<and> agrees url m i)"
proof
  assume "live c i"
  then obtain p r m where m: "map_get c (instance_identity i) = Some m" "map_get m p = Some r" "pr_instance r = i"
    by (auto simp: live_def announced_def bind_eq_Some_conv)
  obtain j where j: "agrees url m j" using cache_okD [OF assms m(1)] by blast
  then have "j = i" using agreesD(4) [OF j m(2)] m(3) by simp
  then show "\<exists>m. (instance_identity i, m) \<in> set c \<and> agrees url m i" using j map_of_SomeD [OF m(1)] by blast
next
  assume "\<exists>m. (instance_identity i, m) \<in> set c \<and> agrees url m i"
  then obtain m where m: "(instance_identity i, m) \<in> set c" "agrees url m i" by blast
  obtain p r xs where x: "m = (p, r) # xs" using agreesD(1) [OF m(2)] by (cases m) auto
  have "map_get c (instance_identity i) = Some m" using assms m(1) by (simp add: cache_ok_def)
  moreover have "pr_instance r = i" using m(2) x by (simp add: agrees_def)
  ultimately show "live c i" unfolding live_def announced_def using x by (intro exI [of _ p] exI [of _ r]) simp
qed

lemma hd_agrees: "agrees url m i \<Longrightarrow> pr_instance (snd (hd m)) = i"
  by (cases m) (auto simp: agrees_def)

lemma vanished_names:
  assumes "cache_ok url c"
  shows "set (vanished now c) = si_name ` {i. live c i \<and> \<not> live (survivors now c) i}"
proof -
  have one: "m = m'" if "(k, m) \<in> set c" "(k, m') \<in> set c" for k m m'
    using that assms eq_key_imp_eq_value [of c] by (auto simp: cache_ok_def)
  have gone: "kept now m = [] \<longleftrightarrow> \<not> live (survivors now c) i"
    if "(instance_identity i, m) \<in> set c" "agrees url m i" for m i
  proof -
    have "live (survivors now c) i \<longleftrightarrow> (\<exists>m'. (instance_identity i, m') \<in> set c \<and> kept now m' \<noteq> [] \<and> agrees url (kept now m') i)"
      unfolding live_entry [OF survivors_ok [OF assms]] by (auto simp: survivors_def)
    then show ?thesis using that one kept_agrees [OF that(2)] by blast
  qed
  have ent: "\<exists>i. k = instance_identity i \<and> agrees url m i" if "(k, m) \<in> set c" for k m
    using assms that by (auto simp: cache_ok_def)
  show ?thesis
  proof (rule set_eqI, rule iffI)
    fix n assume "n \<in> set (vanished now c)"
    then obtain k m where m: "(k, m) \<in> set c" "kept now m = []" "n = si_name (pr_instance (snd (hd m)))"
      by (auto simp: vanished_def)
    obtain i where i: "k = instance_identity i" "agrees url m i" using ent [OF m(1)] by blast
    then have "live c i" "\<not> live (survivors now c) i" using m gone live_entry [OF assms] by blast+
    then show "n \<in> si_name ` {i. live c i \<and> \<not> live (survivors now c) i}" using m(3) hd_agrees [OF i(2)] by blast
  next
    fix n assume "n \<in> si_name ` {i. live c i \<and> \<not> live (survivors now c) i}"
    then obtain i m where i: "n = si_name i" "(instance_identity i, m) \<in> set c" "agrees url m i" "\<not> live (survivors now c) i"
      using live_entry [OF assms] by blast
    then have "(instance_identity i, m) \<in> set (filter (\<lambda>(k, m). kept now m = []) c)" using gone by simp
    then show "n \<in> set (vanished now c)" unfolding vanished_def using i(1) hd_agrees [OF i(3)] by force
  qed
qed

text \<open>For the witnesses: an instance that is its own snapshot, and the cache that its first announcement gives.\<close>

lemma sample_ok: "instance_ok sample_url (sample_instance 98 [])"
proof -
  have "\<not> is_high 98 \<and> \<not> is_low 98" "\<not> is_high 110 \<and> \<not> is_low 110" by (simp_all add: is_high_def is_low_def)
  then show ?thesis by (simp add: instance_ok_def sample_instance_def text_ok_def fromEntries_def)
qed

lemma sample_own_snapshot: "snapshotServiceInstance sample_url (sample_instance 98 []) = Inr (sample_instance 98 [])"
  by (rule instance_ok_snapshot [OF sample_ok])

definition sample_cache :: mdns_cache where
  "sample_cache = [(instance_identity (sample_instance 98 []),
     [([112], \<lparr>pr_instance = sample_instance 98 [], pr_expiresAt = 2000\<rparr>)])]"

lemma sample_observed:
  "observe sample_url [112] (sample_instance 98 []) (Fin 2) (Fin 0) [] = (sample_cache, Inr [[110]])"
proof -
  have "isInteger (Fin 2)" "int_of (Fin 2) = 2" by (simp_all add: int_of_def)
  moreover have "logical sample_url None = Inr None" by (simp add: logical_def)
  moreover have "logical sample_url (Some [([112], \<lparr>pr_instance = sample_instance 98 [], pr_expiresAt = 2000\<rparr>)]) =
      Inr (Some (sample_instance 98 []))"
    by (rule logical_agrees) (simp add: agrees_def sample_ok)
  moreover have "changed sample_url None (Some (sample_instance 98 [])) = Inr True" by (simp add: changed_def)
  ultimately show ?thesis
    by (simp add: observe_def observe_record_def cacheTime_def sample_own_snapshot ok_preimage [OF sample_ok] sample_cache_def)
      (simp add: sample_instance_def)
qed

lemma sample_reachable: "mdns_reachable sample_url sample_cache"
  using reach_observe [OF reach_new_cache, of sample_url "[112]" "sample_instance 98 []" "Fin 2" "Fin 0"] sample_observed
  by simp

lemma sample_announced: "live sample_cache (sample_instance 98 [])"
  by (simp add: live_def announced_def sample_cache_def)

text \<open>C12: what an accepted announcement does to any reachable cache. With a positive lifetime it is refused, and the
  cache stays as it was, exactly when another publisher holds a different content for the same name and id; else the
  record of the publisher is replaced, no other record changes, and the name is reported as changed exactly when the
  instance was not already the one that the identity stands for. With a lifetime of zero, the record of the publisher
  is kept for at most one more second if its content is the announced one, and nothing else changes.\<close>

theorem mdns_observes:
  assumes "url_canonical url" "mdns_reachable url c" "snapshotServiceInstance url v = Inr inst"
    "publisher \<noteq> []" "ttl \<le> 4294967" "0 \<le> now"
  shows "if ttl = 0 then
      \<exists>c'. observe url publisher v (Fin (of_nat ttl)) (Fin now) c = (c', Inr []) \<and>
        announced c' = (announced c)(instance_identity inst := (announced c (instance_identity inst))
          (publisher := map_option (\<lambda>r. if pr_instance r = inst
             then r\<lparr>pr_expiresAt := min (pr_expiresAt r) (now + 1000)\<rparr> else r) (announced c (instance_identity inst) publisher)))
    else if conflict c publisher inst then
      observe url publisher v (Fin (of_nat ttl)) (Fin now) c = (c, Inl (RegistryProtocolError ''mDNS identity-content collision''))
    else \<exists>c'. observe url publisher v (Fin (of_nat ttl)) (Fin now) c =
          (c', Inr (if live c inst then [] else [si_name inst])) \<and> live c' inst \<and>
        announced c' = (announced c)(instance_identity inst := (announced c (instance_identity inst))
          (publisher \<mapsto> \<lparr>pr_instance = inst, pr_expiresAt = now + of_nat ttl * 1000\<rparr>))"
proof -
  have c: "cache_ok url c" by (rule mdns_reachable_ok [OF assms(2,1)])
  have ok: "instance_ok url inst" by (rule snapshot_instance_ok [OF assms(1,3)])
  have i: "int_of (Fin (of_nat ttl)) = int ttl" by (simp add: int_of_def)
  have t: "\<not> (4294967 :: rat) < of_nat ttl" "isInteger (Fin (of_nat ttl))"
    using assms(5) of_nat_le_iff [where 'a = rat, of ttl 4294967] by simp_all
  obtain before where b: "logical url (map_get c (instance_identity inst)) = Inr before"
    using logical_live [OF c] by blast
  have o: "observe url publisher v (Fin (of_nat ttl)) (Fin now) c =
      (if ttl = 0 then observe_goodbye url publisher inst (instance_identity inst) now c
       else observe_record url publisher inst (instance_identity inst) ttl now before c)"
    using assms(3,4,6) b i ok_preimage [OF ok] t by (simp add: observe_def cacheTime_def)
  have new: "live c' inst" if "announced c' = (announced c)(instance_identity inst := (announced c (instance_identity inst))
      (publisher \<mapsto> \<lparr>pr_instance = inst, pr_expiresAt = now + of_nat ttl * 1000\<rparr>))" for c'
    unfolding live_def that by (intro exI [of _ publisher]) simp
  consider "ttl = 0" | "ttl \<noteq> 0" "conflict c publisher inst" | "ttl \<noteq> 0" "\<not> conflict c publisher inst" by blast
  then show ?thesis
  proof cases
    case 1
    show ?thesis unfolding o if_P [OF 1] using goodbye_outcome [OF c ok, of publisher now] by blast
  next
    case 2
    then show ?thesis unfolding o using record_outcome [OF c ok b, of publisher ttl now] by simp
  next
    case 3
    obtain c' where c': "observe_record url publisher inst (instance_identity inst) ttl now before c =
        (c', Inr (if live c inst then [] else [si_name inst]))"
      "announced c' = (announced c)(instance_identity inst := (announced c (instance_identity inst))
        (publisher \<mapsto> \<lparr>pr_instance = inst, pr_expiresAt = now + of_nat ttl * 1000\<rparr>))"
      using record_outcome [OF c ok b, of publisher ttl now, unfolded if_not_P [OF 3(2)]] by blast
    show ?thesis unfolding o if_not_P [OF 3(1)] if_not_P [OF 3(2)] using c' new [OF c'(2)] by blast
  qed
qed

theorem mdns_observes_witness:
  "\<exists>c'. observe sample_url [113] (sample_instance 98 []) (Fin 3) (Fin 500) sample_cache = (c', Inr []) \<and>
    announced c' (instance_identity (sample_instance 98 [])) [113] =
      Some \<lparr>pr_instance = sample_instance 98 [], pr_expiresAt = 3500\<rparr>"
proof -
  have "\<not> conflict sample_cache [113] (sample_instance 98 [])"
    by (simp add: conflict_def announced_def sample_cache_def)
  then show ?thesis
    using mdns_observes [OF sample_canonical sample_reachable sample_own_snapshot, of "[113]" 3 500]
    by (auto simp: sample_announced)
qed

text \<open>C13: at any time, the expiry pass over any reachable cache never fails, removes exactly the records whose time
  has come, and reports, sorted and without repetition, exactly the names of the instances that no publisher holds any
  more.\<close>

theorem mdns_expires:
  assumes "url_canonical url" "mdns_reachable url c" "0 \<le> now"
  shows "\<exists>c' names. expire url (Fin now) c = (c', Inr names) \<and>
    (\<forall>k p. announced c' k p = (case announced c k p of None \<Rightarrow> None
       | Some r \<Rightarrow> if pr_expiresAt r \<le> now then None else Some r)) \<and>
    sorted names \<and> distinct names \<and> set names = si_name ` {i. live c i \<and> \<not> live c' i}"
proof -
  have c: "cache_ok url c" by (rule mdns_reachable_ok [OF assms(2,1)])
  have t: "cacheTime (Fin now) = Inr now" using assms(3) by (simp add: cacheTime_def)
  let ?names = "foldl (\<lambda>a b. set_add b a) [] (vanished now c)"
  have s: "sort_with compareUnits ?names = sort_key (\<lambda>s. s) ?names"
    by (rule sort_with_key) (simp add: compareUnits_le)
  have "expire url (Fin now) c = (survivors now c, Inr (sort_key (\<lambda>s. s) ?names))"
    unfolding expire_survivors [OF c t] s ..
  moreover have "sorted (sort_key (\<lambda>s. s) ?names)" by simp
  moreover have "distinct (sort_key (\<lambda>s. s) ?names)" by (simp add: foldl_set_add(2))
  moreover have "set (sort_key (\<lambda>s. s) ?names) = si_name ` {i. live c i \<and> \<not> live (survivors now c) i}"
    by (simp add: foldl_set_add(1) vanished_names [OF c])
  ultimately show ?thesis using announced_survivors [OF c] by blast
qed

theorem mdns_expires_witness:
  "\<exists>c' names. expire sample_url (Fin 2000) sample_cache = (c', Inr names) \<and>
    announced c' (instance_identity (sample_instance 98 [])) [112] = None \<and> [110] \<in> set names"
proof -
  obtain c' names where e: "expire sample_url (Fin 2000) sample_cache = (c', Inr names)"
    and a: "\<forall>k p. announced c' k p = (case announced sample_cache k p of None \<Rightarrow> None
       | Some r \<Rightarrow> if pr_expiresAt r \<le> 2000 then None else Some r)"
    and n: "set names = si_name ` {i. live sample_cache i \<and> \<not> live c' i}"
    using mdns_expires [OF sample_canonical sample_reachable, of 2000] by auto
  have none: "announced c' (instance_identity (sample_instance 98 [])) p = None" for p
    using a by (simp add: announced_def sample_cache_def split: option.split)
  then have "\<not> live c' (sample_instance 98 [])" by (simp add: live_def)
  then have "[110] \<in> set names" unfolding n using sample_announced by (force simp: sample_instance_def)
  then show ?thesis using e none by blast
qed

text \<open>C14: every reachable cache answers for a name with exactly the instances that some publisher holds under it,
  ordered, with one instance for each id, whatever the publishers announced and in whatever order.\<close>

theorem mdns_lists:
  assumes "url_canonical url" "mdns_reachable url c" "name \<noteq> []"
  shows "\<exists>ys. instances url name c = Inr ys \<and> set ys = {i. live c i \<and> si_name i = name} \<and>
    sorted (map instance_key ys) \<and> distinct (map si_id ys)"
proof -
  have c: "cache_ok url c" by (rule mdns_reachable_ok [OF assms(2,1)])
  let ?f = "\<lambda>e. pr_instance (snd (hd (snd e)))"
  have ent: "agrees url (snd e) (?f e) \<and> instance_identity (?f e) = fst e" if "e \<in> set c" for e
    using c that hd_agrees unfolding cache_ok_def by fastforce
  have "mapE (\<lambda>(identity, records). logical url (Some records)) c = Inr (map (\<lambda>e. Some (?f e)) c)"
    using ent logical_agrees by (intro mapE_all_Inr) (auto simp: case_prod_unfold)
  moreover have "List.map_filter (\<lambda>i. i) (map (\<lambda>e. Some (?f e)) xs) = map ?f xs" for xs :: mdns_cache
    by (induction xs) (simp_all add: List.map_filter_simps)
  moreover define zs where "zs = filter (\<lambda>i. si_name i = name) (map ?f c)"
  ultimately have i: "instances url name c = snapshotServiceInstances url (Unpublished zs)"
    using assms(3) by (simp add: instances_def)
  have d: "distinct (map instance_identity (map ?f c))"
  proof -
    have "map instance_identity (map ?f c) = map fst c" using ent by simp
    then show ?thesis using c by (simp only: cache_ok_def)
  qed
  have dz: "distinct (map instance_identity zs)" unfolding zs_def using d by (rule distinct_map_filter)
  have zs: "set zs = {i. live c i \<and> si_name i = name}"
    unfolding zs_def live_entry [OF c] using ent hd_agrees by (auto simp: image_iff) force
  have "\<forall>i \<in> set zs. instance_ok url i" using agreesD(3) ent unfolding zs_def by fastforce
  then have "instances url name c = Inr (sort_key instance_key zs)" using i snapshot_published dz by simp
  moreover have "distinct (map si_id (sort_key instance_key zs))"
    using dz zs by (auto simp: distinct_map inj_on_def identity_eq)
  ultimately show ?thesis using zs by (intro exI [of _ "sort_key instance_key zs"]) simp
qed

theorem mdns_lists_witness: "instances sample_url [110] sample_cache = Inr [sample_instance 98 []]"
proof -
  obtain ys where y: "instances sample_url [110] sample_cache = Inr ys"
      "set ys = {i. live sample_cache i \<and> si_name i = [110]}" "distinct (map si_id ys)"
    using mdns_lists [OF sample_canonical sample_reachable, of "[110]"] by auto
  have "i = sample_instance 98 []" if "live sample_cache i" for i
    using that by (auto simp: live_def announced_def sample_cache_def bind_eq_Some_conv split: if_splits)
  then have "live sample_cache i \<longleftrightarrow> i = sample_instance 98 []" for i using sample_announced by blast
  moreover have "si_name (sample_instance 98 []) = [110]" by (simp add: sample_instance_def)
  ultimately have "set ys = {sample_instance 98 []}" unfolding y(2) by blast
  moreover have "distinct ys" using y(3) by (simp add: distinct_map)
  moreover have "zs = [x]" if "set zs = {x}" "distinct zs" for zs and x :: service_instance
    using that by (cases zs rule: remdups_adj.cases) auto
  ultimately have "ys = [sample_instance 98 []]" by blast
  then show ?thesis using y(1) by simp
qed

end
