(* ===== verification/Sse.thy ===== *)
theory Sse
  imports Utf8 Js_String
begin

text \<open>
  Server-sent events (\<open>packages/transport/src/sse\<close>): the incremental line splitter, the message parser
  and the event encoder. \<open>parseLine\<close> consumes one chunk: it updates the splitter's variables and
  hands every finished line to its callback, here a function on the callback's own state that may
  throw. When something throws, the variables keep the values they have at that point, so the result
  carries both the new state and the value thrown, if any. Chunks are consumed one after the other,
  as \<open>readStreamBytes\<close> awaits each call.

  The callbacks of the message parser are represented by the log of their calls.
\<close>

section \<open>Limits\<close>

definition validateMaxBufferSize :: "js_number option \<Rightarrow> nat option res" where
  "validateMaxBufferSize maxBufferSize =
     (case maxBufferSize of
        None \<Rightarrow> Inr None
      | Some n \<Rightarrow>
          if \<not> isSafeInteger n \<or> num_less n (Fin 1)
          then Inl (TypeError ''SSE maxBufferSize must be a positive safe integer'')
          else Inr (Some (nat (int_of n))))"

definition over :: "nat option \<Rightarrow> nat \<Rightarrow> bool" where
  "over maxBufferSize n = (case maxBufferSize of None \<Rightarrow> False | Some m \<Rightarrow> n > m)"

section \<open>The line splitter\<close>

type_synonym 'c outcome = "'c \<times> thrown option"
type_synonym 'c on_line = "byte list \<Rightarrow> int \<Rightarrow> 'c \<Rightarrow> 'c outcome"

record line_parser =
  lp_buffer :: "byte list option"
  position :: nat
  fieldLength :: int
  discardTrailingNewline :: bool

definition newLineParser :: line_parser where
  "newLineParser = \<lparr>lp_buffer = None, position = 0, fieldLength = -1, discardTrailingNewline = False\<rparr>"

abbreviation LF :: byte where "LF \<equiv> 10"
abbreviation CR :: byte where "CR \<equiv> 13"
abbreviation SP :: byte where "SP \<equiv> 32"
abbreviation COLON :: byte where "COLON \<equiv> 58"

text \<open>The inner loop: advance to the end of the current line, or to the end of the buffer.\<close>

function scan_line :: "byte list \<Rightarrow> nat \<Rightarrow> nat \<Rightarrow> int \<Rightarrow> bool \<Rightarrow> nat \<times> int \<times> bool \<times> nat option" where
  "scan_line buf pos lineStart fl disc =
     (if pos < length buf then
        let current = buf ! pos in
        if current = COLON
        then scan_line buf (pos + 1) lineStart (if fl = -1 then int pos - int lineStart else fl) disc
        else if current = CR then (pos + 1, fl, True, Some pos)
        else if current = LF then (pos + 1, fl, disc, Some pos)
        else scan_line buf (pos + 1) lineStart fl disc
      else (pos, fl, disc, None))"
  by pat_completeness auto
termination
  by (relation "measure (\<lambda>(buf, pos, _). length buf - pos)") auto

declare scan_line.simps [simp del]

lemma scan_line_pos:
  "scan_line buf pos ls fl disc = (pos', fl', disc', Some e) \<Longrightarrow> pos \<le> e \<and> pos' = e + 1 \<and> e < length buf"
proof (induction buf pos ls fl disc rule: scan_line.induct)
  case (1 buf pos ls fl disc)
  show ?case
    using 1(3) by (subst (asm) scan_line.simps) (use 1(1,2) in \<open>auto simp: Let_def split: if_splits\<close>)
qed

record 'c lines_state =
  ll_position :: nat
  ll_fieldLength :: int
  ll_discard :: bool
  ll_lineStart :: nat
  ll_client :: 'c

text \<open>The outer loop. Its result is the variables at the end and the value thrown, if any.\<close>

function line_loop ::
    "'c on_line \<Rightarrow> nat option \<Rightarrow> byte list \<Rightarrow> nat \<Rightarrow> int \<Rightarrow> bool \<Rightarrow> nat \<Rightarrow> 'c \<Rightarrow>
     'c lines_state \<times> thrown option" where
  "line_loop onLine maxBufferSize buf pos fl disc lineStart client =
     (if pos < length buf then
        let skip = disc \<and> buf ! pos = LF;
            pos1 = (if skip then pos + 1 else pos);
            lineStart1 = (if skip then pos + 1 else lineStart)
        in case scan_line buf pos1 lineStart1 fl False of
             (pos2, fl2, disc2, None) \<Rightarrow>
               (\<lparr>ll_position = pos2, ll_fieldLength = fl2, ll_discard = disc2,
                 ll_lineStart = lineStart1, ll_client = client\<rparr>, None)
           | (pos2, fl2, disc2, Some lineEnd) \<Rightarrow>
               if over maxBufferSize (lineEnd - lineStart1) then
                 (\<lparr>ll_position = pos2, ll_fieldLength = fl2, ll_discard = disc2,
                   ll_lineStart = lineStart1, ll_client = client\<rparr>, Some SSEParserLimitError)
               else
                 let currentFieldLength =
                       (if fl2 = -1 \<and> lineEnd > lineStart1 then int (lineEnd - lineStart1) else fl2)
                 in case onLine (take (lineEnd - lineStart1) (drop lineStart1 buf)) currentFieldLength
                           client of
                      (client', Some e) \<Rightarrow>
                        (\<lparr>ll_position = pos2, ll_fieldLength = fl2, ll_discard = disc2,
                          ll_lineStart = lineStart1, ll_client = client'\<rparr>, Some e)
                    | (client', None) \<Rightarrow>
                        line_loop onLine maxBufferSize buf pos2 (-1) disc2 pos2 client'
      else (\<lparr>ll_position = pos, ll_fieldLength = fl, ll_discard = disc, ll_lineStart = lineStart,
             ll_client = client\<rparr>, None))"
  by pat_completeness auto
termination
  by (relation "measure (\<lambda>(_, _, buf, pos, _). length buf - pos)")
    (auto dest!: scan_line_pos [OF sym] split: if_splits)

declare line_loop.simps [simp del]

definition parseLine ::
    "'c on_line \<Rightarrow> nat option \<Rightarrow> byte list \<Rightarrow> line_parser \<Rightarrow> 'c \<Rightarrow> line_parser \<times> 'c outcome" where
  "parseLine onLine maxBufferSize chunk lp client =
     (let (buf, pos, fl) =
            (case lp_buffer lp of
               Some b \<Rightarrow> (b @ chunk, position lp, fieldLength lp)
             | None \<Rightarrow> (chunk, 0, -1));
          (ll, err) =
            line_loop onLine maxBufferSize buf pos fl (discardTrailingNewline lp) 0 client;
          lp' = \<lparr>lp_buffer = Some buf, position = ll_position ll, fieldLength = ll_fieldLength ll,
                 discardTrailingNewline = ll_discard ll\<rparr>
      in case err of
           Some e \<Rightarrow> (lp', ll_client ll, Some e)
         | None \<Rightarrow>
             let lineStart = ll_lineStart ll;
                 lp'' = (if lineStart = length buf then lp'\<lparr>lp_buffer := None\<rparr>
                         else if lineStart \<noteq> 0
                         then lp'\<lparr>lp_buffer := Some (drop lineStart buf),
                                  position := position lp' - lineStart\<rparr>
                         else lp')
             in case lp_buffer lp'' of
                  Some b \<Rightarrow>
                    if over maxBufferSize (length b)
                    then (lp'', ll_client ll, Some SSEParserLimitError)
                    else (lp'', ll_client ll, None)
                | None \<Rightarrow> (lp'', ll_client ll, None))"

text \<open>A stream of chunks: \<open>readStreamBytes\<close> stops at the first failure.\<close>

fun parse_chunks ::
    "'c on_line \<Rightarrow> nat option \<Rightarrow> byte list list \<Rightarrow> line_parser \<Rightarrow> 'c \<Rightarrow> 'c outcome" where
  "parse_chunks onLine maxBufferSize [] lp client = (client, None)"
| "parse_chunks onLine maxBufferSize (chunk # chunks) lp client =
     (case parseLine onLine maxBufferSize chunk lp client of
        (lp', client', Some e) \<Rightarrow> (client', Some e)
      | (lp', client', None) \<Rightarrow> parse_chunks onLine maxBufferSize chunks lp' client')"

section \<open>The message parser\<close>

record EventStreamMessage =
  m_id :: jsstr
  m_event :: jsstr
  m_data :: jsstr

datatype sse_call = OnId jsstr | OnRetry nat | OnMessage EventStreamMessage

record message_parser =
  lastEventId :: jsstr
  event :: jsstr
  data :: jsstr
  dataBytes :: nat
  hasData :: bool
  calls :: "sse_call list"

definition newMessageParser :: message_parser where
  "newMessageParser =
     \<lparr>lastEventId = [], event = [], data = [], dataBytes = 0, hasData = False, calls = []\<rparr>"

definition parseMessage :: "nat option \<Rightarrow> message_parser on_line" where
  "parseMessage maxBufferSize line fl mp =
     (if line = [] then
        let message = \<lparr>m_id = lastEventId mp, m_event = event mp, m_data = butlast (data mp)\<rparr>;
            calls' = (if hasData mp then calls mp @ [OnMessage message] else calls mp)
        in (mp\<lparr>event := [], data := [], dataBytes := 0, hasData := False, calls := calls'\<rparr>, None)
      else
        let n = nat fl;
            hasColon = (n < length line \<and> line ! n = COLON);
            field = utf8_decode (take n line);
            offset0 = (if hasColon then n + 1 else length line);
            valueOffset =
              (if hasColon \<and> offset0 < length line \<and> line ! offset0 = SP then offset0 + 1 else offset0);
            valueBytes = drop valueOffset line;
            value = utf8_decode valueBytes
        in if field = js ''data'' then
             let mp' = mp\<lparr>dataBytes := dataBytes mp + (length valueBytes + 1)\<rparr> in
             if over maxBufferSize (dataBytes mp') then (mp', Some SSEParserLimitError)
             else (mp'\<lparr>hasData := True, data := data mp @ value @ [10]\<rparr>, None)
           else if field = js ''event'' then (mp\<lparr>event := value\<rparr>, None)
           else if field = js ''id'' then
             if 0 \<in> set value then (mp, None)
             else (mp\<lparr>lastEventId := value, calls := calls mp @ [OnId value]\<rparr>, None)
           else if field = js ''retry'' \<and> value \<noteq> [] \<and> list_all is_digit value then
             (mp\<lparr>calls := calls mp @ [OnRetry (min (digits_value 10 value) 2147483647)]\<rparr>, None)
           else (mp, None))"

section \<open>The encoder\<close>

definition line_safe :: "jsstr \<Rightarrow> bool" where
  "line_safe s \<longleftrightarrow> 13 \<notin> set s \<and> 10 \<notin> set s"

definition encodeSSEComment :: "jsstr \<Rightarrow> byte list res" where
  "encodeSSEComment comment =
     (if \<not> line_safe comment then Inl (TypeError ''SSE comment must not contain a line break'')
      else Inr (utf8_encode (js '':'' @ comment @ [10, 10])))"

definition encodeSSEEvent :: "jsstr \<Rightarrow> jsstr option \<Rightarrow> byte list res" where
  "encodeSSEEvent payload name =
     (if \<not> line_safe payload then Inl (TypeError ''SSE RPC event data must be one line'')
      else
        case name of
          None \<Rightarrow> Inr (utf8_encode (js ''data: '' @ payload @ [10, 10]))
        | Some e \<Rightarrow>
            if e = [] \<or> \<not> line_safe e
            then Inl (TypeError ''SSE event name must be a non-empty line-safe string'')
            else Inr (utf8_encode (js ''event: '' @ e @ [10] @ js ''data: '' @ payload @ [10, 10])))"

section \<open>The reference splitter\<close>

text \<open>
  The specification of the splitter reads one byte at a time. Its state is the current line and
  whether the last byte was a carriage return; \<open>first_colon\<close> is the field length of a line.
\<close>

fun colon_index :: "byte list \<Rightarrow> int" where
  "colon_index [] = -1"
| "colon_index (b # bs) =
     (if b = COLON then 0 else let i = colon_index bs in if i = -1 then -1 else i + 1)"

definition first_colon :: "byte list \<Rightarrow> int" where
  "first_colon line =
     (if colon_index line = -1 \<and> line \<noteq> [] then int (length line) else colon_index line)"

fun feed ::
    "'c on_line \<Rightarrow> nat option \<Rightarrow> byte list \<Rightarrow> byte list \<Rightarrow> bool \<Rightarrow> 'c \<Rightarrow>
     (byte list \<times> bool) \<times> 'c outcome" where
  "feed onLine m [] line cr client =
     ((line, cr), client, if over m (length line) then Some SSEParserLimitError else None)"
| "feed onLine m (b # bs) line cr client =
     (if cr \<and> b = LF then feed onLine m bs line False client
      else if b = CR \<or> b = LF then
        if over m (length line) then ((line, False), client, Some SSEParserLimitError)
        else (case onLine line (first_colon line) client of
                (client', Some e) \<Rightarrow> ((line, False), client', Some e)
              | (client', None) \<Rightarrow> feed onLine m bs [] (b = CR) client')
      else feed onLine m bs (line @ [b]) False client)"

section \<open>The splitter implements the reference\<close>

definition part :: "byte list \<Rightarrow> nat \<Rightarrow> nat \<Rightarrow> byte list" where
  "part buf i j = take (j - i) (drop i buf)"

lemma part_self [simp]: "part buf i i = []"
  by (simp add: part_def)

lemma part_snoc: "i \<le> j \<Longrightarrow> j < length buf \<Longrightarrow> part buf i (Suc j) = part buf i j @ [buf ! j]"
  by (simp add: part_def Suc_diff_le take_Suc_conv_app_nth)

lemma part_end: "i \<le> length buf \<Longrightarrow> part buf i (length buf) = drop i buf"
  by (simp add: part_def)

lemma length_part [simp]: "i \<le> j \<Longrightarrow> j \<le> length buf \<Longrightarrow> length (part buf i j) = j - i"
  by (simp add: part_def)

lemma colon_index_snoc:
  "colon_index (xs @ [b]) =
     (if colon_index xs \<noteq> -1 then colon_index xs else if b = COLON then int (length xs) else -1)"
proof (induction xs)
  case (Cons a xs)
  have "colon_index xs \<ge> -1" by (induction xs) (auto simp: Let_def)
  then show ?case using Cons by (auto simp: Let_def)
qed simp

lemma over_mono: "over m i \<Longrightarrow> i \<le> j \<Longrightarrow> over m j"
  by (auto simp: over_def split: option.splits)

lemma feed_over:
  "over m (length line) \<Longrightarrow> snd (feed f m bs line cr c) = (c, Some SSEParserLimitError)"
proof (induction f m bs line cr c rule: feed.induct)
  case (2 f m b bs line cr c)
  then show ?case
    using over_mono [of m "length line" "length (line @ [b])"] by auto
qed simp

lemma feed_append:
  "snd (feed f m (xs @ ys) line cr c) =
     (case feed f m xs line cr c of
        (_, c', Some e) \<Rightarrow> (c', Some e)
      | ((line', cr'), c', None) \<Rightarrow> snd (feed f m ys line' cr' c'))"
proof (induction f m xs line cr c rule: feed.induct)
  case (1 f m line cr c)
  then show ?case by (simp add: feed_over)
next
  case (2 f m b bs line cr c)
  then show ?case by (auto split: option.splits prod.splits)
qed

lemma scan_line_feed:
  assumes "ls \<le> pos" "pos \<le> length buf" "fl = colon_index (part buf ls pos)"
  shows "case scan_line buf pos ls fl disc of
      (pos', fl', disc', None) \<Rightarrow>
        pos' = length buf \<and> fl' = colon_index (drop ls buf) \<and> disc' = disc \<and>
        feed f m (drop pos buf) (part buf ls pos) False c = feed f m [] (drop ls buf) False c
    | (pos', fl', disc', Some e) \<Rightarrow>
        fl' = colon_index (part buf ls e) \<and> disc' = (buf ! e = CR \<or> disc) \<and>
        (buf ! e = CR \<or> buf ! e = LF) \<and>
        feed f m (drop pos buf) (part buf ls pos) False c = feed f m (drop e buf) (part buf ls e) False c"
  using assms
proof (induction buf pos ls fl disc rule: scan_line.induct)
  case (1 buf pos ls fl disc)
  show ?case
  proof (cases "pos < length buf")
    case False
    then show ?thesis
      using 1 by (subst scan_line.simps) (simp add: part_end)
  next
    case True
    let ?b = "buf ! pos"
    have d: "drop pos buf = ?b # drop (Suc pos) buf"
      using True by (simp add: Cons_nth_drop_Suc)
    have p: "part buf ls (Suc pos) = part buf ls pos @ [?b]"
      using True 1 by (simp add: part_snoc)
    have fl: "colon_index (part buf ls pos @ [?b]) =
        (if ?b = COLON then if fl = -1 then int pos - int ls else fl else fl)"
      using 1(3-5) True by (auto simp: colon_index_snoc)
    consider "?b = COLON" | "?b = CR" | "?b = LF" | "?b \<noteq> COLON" "?b \<noteq> CR" "?b \<noteq> LF" by blast
    then show ?thesis
    proof cases
      case 1
      then show ?thesis
        using "1.IH"(1) [OF True refl] "1.prems" True p fl d
        by (subst scan_line.simps) (simp add: Let_def)
    next
      case 2
      then show ?thesis using "1.prems" True by (subst scan_line.simps) (simp add: Let_def)
    next
      case 3
      then show ?thesis using "1.prems" True by (subst scan_line.simps) (simp add: Let_def)
    next
      case 4
      then show ?thesis
        using "1.IH"(2) [OF True refl] "1.prems" True p fl d
        by (subst scan_line.simps) (simp add: Let_def)
    qed
  qed
qed

definition loop_agrees :: "('c lines_state \<times> thrown option) \<Rightarrow> nat option \<Rightarrow> byte list \<Rightarrow>
    ((byte list \<times> bool) \<times> 'c outcome) \<Rightarrow> bool" where
  "loop_agrees res m buf fed =
     (case res of
        (ll, Some e) \<Rightarrow> snd fed = (ll_client ll, Some e)
      | (ll, None) \<Rightarrow>
          let line = drop (ll_lineStart ll) buf in
          fed = ((line, ll_discard ll), ll_client ll,
                 if over m (length line) then Some SSEParserLimitError else None) \<and>
          ll_lineStart ll \<le> length buf \<and> ll_position ll = length buf \<and>
          ll_fieldLength ll = colon_index line \<and> (ll_discard ll \<longrightarrow> line = []))"

lemma line_loop_feed:
  assumes "ls \<le> pos" "pos \<le> length buf" "fl = colon_index (part buf ls pos)" "disc \<Longrightarrow> pos = ls"
  shows "loop_agrees (line_loop f m buf pos fl disc ls c) m buf
    (feed f m (drop pos buf) (part buf ls pos) disc c)"
  using assms
proof (induction "length buf - pos" arbitrary: pos fl disc ls c rule: less_induct)
  case 1: less
  show ?case
  proof (cases "pos < length buf")
    case False
    then show ?thesis
      using 1(2-) by (subst line_loop.simps) (auto simp: part_end loop_agrees_def)
  next
    case True
    define skip where "skip \<longleftrightarrow> disc \<and> buf ! pos = LF"
    define p1 where "p1 = (if skip then pos + 1 else pos)"
    define l1 where "l1 = (if skip then pos + 1 else ls)"
    have le: "l1 \<le> p1" "p1 \<le> length buf" and fl: "fl = colon_index (part buf l1 p1)"
      using 1(2-) True by (auto simp: p1_def l1_def skip_def)
    have feed1: "feed f m (drop pos buf) (part buf ls pos) disc c =
        feed f m (drop p1 buf) (part buf l1 p1) False c"
    proof -
      have "drop pos buf = buf ! pos # drop (Suc pos) buf"
        using True by (simp add: Cons_nth_drop_Suc)
      then show ?thesis
        using 1(5) by (auto simp: p1_def l1_def skip_def)
    qed
    obtain p2 fl2 d2 eo where scan: "scan_line buf p1 l1 fl False = (p2, fl2, d2, eo)"
      by (metis prod_cases4)
    show ?thesis
    proof (cases eo)
      case None
      then show ?thesis
        using scan_line_feed [OF le fl, of False f m c] scan True le feed1
        by (subst line_loop.simps)
          (simp add: loop_agrees_def Let_def skip_def [symmetric] p1_def [symmetric] l1_def [symmetric])
    next
      case (Some e)
      let ?line = "part buf l1 e"
      have pos: "p1 \<le> e" "p2 = e + 1" "e < length buf"
        using scan_line_pos [of buf p1 l1 fl False p2 fl2 d2 e] scan Some by auto
      have s: "fl2 = colon_index ?line" "d2 = (buf ! e = CR)" "buf ! e = CR \<or> buf ! e = LF"
        and feed2: "feed f m (drop p1 buf) (part buf l1 p1) False c = feed f m (drop e buf) ?line False c"
        using scan_line_feed [OF le fl, of False f m c] scan Some by auto
      have d: "drop e buf = buf ! e # drop p2 buf"
        using pos by (simp add: Cons_nth_drop_Suc)
      have len: "length ?line = e - l1" using le pos by simp
      have cur: "first_colon ?line = (if fl2 = -1 \<and> e > l1 then int (e - l1) else fl2)"
        using s(1) len by (auto simp: first_colon_def simp flip: length_greater_0_conv)
      have loop: "line_loop f m buf pos fl disc ls c =
          (if over m (e - l1)
           then (\<lparr>ll_position = p2, ll_fieldLength = fl2, ll_discard = d2, ll_lineStart = l1,
                  ll_client = c\<rparr>, Some SSEParserLimitError)
           else case f ?line (first_colon ?line) c of
                  (c', Some e) \<Rightarrow> (\<lparr>ll_position = p2, ll_fieldLength = fl2, ll_discard = d2,
                    ll_lineStart = l1, ll_client = c'\<rparr>, Some e)
                | (c', None) \<Rightarrow> line_loop f m buf p2 (-1) d2 p2 c')"
        using True scan Some
        by (subst line_loop.simps)
          (simp add: Let_def skip_def [symmetric] p1_def [symmetric] l1_def [symmetric]
            cur part_def [symmetric])
      have step: "feed f m (drop pos buf) (part buf ls pos) disc c =
          (if over m (e - l1) then ((?line, False), c, Some SSEParserLimitError)
           else case f ?line (first_colon ?line) c of
                  (c', Some x) \<Rightarrow> ((?line, False), c', Some x)
                | (c', None) \<Rightarrow> feed f m (drop p2 buf) [] d2 c')"
        unfolding s(2) using feed1 feed2 s(3) by (simp add: d len)
      show ?thesis
      proof (cases "over m (e - l1)")
        case o: True
        then show ?thesis by (simp add: loop step loop_agrees_def)
      next
        case False
        obtain c' r where out: "f ?line (first_colon ?line) c = (c', r)" by fastforce
        show ?thesis
        proof (cases r)
          case (Some x)
          then show ?thesis using False out by (simp add: loop step loop_agrees_def)
        next
          case None
          have "loop_agrees (line_loop f m buf p2 (-1) d2 p2 c') m buf
              (feed f m (drop p2 buf) (part buf p2 p2) d2 c')"
            using 1(1) [of p2 p2 "-1" d2 c'] pos le True by (simp add: p1_def split: if_splits)
          then show ?thesis using False out None by (simp add: loop step)
        qed
      qed
    qed
  qed
qed

text \<open>The splitter's variables between two chunks, as a state of the reference.\<close>

fun lp_rel :: "line_parser \<Rightarrow> byte list \<times> bool \<Rightarrow> bool" where
  "lp_rel lp (line, cr) =
     (case lp_buffer lp of
        None \<Rightarrow> line = [] \<and> cr = discardTrailingNewline lp
      | Some b \<Rightarrow> line = b \<and> b \<noteq> [] \<and> position lp = length b \<and> fieldLength lp = colon_index b \<and>
                  \<not> discardTrailingNewline lp \<and> \<not> cr)"

lemma parseLine_feed:
  assumes "lp_rel lp (line, cr)" and "parseLine f m chunk lp c = (lp', c', err)"
    and "feed f m chunk line cr c = (st, out)"
  shows "out = (c', err) \<and> (err = None \<longrightarrow> lp_rel lp' st)"
proof -
  define buf where "buf = line @ chunk"
  define d where "d = discardTrailingNewline lp"
  let ?fl = "colon_index line"
  have start: "(case lp_buffer lp of Some b \<Rightarrow> (b @ chunk, position lp, fieldLength lp)
      | None \<Rightarrow> (chunk, 0, -1)) = (buf, length line, ?fl)" and "d = cr" "d \<Longrightarrow> line = []"
    using assms(1) by (auto simp: buf_def d_def split: option.splits)
  obtain ll e where loop: "line_loop f m buf (length line) ?fl d 0 c = (ll, e)" by fastforce
  have agrees: "loop_agrees (ll, e) m buf (st, out)"
    using line_loop_feed [of 0 "length line" buf ?fl d f m c] loop assms(3) \<open>d = cr\<close> \<open>d \<Longrightarrow> line = []\<close>
    by (simp add: buf_def part_def)
  have parse: "parseLine f m chunk lp c =
      (let lp' = \<lparr>lp_buffer = Some buf, position = ll_position ll, fieldLength = ll_fieldLength ll,
                 discardTrailingNewline = ll_discard ll\<rparr>
       in case e of
           Some e \<Rightarrow> (lp', ll_client ll, Some e)
         | None \<Rightarrow>
             let lineStart = ll_lineStart ll;
                 lp'' = (if lineStart = length buf then lp'\<lparr>lp_buffer := None\<rparr>
                         else if lineStart \<noteq> 0
                         then lp'\<lparr>lp_buffer := Some (drop lineStart buf),
                                  position := position lp' - lineStart\<rparr>
                         else lp')
             in case lp_buffer lp'' of
                  Some b \<Rightarrow>
                    if over m (length b)
                    then (lp'', ll_client ll, Some SSEParserLimitError)
                    else (lp'', ll_client ll, None)
                | None \<Rightarrow> (lp'', ll_client ll, None))"
    unfolding parseLine_def start using loop by (simp add: d_def)
  show ?thesis
  proof (cases e)
    case (Some x)
    then show ?thesis
      using agrees assms(2) parse by (auto simp: loop_agrees_def)
  next
    case None
    have over0: "\<not> over m 0" by (simp add: over_def split: option.splits)
    define l where "l = ll_lineStart ll"
    have a: "st = (drop l buf, ll_discard ll)"
      "out = (ll_client ll, if over m (length buf - l) then Some SSEParserLimitError else None)"
      "l \<le> length buf" "ll_position ll = length buf" "ll_fieldLength ll = colon_index (drop l buf)"
      "ll_discard ll \<longrightarrow> drop l buf = []"
      using agrees None by (auto simp: loop_agrees_def Let_def l_def)
    consider "l = length buf" | "l < length buf" "l \<noteq> 0" | "l < length buf" "l = 0"
      using a(3) by linarith
    then show ?thesis
      by cases (use assms(2) parse None a over0 in
          \<open>auto simp: l_def [symmetric] Let_def split: if_splits\<close>)
  qed
qed

lemma parse_chunks_feed:
  assumes "lp_rel lp (line, cr)" and "chunks \<noteq> []"
  shows "parse_chunks f m chunks lp c = snd (feed f m (concat chunks) line cr c)"
  using assms
proof (induction chunks arbitrary: lp line cr c)
  case (Cons chunk chunks)
  obtain lp' c' err where p: "parseLine f m chunk lp c = (lp', c', err)" by (metis prod_cases3)
  obtain line' cr' out where fd: "feed f m chunk line cr c = ((line', cr'), out)"
    by (metis surj_pair)
  note r = parseLine_feed [OF Cons.prems(1) p fd]
  show ?case
  proof (cases err)
    case None
    then show ?thesis
      using r p fd Cons.IH [of lp' line' cr' c'] feed_append [of f m chunk "concat chunks" line cr c]
      by (cases "chunks = []") auto
  next
    case (Some e)
    then show ?thesis
      using r p fd feed_append [of f m chunk "concat chunks" line cr c] by auto
  qed
qed simp

lemma lp_rel_new: "lp_rel newLineParser ([], False)"
  by (simp add: newLineParser_def)

lemma parse_new_feed:
  "parse_chunks f m chunks newLineParser c = snd (feed f m (concat chunks) [] False c)"
proof (cases "chunks = []")
  case True
  then show ?thesis by (simp add: over_def split: option.splits)
next
  case False
  then show ?thesis by (rule parse_chunks_feed [OF lp_rel_new])
qed

section \<open>Parsing inverts encoding\<close>

definition no_break :: "byte list \<Rightarrow> bool" where
  "no_break bs \<longleftrightarrow> LF \<notin> set bs \<and> CR \<notin> set bs"

lemma feed_line:
  assumes "no_break xs" "\<not> over m (length (line @ xs))"
  shows "feed f m (xs @ LF # rest) line False c =
    (case f (line @ xs) (first_colon (line @ xs)) c of
       (c', Some e) \<Rightarrow> ((line @ xs, False), c', Some e)
     | (c', None) \<Rightarrow> feed f m rest [] False c')"
  using assms
proof (induction xs arbitrary: line)
  case (Cons x xs)
  then show ?case using Cons.IH [of "line @ [x]"] by (simp add: no_break_def)
qed simp

lemma encode_no_break:
  assumes "isWellFormed s" "line_safe s"
  shows "no_break (utf8_encode s)"
proof -
  have "LF \<notin> set (utf8_encode s)" "CR \<notin> set (utf8_encode s)"
    using utf8_encode_low [OF assms(1), of LF] utf8_encode_low [OF assms(1), of CR] assms(2)
    by (auto simp: line_safe_def)
  then show ?thesis by (simp add: no_break_def)
qed

text \<open>A field line of the encoder: an ASCII field name, a colon, a space and the value.\<close>

definition field_line :: "string \<Rightarrow> jsstr \<Rightarrow> byte list" where
  "field_line name v = utf8_encode (js name @ js '': '' @ v)"

definition plain_value :: "jsstr \<Rightarrow> bool" where
  "plain_value v \<longleftrightarrow> isWellFormed v \<and> line_safe v \<and> take 1 v \<noteq> [0xFEFF]"

lemma data_line:
  assumes "plain_value v"
  shows "field_line ''data'' v = [100, 97, 116, 97, 58, 32] @ utf8_encode v"
    "field_line ''event'' v = [101, 118, 101, 110, 116, 58, 32] @ utf8_encode v"
proof -
  have w: "isWellFormed (js ''data: '')" "isWellFormed (js ''event: '')"
    by (simp_all add: js_def is_high_def is_low_def)
  show "field_line ''data'' v = [100, 97, 116, 97, 58, 32] @ utf8_encode v"
    using utf8_encode_append [OF w(1), of v]
    by (simp add: field_line_def js_def utf8_encode_def is_high_def is_low_def utf8_point_def
        scalar_value_def byte_of_def)
  show "field_line ''event'' v = [101, 118, 101, 110, 116, 58, 32] @ utf8_encode v"
    using utf8_encode_append [OF w(2), of v]
    by (simp add: field_line_def js_def utf8_encode_def is_high_def is_low_def utf8_point_def
        scalar_value_def byte_of_def)
qed

lemma plain_decode: "plain_value v \<Longrightarrow> utf8_decode (utf8_encode v) = v"
  by (simp add: plain_value_def utf8_decode_encode strip_bom_encode)

lemma decode_field:
  "utf8_decode [100, 97, 116, 97] = js ''data''"
  "utf8_decode [101, 118, 101, 110, 116] = js ''event''"
  by (simp_all add: utf8_decode_def strip_bom_def units_of_point_def js_def)

lemma parse_data_line:
  assumes "plain_value v" "\<not> over m (dataBytes mp + (length (utf8_encode v) + 1))"
  shows "parseMessage m (field_line ''data'' v) (first_colon (field_line ''data'' v)) mp =
    (mp\<lparr>dataBytes := dataBytes mp + (length (utf8_encode v) + 1), hasData := True,
        data := data mp @ v @ [10]\<rparr>, None)"
  using assms plain_decode [OF assms(1)]
  by (simp add: data_line parseMessage_def first_colon_def Let_def decode_field js_def)

lemma parse_event_line:
  assumes "plain_value v"
  shows "parseMessage m (field_line ''event'' v) (first_colon (field_line ''event'' v)) mp =
    (mp\<lparr>event := v\<rparr>, None)"
  using assms plain_decode [OF assms(1)]
  by (simp add: data_line parseMessage_def first_colon_def Let_def decode_field js_def)

record sse_event =
  payload :: jsstr
  name :: "jsstr option"

definition event_ok :: "sse_event \<Rightarrow> bool" where
  "event_ok e \<longleftrightarrow> plain_value (payload e) \<and>
     (case name e of None \<Rightarrow> True | Some n \<Rightarrow> n \<noteq> [] \<and> plain_value n)"

text \<open>Every line of the event is within the ceiling.\<close>

definition event_fits :: "nat option \<Rightarrow> sse_event \<Rightarrow> bool" where
  "event_fits m e \<longleftrightarrow> \<not> over m (length (field_line ''data'' (payload e))) \<and>
     (case name e of None \<Rightarrow> True | Some n \<Rightarrow> \<not> over m (length (field_line ''event'' n)))"

definition event_bytes :: "sse_event \<Rightarrow> byte list" where
  "event_bytes e =
     (case name e of None \<Rightarrow> [] | Some n \<Rightarrow> field_line ''event'' n @ [LF]) @
     field_line ''data'' (payload e) @ [LF, LF]"

definition message_of :: "jsstr \<Rightarrow> sse_event \<Rightarrow> EventStreamMessage" where
  "message_of lastId e =
     \<lparr>m_id = lastId, m_event = (case name e of None \<Rightarrow> [] | Some n \<Rightarrow> n), m_data = payload e\<rparr>"

definition idle :: "message_parser \<Rightarrow> bool" where
  "idle mp \<longleftrightarrow> event mp = [] \<and> data mp = [] \<and> dataBytes mp = 0 \<and> \<not> hasData mp"

lemma utf8_encode_LF: "utf8_encode [] = []" "utf8_encode (10 # s) = LF # utf8_encode s"
  by (cases s; simp add: utf8_encode_def is_high_def is_low_def utf8_point_def scalar_value_def
      byte_of_def)+

lemma field_line_append:
  assumes "plain_value v"
  shows "utf8_encode (js ''data: '' @ v @ r) = field_line ''data'' v @ utf8_encode r"
    "utf8_encode (js ''event: '' @ v @ r) = field_line ''event'' v @ utf8_encode r"
proof -
  have "isWellFormed (js ''data: '' @ v)" "isWellFormed (js ''event: '' @ v)"
    using assms by (auto simp: plain_value_def js_def is_high_def is_low_def intro!: isWellFormed_append)
  from this [THEN utf8_encode_append, of r]
  show "utf8_encode (js ''data: '' @ v @ r) = field_line ''data'' v @ utf8_encode r"
    "utf8_encode (js ''event: '' @ v @ r) = field_line ''event'' v @ utf8_encode r"
    by (simp_all add: field_line_def js_def)
qed

lemma encodeSSEEvent_bytes:
  assumes "event_ok e"
  shows "encodeSSEEvent (payload e) (name e) = Inr (event_bytes e)"
proof (cases "name e")
  case None
  then show ?thesis
    using assms field_line_append(1) [of "payload e" "[10, 10]"]
    by (simp add: encodeSSEEvent_def event_ok_def plain_value_def event_bytes_def utf8_encode_LF)
next
  case (Some n)
  then have "plain_value n" "plain_value (payload e)" "n \<noteq> []" using assms by (auto simp: event_ok_def)
  then show ?thesis
    using Some field_line_append(1) [of "payload e" "[10, 10]"]
      field_line_append(2) [of n "10 # js ''data: '' @ payload e @ [10, 10]"]
    by (simp add: encodeSSEEvent_def plain_value_def event_bytes_def utf8_encode_LF)
qed

lemma field_line_no_break:
  assumes "plain_value v"
  shows "no_break (field_line ''data'' v)" "no_break (field_line ''event'' v)"
  using encode_no_break [of v] assms by (auto simp: plain_value_def data_line no_break_def)

lemma over_less: "\<not> over m j \<Longrightarrow> i \<le> j \<Longrightarrow> \<not> over m i"
  using over_mono by blast

lemma feed_event:
  assumes "event_ok e" "event_fits m e" "idle mp"
  shows "\<exists>mp'. idle mp' \<and> lastEventId mp' = lastEventId mp \<and>
    calls mp' = calls mp @ [OnMessage (message_of (lastEventId mp) e)] \<and>
    feed (parseMessage m) m (event_bytes e @ rest) [] False mp =
      feed (parseMessage m) m rest [] False mp'"
proof -
  have p: "plain_value (payload e)" using assms(1) by (simp add: event_ok_def)
  define ev where "ev = (case name e of None \<Rightarrow> [] | Some n \<Rightarrow> n)"
  define mp1 where "mp1 = mp\<lparr>event := ev\<rparr>"
  let ?line = "field_line ''data'' (payload e)"
  have head: "feed (parseMessage m) m (event_bytes e @ rest) [] False mp =
      feed (parseMessage m) m (?line @ LF # LF # rest) [] False mp1"
  proof (cases "name e")
    case None
    then have "mp1 = mp"
      using assms(3) by (cases mp) (simp add: mp1_def ev_def idle_def)
    then show ?thesis using None by (simp add: event_bytes_def)
  next
    case (Some n)
    then have n: "plain_value n" "\<not> over m (length (field_line ''event'' n))"
      using assms(1,2) by (auto simp: event_ok_def event_fits_def)
    then show ?thesis
      using Some feed_line [OF field_line_no_break(2) [OF n(1)], of m "[]" "parseMessage m"]
        parse_event_line [OF n(1), of m mp]
      by (simp add: event_bytes_def mp1_def ev_def)
  qed
  have fits: "\<not> over m (length ?line)" using assms(2) by (simp add: event_fits_def)
  then have b: "\<not> over m (dataBytes mp1 + (length (utf8_encode (payload e)) + 1))"
    using assms(3) over_less [OF fits, of "length (utf8_encode (payload e)) + 1"]
    by (simp add: data_line [OF p] mp1_def idle_def)
  define mp2 where "mp2 = mp1\<lparr>dataBytes := dataBytes mp1 + (length (utf8_encode (payload e)) + 1),
    hasData := True, data := data mp1 @ payload e @ [10]\<rparr>"
  define mp3 where "mp3 = fst (parseMessage m [] (first_colon []) mp2)"
  have "feed (parseMessage m) m (?line @ LF # LF # rest) [] False mp1 =
      feed (parseMessage m) m (LF # rest) [] False mp2"
    using feed_line [OF field_line_no_break(1) [OF p], of m "[]" "parseMessage m" "LF # rest" mp1]
      fits parse_data_line [OF p b] by (simp add: mp2_def)
  also have "\<dots> = feed (parseMessage m) m rest [] False mp3"
    by (simp add: mp3_def parseMessage_def Let_def over_def split: option.splits)
  finally show ?thesis
    using head assms(3)
    by (intro exI [of _ mp3])
      (simp add: mp3_def mp2_def mp1_def parseMessage_def Let_def idle_def message_of_def ev_def)
qed

lemma feed_events:
  assumes "list_all event_ok es" "list_all (event_fits m) es" "idle mp"
  shows "\<exists>mp'. calls mp' = calls mp @ map (\<lambda>e. OnMessage (message_of (lastEventId mp) e)) es \<and>
    snd (feed (parseMessage m) m (concat (map event_bytes es)) [] False mp) = (mp', None)"
  using assms
proof (induction es arbitrary: mp)
  case Nil
  then show ?case by (simp add: over_def split: option.splits)
next
  case (Cons e es)
  then obtain mp' where "idle mp'" "lastEventId mp' = lastEventId mp"
    "calls mp' = calls mp @ [OnMessage (message_of (lastEventId mp) e)]"
    "feed (parseMessage m) m (event_bytes e @ concat (map event_bytes es)) [] False mp =
      feed (parseMessage m) m (concat (map event_bytes es)) [] False mp'"
    using feed_event [of e m mp "concat (map event_bytes es)"] by auto
  then show ?case using Cons.IH [of mp'] Cons.prems by auto
qed

section \<open>Properties\<close>

text \<open>
  C28: how the stream is cut into chunks is irrelevant. Whatever the callback and the ceiling, feeding
  any chunks to the splitter calls the callback with the same lines and field lengths, and
  fails in the same way, as the reference that reads their concatenation byte by byte; a carriage
  return and a line feed in different chunks end one line.
\<close>

theorem chunks_as_bytes:
  "parse_chunks onLine m chunks newLineParser c = snd (feed onLine m (concat chunks) [] False c)"
  by (rule parse_new_feed)


definition sample_events :: "sse_event list" where
  "sample_events = [\<lparr>payload = js ''x'', name = None\<rparr>, \<lparr>payload = [0xE9], name = Some (js ''e'')\<rparr>]"


text \<open>A payload that starts with a byte order mark loses it.\<close>

lemma bom_payload_lost:
  "calls (fst (parseMessage None (field_line ''data'' [0xFEFF, 0x61]) 4 newMessageParser)) = [] \<and>
   data (fst (parseMessage None (field_line ''data'' [0xFEFF, 0x61]) 4 newMessageParser)) = [0x61, 10]"
  by (simp add: parseMessage_def newMessageParser_def field_line_def utf8_decode_def over_def utf8_eval)

end
