(* ===== verification/Selector.thy ===== *)
theory Selector
  imports Registry Context
begin

text \<open>
  \<open>packages/registry/src/selector.ts\<close>: filters, and the parts that every endpoint selector shares
  (flattening a snapshot, identities, the bounded memory of service domains, samples of the random
  source), with the round-robin, random and weighted round-robin selectors. A selector's state is
  its \<open>Map\<close> from service domain to what it remembers. The values a callback returns are numbers, so
  the rejection of thenables does not occur; a callback may throw.
\<close>

section \<open>Filters\<close>

definition filterVersion :: "jsstr \<Rightarrow> service_instance list \<Rightarrow> service_instance list" where
  "filterVersion version instances = filter (\<lambda>i. si_version i = version) instances"

definition filterLabel :: "jsstr \<Rightarrow> jsstr \<Rightarrow> service_instance list \<Rightarrow> service_instance list" where
  "filterLabel key v instances = filter (\<lambda>i. map_get (si_metadata i) key = Some v) instances"

section \<open>Endpoints and identities\<close>

record service_endpoint =
  se_instance :: service_instance
  se_url :: jsstr

definition throwIfCanceled :: "'v world \<Rightarrow> 'v ctx \<Rightarrow> unit res" where
  "throwIfCanceled w c =
     (case resolveErr w c of
        None \<Rightarrow> Inr ()
      | Some failure \<Rightarrow> Inl (case readCause w c of Some specific \<Rightarrow> specific | None \<Rightarrow> failure))"

definition serviceEndpoints :: "service_instance list \<Rightarrow> service_endpoint list" where
  "serviceEndpoints instances =
     concat (map (\<lambda>i. map (\<lambda>u. \<lparr>se_instance = i, se_url = u\<rparr>) (si_endpoints i)) instances)"

text \<open>\<open>`${s.length}:${s}`\<close>.\<close>

definition counted :: "jsstr \<Rightarrow> jsstr" where
  "counted s = decimal (length s) @ [58] @ s"

definition serviceTupleIdentity :: "service_instance \<Rightarrow> jsstr" where
  "serviceTupleIdentity i = counted (si_name i) @ counted (si_version i)"

definition compareServiceTuples :: "service_instance \<Rightarrow> service_instance \<Rightarrow> int" where
  "compareServiceTuples left right =
     (let byName = compareCodePoints (si_name left) (si_name right) in
      if byName = 0 then compareCodePoints (si_version left) (si_version right) else byName)"

definition selectionDomain :: "service_instance list \<Rightarrow> jsstr" where
  "selectionDomain instances =
     (let unique = foldl (\<lambda>m i. map_set (serviceTupleIdentity i) i m) [] instances;
          tuples = sort_with compareServiceTuples (map snd unique)
      in concat (map (\<lambda>i. counted (serviceTupleIdentity i)) tuples))"

definition endpointIdentity :: "service_endpoint \<Rightarrow> jsstr" where
  "endpointIdentity e =
     counted (si_name (se_instance e)) @ counted (si_version (se_instance e)) @
     counted (si_id (se_instance e)) @ counted (se_url e)"

text \<open>\<open>items.reduce\<close> without a start value.\<close>

definition itemAt :: "'a list \<Rightarrow> nat \<Rightarrow> 'a" where
  "itemAt items index =
     foldl (\<lambda>selected (position, candidate). if position = index then candidate else selected)
       (hd items) (tl (enumerate 0 items))"

definition MaximumSelectionDomains :: nat where
  "MaximumSelectionDomains = 1024"

definition rememberSelection :: "jsstr \<Rightarrow> 'a \<Rightarrow> (jsstr, 'a) jsmap \<Rightarrow> (jsstr, 'a) jsmap" where
  "rememberSelection domain selection selections =
     (let m = map_delete domain selections;
          m' = (if MaximumSelectionDomains \<le> length m
                then (case m of [] \<Rightarrow> [] | (oldest, _) # _ \<Rightarrow> map_delete oldest m) else m)
      in map_set domain selection m')"

section \<open>Samples\<close>

definition randomSample :: "js_number res \<Rightarrow> rat res" where
  "randomSample random =
     bindE random (\<lambda>v.
     if \<not> isFinite v \<or> num_less v (Fin 0) \<or> \<not> num_less v (Fin 1)
     then Inl (TypeError ''selector random must return a finite number from 0 inclusive to 1 exclusive'')
     else Inr (rat_of v))"

definition sampledIndex :: "rat \<Rightarrow> nat \<Rightarrow> nat" where
  "sampledIndex sample n = nat \<lfloor>sample * of_nat n\<rfloor>"

definition randomIndex :: "js_number res \<Rightarrow> nat \<Rightarrow> nat res" where
  "randomIndex random n = bindE (randomSample random) (\<lambda>sample. Inr (sampledIndex sample n))"

definition monotonicNow :: "js_number res \<Rightarrow> string \<Rightarrow> rat res" where
  "monotonicNow now selector =
     bindE now (\<lambda>v.
     if \<not> isFinite v \<or> num_less v (Fin 0)
     then Inl (TypeError (selector @ '' clock must return a finite non-negative number''))
     else Inr (rat_of v))"

definition selectorInteger :: "js_number option \<Rightarrow> nat \<Rightarrow> nat \<Rightarrow> nat \<Rightarrow> string \<Rightarrow> nat res" where
  "selectorInteger v fallback minimum maximum name =
     (let effective = (case v of None \<Rightarrow> Fin (of_nat fallback) | Some x \<Rightarrow> x) in
      if \<not> isInteger effective \<or> num_less effective (Fin (of_nat minimum)) \<or>
         num_less (Fin (of_nat maximum)) effective
      then Inl (TypeError (name @ '' must be an integer from '' @ decimal_text minimum @ '' to '' @
             decimal_text maximum))
      else Inr (nat (int_of effective)))"

section \<open>Round robin\<close>

text \<open>The part of every \<open>select\<close> before its own policy: the snapshot and its endpoints.\<close>

definition admitSelection ::
    "url \<Rightarrow> 'v world \<Rightarrow> 'v ctx \<Rightarrow> instances_arg \<Rightarrow> (service_instance list \<times> service_endpoint list) res" where
  "admitSelection url w c instances =
     bindE (throwIfCanceled w c) (\<lambda>_.
     bindE (snapshotServiceInstances url instances) (\<lambda>snapshot.
     let endpoints = serviceEndpoints snapshot in
     if length endpoints = 0 then Inl NoAvailableEndpoint else Inr (snapshot, endpoints)))"

fun successor_index :: "service_endpoint list \<Rightarrow> jsstr \<Rightarrow> (nat \<times> service_endpoint) list \<Rightarrow> nat" where
  "successor_index endpoints previous [] = 0"
| "successor_index endpoints previous ((index, e) # entries) =
     (if endpointIdentity e = previous then (index + 1) mod length endpoints
      else successor_index endpoints previous entries)"

definition nextEndpointIndex :: "service_endpoint list \<Rightarrow> jsstr option \<Rightarrow> nat" where
  "nextEndpointIndex endpoints previous =
     (case previous of None \<Rightarrow> 0 | Some p \<Rightarrow> successor_index endpoints p (enumerate 0 endpoints))"

type_synonym round_robin = "(jsstr, jsstr) jsmap"

definition selectRoundRobin ::
    "url \<Rightarrow> 'v world \<Rightarrow> 'v ctx \<Rightarrow> instances_arg \<Rightarrow> round_robin \<Rightarrow> round_robin \<times> service_endpoint res" where
  "selectRoundRobin url w c instances selections =
     (case admitSelection url w c instances of
        Inl e \<Rightarrow> (selections, Inl e)
      | Inr (snapshot, endpoints) \<Rightarrow>
          let domain = selectionDomain snapshot;
              index = nextEndpointIndex endpoints (map_get selections domain);
              selected = itemAt endpoints index
          in (rememberSelection domain (endpointIdentity selected) selections, Inr selected))"

section \<open>Random\<close>

definition selectRandom ::
    "url \<Rightarrow> 'v world \<Rightarrow> 'v ctx \<Rightarrow> instances_arg \<Rightarrow> js_number res \<Rightarrow> service_endpoint res" where
  "selectRandom url w c instances random =
     bindE (admitSelection url w c instances) (\<lambda>(snapshot, endpoints).
     bindE (randomIndex random (length endpoints)) (\<lambda>index. Inr (itemAt endpoints index)))"

section \<open>Weighted round robin\<close>

record weighted_cursor =
  wc_identity :: jsstr
  wc_slot :: nat

definition weightedEndpoints ::
    "service_endpoint list \<Rightarrow> (service_endpoint \<Rightarrow> js_number res) \<Rightarrow> (service_endpoint \<times> nat) list res" where
  "weightedEndpoints endpoints weight =
     mapE (\<lambda>e. bindE (weight e) (\<lambda>v.
       if \<not> isSafeInteger v \<or> \<not> num_less (Fin 0) v
       then Inl (TypeError ''selector weight must return a positive safe integer'')
       else Inr (e, nat (int_of v)))) endpoints"

fun weighted_successor ::
    "(service_endpoint \<times> nat) list \<Rightarrow> weighted_cursor \<Rightarrow> (nat \<times> service_endpoint \<times> nat) list \<Rightarrow>
      (service_endpoint \<times> weighted_cursor) option" where
  "weighted_successor weighted previous [] = None"
| "weighted_successor weighted previous ((index, e, k) # entries) =
     (if endpointIdentity e \<noteq> wc_identity previous then weighted_successor weighted previous entries
      else if wc_slot previous + 1 < k
      then Some (e, \<lparr>wc_identity = wc_identity previous, wc_slot = wc_slot previous + 1\<rparr>)
      else let next = itemAt weighted ((index + 1) mod length weighted) in
        Some (fst next, \<lparr>wc_identity = endpointIdentity (fst next), wc_slot = 0\<rparr>))"

definition nextWeightedChoice ::
    "(service_endpoint \<times> nat) list \<Rightarrow> weighted_cursor option \<Rightarrow> service_endpoint \<times> weighted_cursor" where
  "nextWeightedChoice weighted previous =
     (let first = itemAt weighted 0;
          fresh = (fst first, \<lparr>wc_identity = endpointIdentity (fst first), wc_slot = 0\<rparr>)
      in case previous of
           None \<Rightarrow> fresh
         | Some p \<Rightarrow>
             (case weighted_successor weighted p (enumerate 0 weighted) of Some choice \<Rightarrow> choice | None \<Rightarrow> fresh))"

definition selectWeighted ::
    "url \<Rightarrow> 'v world \<Rightarrow> 'v ctx \<Rightarrow> (service_endpoint \<Rightarrow> js_number res) \<Rightarrow> instances_arg \<Rightarrow>
      (jsstr, weighted_cursor) jsmap \<Rightarrow> (jsstr, weighted_cursor) jsmap \<times> service_endpoint res" where
  "selectWeighted url w c weight instances selections =
     (case bindE (admitSelection url w c instances) (\<lambda>(snapshot, endpoints).
           bindE (weightedEndpoints endpoints weight) (\<lambda>weighted. Inr (selectionDomain snapshot, weighted))) of
        Inl e \<Rightarrow> (selections, Inl e)
      | Inr (domain, weighted) \<Rightarrow>
          (case nextWeightedChoice weighted (map_get selections domain) of
             (selected, next) \<Rightarrow> (rememberSelection domain next selections, Inr selected)))"

section \<open>Identities do not collide\<close>

lemma digit_not_colon: "is_digit u \<Longrightarrow> u \<noteq> 58"
  by (auto simp: is_digit_def)

lemma span_digits:
  "list_all is_digit ds \<Longrightarrow> takeWhile is_digit (ds @ 58 # r) = ds \<and> dropWhile is_digit (ds @ 58 # r) = 58 # r"
  by (induction ds) (auto simp: is_digit_def)

lemma counted_inj: "counted s @ r = counted t @ q \<longleftrightarrow> s = t \<and> r = q"
proof
  assume e: "counted s @ r = counted t @ q"
  have "takeWhile is_digit (counted s @ r) = decimal (length s) \<and> dropWhile is_digit (counted s @ r) = 58 # s @ r"
    for s r using span_digits [of "decimal (length s)" "s @ r"] decimal_value [of "length s"] by (simp add: counted_def)
  from this [of s r] this [of t q] e have "decimal (length s) = decimal (length t)" "s @ r = t @ q" by simp_all
  then show "s = t \<and> r = q" using decimal_inj by simp
qed simp

lemma counted_eq: "counted s = counted t \<longleftrightarrow> s = t"
  using counted_inj [of s "[]" t "[]"] by simp

lemma tuple_identity_eq:
  "serviceTupleIdentity i = serviceTupleIdentity j \<longleftrightarrow> si_name i = si_name j \<and> si_version i = si_version j"
  by (simp add: serviceTupleIdentity_def counted_inj counted_eq)

lemma endpoint_identity_eq:
  "endpointIdentity e = endpointIdentity f \<longleftrightarrow>
     si_name (se_instance e) = si_name (se_instance f) \<and> si_version (se_instance e) = si_version (se_instance f) \<and>
     si_id (se_instance e) = si_id (se_instance f) \<and> se_url e = se_url f"
  by (simp add: endpointIdentity_def counted_inj counted_eq)

lemma counted_not_Nil [simp]: "counted s \<noteq> []"
  by (simp add: counted_def)

lemma concat_counted_inj: "concat (map counted xs) = concat (map counted ys) \<Longrightarrow> xs = ys"
proof (induction xs arbitrary: ys)
  case Nil
  then show ?case by (cases ys) auto
next
  case (Cons x xs)
  then show ?case by (cases ys) (auto simp: counted_inj)
qed

definition tuple_key :: "service_instance \<Rightarrow> nat list list" where
  "tuple_key i = [code_points (si_name i), code_points (si_version i)]"

lemma tuple_key_eq: "tuple_key i = tuple_key j \<longleftrightarrow> serviceTupleIdentity i = serviceTupleIdentity j"
  by (simp add: tuple_key_def code_points_eq tuple_identity_eq)

lemma compareServiceTuples_le: "compareServiceTuples l r \<le> 0 \<longleftrightarrow> tuple_key l \<le> tuple_key r"
  by (auto simp: compareServiceTuples_def Let_def compareCodePoints_sign order_sign_def tuple_key_def split: if_splits)

lemma unique_tuples:
  fixes f :: "'a \<Rightarrow> jsstr"
  assumes "\<forall>(k, i) \<in> set m. k = f i" "distinct (map fst m)"
  shows "(\<forall>(k, i) \<in> set (foldl (\<lambda>m i. map_set (f i) i m) m is). k = f i) \<and>
    distinct (map fst (foldl (\<lambda>m i. map_set (f i) i m) m is)) \<and>
    fst ` set (foldl (\<lambda>m i. map_set (f i) i m) m is) = fst ` set m \<union> f ` set is"
  using assms
proof (induction "is" arbitrary: m)
  case (Cons i "is")
  have "\<forall>(k, j) \<in> set (map_set (f i) i m). k = f j"
  proof
    fix e assume "e \<in> set (map_set (f i) i m)"
    then have "e = (f i, i) \<or> e \<in> set m" by (induction m) (auto split: if_splits)
    then show "case e of (k, j) \<Rightarrow> k = f j" using Cons.prems(1) by auto
  qed
  moreover have "distinct (map fst (map_set (f i) i m))" using Cons.prems(2) by (rule distinct_update)
  moreover have "fst ` set (map_set (f i) i m) = insert (f i) (fst ` set m)" by (simp add: dom_update flip: dom_map_of_conv_image_fst)
  ultimately show ?case using Cons.IH [of "map_set (f i) i m"] by auto
qed simp

lemma map_sort_key: "map key (sort_key key xs) = sort (map key xs)"
  by (rule properties_for_sort [symmetric]) simp_all

lemma same_tuples:
  assumes "serviceTupleIdentity ` A = serviceTupleIdentity ` B"
  shows "tuple_key ` A = tuple_key ` B"
proof -
  have "tuple_key x \<in> tuple_key ` B" if "serviceTupleIdentity ` A \<subseteq> serviceTupleIdentity ` B" "x \<in> A" for A B x
  proof -
    obtain y where "y \<in> B" "serviceTupleIdentity x = serviceTupleIdentity y" using \<open>_ \<subseteq> _\<close> \<open>x \<in> A\<close> by blast
    then show ?thesis using tuple_key_eq [of x y] by auto
  qed
  from this [of A B] this [of B A] show ?thesis using assms by auto
qed

lemma sorted_set_list: "distinct L \<Longrightarrow> sorted L \<Longrightarrow> set L = S \<Longrightarrow> L = sorted_list_of_set S"
  using sorted_list_of_set.idem_if_sorted_distinct [of L] by simp

lemma map_determines:
  assumes "\<And>x y. f x = f y \<Longrightarrow> g x = g y" "map f xs = map f ys"
  shows "map g xs = map g ys"
  using assms(2)
proof (induction xs arbitrary: ys)
  case (Cons x xs)
  then obtain y zs where "ys = y # zs" "f x = f y" "map f xs = map f zs" by (cases ys) auto
  then show ?case using Cons.IH [of zs] assms(1) [of x y] by simp
qed simp

text \<open>The identities in a domain are those of its tuples, once each, in an order that depends on the set only.\<close>

lemma selectionDomain_tuples:
  "\<exists>ts. selectionDomain xs = concat (map counted (map serviceTupleIdentity ts)) \<and>
     serviceTupleIdentity ` set ts = serviceTupleIdentity ` set xs \<and>
     map tuple_key ts = sorted_list_of_set (tuple_key ` set xs)"
proof -
  let ?m = "foldl (\<lambda>m i. map_set (serviceTupleIdentity i) i m) [] xs"
  let ?ts = "sort_key tuple_key (map snd ?m)"
  have u: "\<forall>(k, i) \<in> set ?m. k = serviceTupleIdentity i" "distinct (map fst ?m)"
    "fst ` set ?m = serviceTupleIdentity ` set xs"
    using unique_tuples [of "[]" serviceTupleIdentity xs] by auto
  have e: "map serviceTupleIdentity (map snd ?m) = map fst ?m" using u(1) by (auto simp: case_prod_beta)
  then have d: "distinct (map serviceTupleIdentity (map snd ?m))" using u(2) by (simp only: e)
  have i: "serviceTupleIdentity ` set (map snd ?m) = serviceTupleIdentity ` set xs"
    using arg_cong [OF e, of set] u(3) by (simp only: set_map)
  have "distinct (map tuple_key (map snd ?m))"
    using d by (simp add: distinct_map inj_on_def tuple_key_eq del: map_map)
  then have "distinct (map tuple_key ?ts)" by (simp add: map_sort_key del: map_map)
  moreover have "sorted (map tuple_key ?ts)" by simp
  moreover have "set (map tuple_key ?ts) = tuple_key ` set xs"
    using same_tuples [OF i] by (simp only: set_map set_sort)
  ultimately have "map tuple_key ?ts = sorted_list_of_set (tuple_key ` set xs)"
    by (rule sorted_set_list)
  moreover have "selectionDomain xs = concat (map counted (map serviceTupleIdentity ?ts))"
    by (simp add: selectionDomain_def Let_def sort_with_key [of _ compareServiceTuples tuple_key] compareServiceTuples_le comp_def)
  moreover have "serviceTupleIdentity ` set ?ts = serviceTupleIdentity ` set xs" using i by simp
  ultimately show ?thesis by blast
qed

lemma selectionDomain_eq:
  "selectionDomain xs = selectionDomain ys \<longleftrightarrow> serviceTupleIdentity ` set xs = serviceTupleIdentity ` set ys"
proof
  obtain ts where ts: "selectionDomain xs = concat (map counted (map serviceTupleIdentity ts))"
      "serviceTupleIdentity ` set ts = serviceTupleIdentity ` set xs"
      "map tuple_key ts = sorted_list_of_set (tuple_key ` set xs)" using selectionDomain_tuples by blast
  obtain us where us: "selectionDomain ys = concat (map counted (map serviceTupleIdentity us))"
      "serviceTupleIdentity ` set us = serviceTupleIdentity ` set ys"
      "map tuple_key us = sorted_list_of_set (tuple_key ` set ys)" using selectionDomain_tuples by blast
  show "serviceTupleIdentity ` set xs = serviceTupleIdentity ` set ys" if "selectionDomain xs = selectionDomain ys"
  proof -
    have "map serviceTupleIdentity ts = map serviceTupleIdentity us"
      using that ts(1) us(1) by (intro concat_counted_inj) simp
    then show ?thesis using ts(2) us(2) by (metis list.set_map)
  qed
  assume e: "serviceTupleIdentity ` set xs = serviceTupleIdentity ` set ys"
  have "map tuple_key ts = map tuple_key us" using ts(3) us(3) same_tuples [OF e] by simp
  then have "map serviceTupleIdentity ts = map serviceTupleIdentity us"
    by (rule map_determines [rotated]) (simp add: tuple_key_eq)
  then show "selectionDomain xs = selectionDomain ys" using ts(1) us(1) by simp
qed

section \<open>Picking and remembering\<close>

lemma itemAt_nth: "i < length xs \<Longrightarrow> itemAt xs i = xs ! i"
proof -
  have f: "foldl (\<lambda>sel (p, c). if p = i then c else sel) d (enumerate n ys) =
      (if n \<le> i \<and> i < n + length ys then ys ! (i - n) else d)" for d :: 'a and n and ys :: "'a list"
  proof (induction ys arbitrary: d n)
    case (Cons y ys)
    then show ?case by (auto simp: nth_Cons' Suc_diff_le split: if_splits)
  qed auto
  assume "i < length xs"
  then show ?thesis by (cases xs) (auto simp: itemAt_def f nth_Cons')
qed

lemma successor_index_hit:
  "i < length es \<Longrightarrow> endpointIdentity (es ! i) = p \<Longrightarrow> \<forall>j < i. endpointIdentity (es ! j) \<noteq> p \<Longrightarrow>
    successor_index E p (enumerate k es) = (k + i + 1) mod length E"
proof (induction es arbitrary: i k)
  case (Cons e es)
  show ?case
  proof (cases i)
    case (Suc j)
    have "endpointIdentity e \<noteq> p" using Cons.prems(3) Suc by auto
    moreover have "\<forall>l < j. endpointIdentity (es ! l) \<noteq> p" using Cons.prems(3) Suc by (metis Suc_mono nth_Cons_Suc)
    ultimately show ?thesis using Cons.IH [of j "Suc k"] Cons.prems Suc by simp
  qed (use Cons.prems in simp)
qed simp

lemma successor_index_miss:
  "p \<notin> endpointIdentity ` set es \<Longrightarrow> successor_index E p (enumerate k es) = 0"
  by (induction es arbitrary: k) auto

lemma distinct_first: "distinct (map f es) \<Longrightarrow> i < length es \<Longrightarrow> j < i \<Longrightarrow> f (es ! j) \<noteq> f (es ! i)"
  by (auto simp: distinct_conv_nth)

text \<open>What is remembered of a domain, and after how many other domains.\<close>

definition held :: "jsstr \<Rightarrow> 'a \<Rightarrow> nat \<Rightarrow> (jsstr, 'a) jsmap \<Rightarrow> bool" where
  "held d x k m \<longleftrightarrow> (\<exists>A B. m = A @ (d, x) # B \<and> d \<notin> fst ` set A \<and> length B \<le> k)"

lemma held_get: "held d x k m \<Longrightarrow> map_get m d = Some x"
  by (auto simp: held_def map_add_def map_of_eq_None_iff [THEN iffD2] split: option.splits)

lemma map_set_new: "d \<notin> fst ` set m \<Longrightarrow> map_set d v m = m @ [(d, v)]"
  by (induction m) auto

lemma map_delete_app: "map_delete d (A @ B) = map_delete d A @ map_delete d B"
  by (induction A) auto

lemma length_delete_le: "length (map_delete d A) \<le> length A"
  by (induction A) auto

lemma fst_delete: "fst ` set (map_delete d A) = fst ` set A - {d}"
  by (induction A) auto

lemma evict_keys:
  "fst ` set (if b then (case m of [] \<Rightarrow> [] | (oldest, _) # _ \<Rightarrow> map_delete oldest m) else m) \<subseteq> fst ` set m"
proof (cases m)
  case (Cons e es)
  obtain k v where "e = (k, v)" by fastforce
  then show ?thesis using Cons fst_delete [of k es] by auto
qed simp

lemma held_remembered: "held d x 0 (rememberSelection d x m)"
proof -
  let ?m = "map_delete d m"
  let ?m' = "if MaximumSelectionDomains \<le> length ?m
      then (case ?m of [] \<Rightarrow> [] | (oldest, _) # _ \<Rightarrow> map_delete oldest ?m) else ?m"
  have "d \<notin> fst ` set ?m'" using evict_keys [of "MaximumSelectionDomains \<le> length ?m" ?m] fst_delete [of d m] by blast
  then show ?thesis unfolding rememberSelection_def held_def Let_def by (subst map_set_new) auto
qed

lemma held_kept:
  assumes "held d x k m" "d' \<noteq> d" "Suc k < MaximumSelectionDomains"
  shows "held d x (Suc k) (rememberSelection d' v m)"
proof -
  obtain A B where m: "m = A @ (d, x) # B" "d \<notin> fst ` set A" "length B \<le> k" using assms(1) by (auto simp: held_def)
  let ?A = "map_delete d' A" and ?B = "map_delete d' B"
  have d: "map_delete d' m = ?A @ (d, x) # ?B" using assms(2) by (simp add: m(1) map_delete_app)
  have b: "length ?B \<le> k" using m(3) length_delete_le [of d' B] by linarith
  let ?m' = "if MaximumSelectionDomains \<le> length (map_delete d' m)
      then (case map_delete d' m of [] \<Rightarrow> [] | (oldest, _) # _ \<Rightarrow> map_delete oldest (map_delete d' m))
      else map_delete d' m"
  have "held d x k ?m'"
  proof (cases "MaximumSelectionDomains \<le> length (map_delete d' m)")
    case True
    then have "?A \<noteq> []" using b assms(3) unfolding d by auto
    then obtain o' y A' where A: "?A = (o', y) # A'" by (cases ?A) auto
    have "o' \<in> fst ` set ?A" unfolding A by simp
    then have od: "o' \<noteq> d" using m(2) by (auto simp: fst_delete)
    have "?m' = map_delete o' ?A @ (d, x) # map_delete o' ?B"
      using True od unfolding d by (simp add: A map_delete_app)
    moreover have "d \<notin> fst ` set (map_delete o' ?A)" using m(2) by (simp add: fst_delete)
    moreover have "length (map_delete o' ?B) \<le> k" using b length_delete_le [of o' ?B] by linarith
    ultimately show ?thesis unfolding held_def by blast
  next
    case False
    moreover have "d \<notin> fst ` set ?A" using m(2) by (simp add: fst_delete)
    ultimately show ?thesis unfolding held_def d using b by auto
  qed
  then obtain A' B' where h: "?m' = A' @ (d, x) # B'" "d \<notin> fst ` set A'" "length B' \<le> k" by (auto simp: held_def)
  have "d' \<notin> fst ` set ?m'"
    using evict_keys [of "MaximumSelectionDomains \<le> length (map_delete d' m)" "map_delete d' m"] fst_delete [of d' m]
    by blast
  then have "rememberSelection d' v m = (A' @ (d, x) # B') @ [(d', v)]"
    unfolding rememberSelection_def Let_def h(1) [symmetric] by (rule map_set_new)
  then show ?thesis using h(2,3) unfolding held_def by (intro exI [of _ A'] exI [of _ "B' @ [(d', v)]"]) simp
qed

section \<open>Endpoints of a snapshot\<close>

text \<open>A published array came from \<open>snapshotServiceInstances\<close>.\<close>

definition arg_ok :: "url \<Rightarrow> instances_arg \<Rightarrow> bool" where
  "arg_ok url a \<longleftrightarrow>
     (case a of Unpublished _ \<Rightarrow> True | Published vs \<Rightarrow> \<exists>us. snapshotServiceInstances url (Unpublished us) = Inr vs)"

lemma admitted_snapshot:
  assumes "arg_ok url a" "admitSelection url w c a = Inr (snap, es)"
  shows "\<exists>us. snapshotServiceInstances url (Unpublished us) = Inr snap" "es = serviceEndpoints snap" "es \<noteq> []"
proof -
  have s: "snapshotServiceInstances url a = Inr snap" "es = serviceEndpoints snap" "es \<noteq> []"
    using assms(2) by (auto simp: admitSelection_def js_res Let_def split: if_splits)
  then show "es = serviceEndpoints snap" "es \<noteq> []" by simp_all
  show "\<exists>us. snapshotServiceInstances url (Unpublished us) = Inr snap"
    using s(1) assms(1) by (cases a) (auto simp: arg_ok_def snapshotServiceInstances_def)
qed

lemma distinct_endpoints:
  "distinct (map instance_identity ys) \<Longrightarrow> \<forall>s \<in> set ys. distinct (si_endpoints s) \<Longrightarrow>
    distinct (map endpointIdentity (serviceEndpoints ys))"
proof (induction ys)
  case (Cons y ys)
  have "distinct (map endpointIdentity (map (\<lambda>u. \<lparr>se_instance = y, se_url = u\<rparr>) (si_endpoints y)))"
    using Cons.prems(2) by (auto simp: distinct_map inj_on_def endpoint_identity_eq)
  moreover have "endpointIdentity \<lparr>se_instance = y, se_url = u\<rparr> \<notin> endpointIdentity ` set (serviceEndpoints ys)" for u
  proof
    assume "endpointIdentity \<lparr>se_instance = y, se_url = u\<rparr> \<in> endpointIdentity ` set (serviceEndpoints ys)"
    then obtain z where "z \<in> set ys" "si_name y = si_name z" "si_id y = si_id z"
      by (auto simp: serviceEndpoints_def endpoint_identity_eq)
    then have "instance_identity y \<in> instance_identity ` set ys" using identity_eq [of y z] by auto
    then show False using Cons.prems(1) by auto
  qed
  moreover have "distinct (map endpointIdentity (serviceEndpoints ys))" using Cons by simp
  moreover have "serviceEndpoints (y # ys) =
      map (\<lambda>u. \<lparr>se_instance = y, se_url = u\<rparr>) (si_endpoints y) @ serviceEndpoints ys"
    by (simp add: serviceEndpoints_def)
  ultimately show ?case by (auto simp del: map_map)
qed (simp add: serviceEndpoints_def)

lemma admitted_distinct:
  assumes "url_canonical url" "arg_ok url a" "admitSelection url w c a = Inr (snap, es)"
  shows "distinct (map endpointIdentity es)"
proof -
  obtain us where u: "snapshotServiceInstances url (Unpublished us) = Inr snap" "es = serviceEndpoints snap"
    using admitted_snapshot [OF assms(2,3)] by blast
  have "\<forall>s \<in> set snap. distinct (si_endpoints s)"
    using snapshots_ok(1) [OF assms(1) u(1)] by (simp add: instance_ok_def)
  then show ?thesis unfolding u(2) by (rule distinct_endpoints [OF snapshots_ok(2) [OF assms(1) u(1)]])
qed

section \<open>Round robin is fair\<close>

lemma next_index_hit:
  "distinct (map endpointIdentity es) \<Longrightarrow> i < length es \<Longrightarrow>
    nextEndpointIndex es (Some (endpointIdentity (es ! i))) = (i + 1) mod length es"
  using successor_index_hit [of i es "endpointIdentity (es ! i)" es 0] distinct_first [of endpointIdentity es i]
  by (simp add: nextEndpointIndex_def)

lemma next_index_less: "es \<noteq> [] \<Longrightarrow> nextEndpointIndex es p < length es"
proof -
  assume "es \<noteq> []"
  then have "successor_index es q xs < length es" for q xs by (induction xs) auto
  then show ?thesis using \<open>es \<noteq> []\<close> by (simp add: nextEndpointIndex_def split: option.splits)
qed

lemma round_robin_select:
  assumes "admitSelection url w c a = Inr (snap, es)"
  shows "\<exists>i < length es. i = nextEndpointIndex es (map_get m (selectionDomain snap)) \<and>
    selectRoundRobin url w c a m =
      (rememberSelection (selectionDomain snap) (endpointIdentity (es ! i)) m, Inr (es ! i))"
proof -
  have "es \<noteq> []" using assms by (auto simp: admitSelection_def js_res Let_def split: if_splits)
  then show ?thesis
    using next_index_less [of es] by (simp add: selectRoundRobin_def assms Let_def itemAt_nth)
qed

fun round_robin_calls ::
    "url \<Rightarrow> ('v world \<times> 'v ctx \<times> instances_arg) list \<Rightarrow> round_robin \<Rightarrow> round_robin \<times> service_endpoint res list" where
  "round_robin_calls url [] m = (m, [])"
| "round_robin_calls url ((w, c, a) # calls) m =
     (case selectRoundRobin url w c a m of (m', r) \<Rightarrow>
        (case round_robin_calls url calls m' of (m'', rs) \<Rightarrow> (m'', r # rs)))"

lemma round_robin_calls_Cons:
  "snd (round_robin_calls url ((w, c, a) # calls) m) =
    snd (selectRoundRobin url w c a m) # snd (round_robin_calls url calls (fst (selectRoundRobin url w c a m)))"
  "fst (round_robin_calls url ((w, c, a) # calls) m) =
    fst (round_robin_calls url calls (fst (selectRoundRobin url w c a m)))"
  by (simp_all split: prod.splits)

definition other_domain :: "url \<Rightarrow> jsstr \<Rightarrow> 'v world \<times> 'v ctx \<times> instances_arg \<Rightarrow> bool" where
  "other_domain url d call \<longleftrightarrow>
     (case call of (w, c, a) \<Rightarrow>
        (case admitSelection url w c a of Inl _ \<Rightarrow> True | Inr (snap, _) \<Rightarrow> selectionDomain snap \<noteq> d))"

lemma held_mono: "held d x k m \<Longrightarrow> k \<le> n \<Longrightarrow> held d x n m"
  unfolding held_def by force

lemma held_calls:
  assumes "held d x k m" "\<forall>call \<in> set calls. other_domain url d call" "k + length calls < MaximumSelectionDomains"
  shows "held d x (k + length calls) (fst (round_robin_calls url calls m))"
  using assms
proof (induction calls arbitrary: k m)
  case (Cons call calls)
  obtain w c a where call: "call = (w, c, a)" using prod_cases3 by blast
  obtain m' r where s: "selectRoundRobin url w c a m = (m', r)" by fastforce
  have "held d x (Suc k) m'"
  proof (cases "admitSelection url w c a")
    case (Inl e)
    then have "m' = m" using s by (simp add: selectRoundRobin_def)
    then show ?thesis using held_mono [OF Cons.prems(1), of "Suc k"] by simp
  next
    case (Inr p)
    obtain snap es where p: "admitSelection url w c a = Inr (snap, es)" using Inr by (cases p) auto
    then have "selectionDomain snap \<noteq> d" using Cons.prems(2) call by (simp add: other_domain_def)
    then show ?thesis
      using round_robin_select [OF p, of m] s held_kept [OF Cons.prems(1), of "selectionDomain snap"] Cons.prems(3) by auto
  qed
  then show ?case
    using Cons.IH [of "Suc k" m'] Cons.prems(2,3) s by (auto simp: call split: prod.splits)
qed simp

lemma rotation_step:
  assumes "distinct (map endpointIdentity es)" "admitSelection url w c a = Inr (snap, es)" "i < length es"
    and "map_get m (selectionDomain snap) = Some (endpointIdentity (es ! i))"
  shows "snd (round_robin_calls url (replicate n (w, c, a)) m) =
    map (\<lambda>k. Inr (es ! ((i + 1 + k) mod length es))) [0..<n]"
  using assms(3,4)
proof (induction n arbitrary: i m)
  case (Suc n)
  let ?j = "(i + 1) mod length es"
  have j: "?j < length es" using Suc.prems(1) by (intro mod_less_divisor) auto
  have sel: "selectRoundRobin url w c a m =
      (rememberSelection (selectionDomain snap) (endpointIdentity (es ! ?j)) m, Inr (es ! ?j))"
    using round_robin_select [OF assms(2), of m] next_index_hit [OF assms(1) Suc.prems(1)] Suc.prems(2) by auto
  have "(?j + 1 + k) mod length es = (i + 1 + Suc k) mod length es" for k
    by (metis add.assoc add.commute mod_add_left_eq plus_1_eq_Suc)
  then have "snd (round_robin_calls url (replicate n (w, c, a))
      (rememberSelection (selectionDomain snap) (endpointIdentity (es ! ?j)) m)) =
      map (\<lambda>k. Inr (es ! ((i + 1 + Suc k) mod length es))) [0..<n]"
    using Suc.IH [OF j held_get [OF held_remembered]] by simp
  then show ?case
    by (simp add: sel round_robin_calls_Cons map_upt_Suc del: upt_Suc round_robin_calls.simps)
qed simp


lemma sample_code_units: "isWellFormed [97, 58]" "isWellFormed [97, 58, 98]" "isWellFormed [98]" "isWellFormed [110]"
  by (simp_all add: is_high_def is_low_def)

lemma sample_snapshot:
  "snapshotServiceInstances sample_url (Unpublished [sample_instance 98 [[97, 58], [97, 58, 98]]]) =
    Inr [sample_instance 98 [[97, 58], [97, 58, 98]]]"
proof -
  have "instance_ok sample_url (sample_instance 98 [[97, 58], [97, 58, 98]])"
    using sample_code_units by (auto simp: instance_ok_def sample_instance_def text_ok_def fromEntries_def endpoint_def
        text_value_def sample_url_def is_high_def is_low_def)
  then show ?thesis
    using snapshot_published [of "[sample_instance 98 [[97, 58], [97, 58, 98]]]" sample_url] by simp
qed

definition sample_endpoints :: "service_endpoint list" where
  "sample_endpoints = serviceEndpoints [sample_instance 98 [[97, 58], [97, 58, 98]]]"

lemma sample_live: "throwIfCanceled initial_world background = Inr ()"
  by (simp add: throwIfCanceled_def background_def initial_world_def newEmptyContext_def)

lemma sample_admitted:
  "admitSelection sample_url initial_world background (Unpublished [sample_instance 98 [[97, 58], [97, 58, 98]]]) =
    Inr ([sample_instance 98 [[97, 58], [97, 58, 98]]], sample_endpoints)"
  by (simp only: admitSelection_def sample_live sample_snapshot bindE_simps Let_def sample_endpoints_def)
    (simp add: serviceEndpoints_def sample_instance_def)


section \<open>Weighted slots\<close>

text \<open>One cycle of a weighted selector: every endpoint with its slots, in order.\<close>

definition slots :: "(service_endpoint \<times> nat) list \<Rightarrow> (service_endpoint \<times> nat) list" where
  "slots ws = concat (map (\<lambda>(e, k). map (\<lambda>j. (e, j)) [0..<k]) ws)"

definition cursor_at :: "service_endpoint \<times> nat \<Rightarrow> service_endpoint \<times> weighted_cursor" where
  "cursor_at s = (fst s, \<lparr>wc_identity = endpointIdentity (fst s), wc_slot = snd s\<rparr>)"

lemma slots_append: "slots (xs @ ys) = slots xs @ slots ys"
  by (simp add: slots_def)

lemma slots_at:
  assumes "i < length ws" "j < snd (ws ! i)"
  shows "length (slots (take i ws)) + j < length (slots ws)"
    "slots ws ! (length (slots (take i ws)) + j) = (fst (ws ! i), j)"
    "j + 1 = snd (ws ! i) \<Longrightarrow> length (slots (take i ws)) + j + 1 = length (slots (take (i + 1) ws))"
proof -
  obtain e k where e: "ws ! i = (e, k)" by fastforce
  have "slots ws = slots (take i ws) @ slots [ws ! i] @ slots (drop (Suc i) ws)"
    using id_take_nth_drop [OF assms(1)] slots_append by (metis append.left_neutral append_Cons)
  moreover have "slots [ws ! i] = map (\<lambda>j. (e, j)) [0..<k]" by (simp add: slots_def e)
  ultimately show "length (slots (take i ws)) + j < length (slots ws)"
    "slots ws ! (length (slots (take i ws)) + j) = (fst (ws ! i), j)"
    using assms(2) by (simp_all add: e nth_append)
  show "j + 1 = snd (ws ! i) \<Longrightarrow> length (slots (take i ws)) + j + 1 = length (slots (take (i + 1) ws))"
    using assms(1) by (simp add: take_Suc_conv_app_nth slots_append) (simp add: slots_def e)
qed

lemma slots_index:
  "p < length (slots ws) \<Longrightarrow> \<exists>i j. i < length ws \<and> j < snd (ws ! i) \<and> p = length (slots (take i ws)) + j"
proof (induction ws arbitrary: p)
  case (Cons x ws)
  obtain e k where x: "x = (e, k)" by fastforce
  have l: "length (slots (x # ys)) = k + length (slots ys)" for ys by (simp add: slots_def x)
  show ?case
  proof (cases "p < k")
    case True
    then show ?thesis by (intro exI [of _ 0] exI [of _ p]) (simp add: x slots_def)
  next
    case False
    then have "p - k < length (slots ws)" using Cons.prems l [of ws] by simp
    then obtain i j where "i < length ws" "j < snd (ws ! i)" "p - k = length (slots (take i ws)) + j"
      using Cons.IH by blast
    then show ?thesis using False l [of "take i ws"] by (intro exI [of _ "Suc i"] exI [of _ j]) simp
  qed
qed (simp add: slots_def)

lemma weighted_successor_hit:
  "i < length ws \<Longrightarrow> endpointIdentity (fst (ws ! i)) = wc_identity p \<Longrightarrow>
    \<forall>j < i. endpointIdentity (fst (ws ! j)) \<noteq> wc_identity p \<Longrightarrow>
    weighted_successor W p (enumerate k ws) =
      (if wc_slot p + 1 < snd (ws ! i)
       then Some (fst (ws ! i), \<lparr>wc_identity = wc_identity p, wc_slot = wc_slot p + 1\<rparr>)
       else Some (cursor_at (fst (itemAt W ((k + i + 1) mod length W)), 0)))"
proof (induction ws arbitrary: i k)
  case (Cons x ws)
  obtain e n where x: "x = (e, n)" by fastforce
  show ?case
  proof (cases i)
    case 0
    then show ?thesis using Cons.prems by (simp add: x cursor_at_def Let_def)
  next
    case (Suc j)
    have "endpointIdentity e \<noteq> wc_identity p" using Cons.prems(3) Suc x by auto
    moreover have "\<forall>l < j. endpointIdentity (fst (ws ! l)) \<noteq> wc_identity p"
      using Cons.prems(3) Suc by (metis Suc_mono nth_Cons_Suc)
    ultimately show ?thesis using Cons.IH [of j "Suc k"] Cons.prems Suc by (simp add: x)
  qed
qed simp

lemma weighted_successor_miss:
  "wc_identity p \<notin> (endpointIdentity \<circ> fst) ` set ws \<Longrightarrow> weighted_successor W p (enumerate k ws) = None"
  by (induction ws arbitrary: k) (auto simp: split: prod.splits)

lemma slot_zero:
  assumes "\<forall>(e, k) \<in> set ws. 0 < k" "i < length ws"
  shows "length (slots (take i ws)) < length (slots ws)" "slots ws ! length (slots (take i ws)) = (fst (ws ! i), 0)"
proof -
  have "0 < snd (ws ! i)" using assms by (metis case_prod_conv nth_mem prod.collapse)
  then show "length (slots (take i ws)) < length (slots ws)" "slots ws ! length (slots (take i ws)) = (fst (ws ! i), 0)"
    using slots_at(1,2) [OF assms(2), of 0] by simp_all
qed

lemma weighted_next:
  assumes "\<forall>(e, k) \<in> set ws. 0 < k" "distinct (map (endpointIdentity \<circ> fst) ws)" "p < length (slots ws)"
  shows "nextWeightedChoice ws (Some (snd (cursor_at (slots ws ! p)))) =
    cursor_at (slots ws ! ((p + 1) mod length (slots ws)))"
proof -
  obtain i j where i: "i < length ws" "j < snd (ws ! i)" "p = length (slots (take i ws)) + j"
    using slots_index [OF assms(3)] by blast
  have c: "snd (cursor_at (slots ws ! p)) = \<lparr>wc_identity = endpointIdentity (fst (ws ! i)), wc_slot = j\<rparr>"
    using slots_at(2) [OF i(1,2)] i(3) by (simp add: cursor_at_def)
  have "\<forall>l < i. endpointIdentity (fst (ws ! l)) \<noteq> endpointIdentity (fst (ws ! i))"
    using distinct_first [OF assms(2) i(1)] by simp
  then have n: "nextWeightedChoice ws (Some (snd (cursor_at (slots ws ! p)))) =
      (if j + 1 < snd (ws ! i) then cursor_at (fst (ws ! i), j + 1)
       else cursor_at (fst (itemAt ws ((i + 1) mod length ws)), 0))"
    using weighted_successor_hit [of i ws "\<lparr>wc_identity = endpointIdentity (fst (ws ! i)), wc_slot = j\<rparr>" ws 0] i(1)
    unfolding c nextWeightedChoice_def by (simp add: cursor_at_def Let_def)
  show ?thesis
  proof (cases "j + 1 < snd (ws ! i)")
    case True
    then have "p + 1 < length (slots ws)" "slots ws ! (p + 1) = (fst (ws ! i), j + 1)"
      using slots_at(1,2) [OF i(1) True] i(3) by simp_all
    then show ?thesis using n True by simp
  next
    case False
    then have p: "p + 1 = length (slots (take (i + 1) ws))" using slots_at(3) [OF i(1,2)] i by simp
    show ?thesis
    proof (cases "i + 1 < length ws")
      case more: True
      then show ?thesis using n False p slot_zero [OF assms(1) more] by (simp add: itemAt_nth)
    next
      case last: False
      then have l: "length ws = i + 1" using i(1) by simp
      then have "0 < length ws" "p + 1 = length (slots ws)" using p by simp_all
      then show ?thesis using n False slot_zero [OF assms(1), of 0] l by (simp add: itemAt_nth slots_def)
    qed
  qed
qed

lemma weighted_choice_slot:
  assumes "\<forall>(e, k) \<in> set ws. 0 < k" "ws \<noteq> []"
  shows "\<exists>p < length (slots ws). nextWeightedChoice ws c = cursor_at (slots ws ! p)"
proof -
  have zero: "\<exists>p < length (slots ws). cursor_at (fst (itemAt ws i), 0) = cursor_at (slots ws ! p)" if "i < length ws" for i
    using slot_zero [OF assms(1) that] itemAt_nth [OF that] by metis
  have fresh: "cursor_at (fst (itemAt ws 0), 0) =
      (fst (itemAt ws 0), \<lparr>wc_identity = endpointIdentity (fst (itemAt ws 0)), wc_slot = 0\<rparr>)"
    by (simp add: cursor_at_def)
  show ?thesis
  proof (cases c)
    case None
    then show ?thesis using zero [of 0] assms(2) fresh by (simp add: nextWeightedChoice_def Let_def)
  next
    case (Some p)
    show ?thesis
    proof (cases "wc_identity p \<in> (endpointIdentity \<circ> fst) ` set ws")
      case True
      then obtain x where "x \<in> set ws" "endpointIdentity (fst x) = wc_identity p" by auto
      then obtain j where j: "j < length ws \<and> endpointIdentity (fst (ws ! j)) = wc_identity p"
        by (metis in_set_conv_nth)
      define i where "i = (LEAST j. j < length ws \<and> endpointIdentity (fst (ws ! j)) = wc_identity p)"
      have i: "i < length ws" "endpointIdentity (fst (ws ! i)) = wc_identity p"
        using LeastI [of "\<lambda>j. j < length ws \<and> endpointIdentity (fst (ws ! j)) = wc_identity p", OF j]
        by (simp_all add: i_def)
      have "\<forall>l < i. endpointIdentity (fst (ws ! l)) \<noteq> wc_identity p"
        using not_less_Least i(1) unfolding i_def by (metis (mono_tags, lifting) less_trans)
      note hit = weighted_successor_hit [OF i this, of ws 0]
      show ?thesis
      proof (cases "wc_slot p + 1 < snd (ws ! i)")
        case True
        then have "nextWeightedChoice ws c = cursor_at (fst (ws ! i), wc_slot p + 1)"
          using hit Some i(2) by (simp add: nextWeightedChoice_def cursor_at_def)
        then show ?thesis using slots_at(1,2) [OF i(1) True] by metis
      next
        case False
        then have "nextWeightedChoice ws c = cursor_at (fst (itemAt ws ((i + 1) mod length ws)), 0)"
          using hit Some by (simp add: nextWeightedChoice_def)
        moreover have "(i + 1) mod length ws < length ws" using assms(2) by simp
        ultimately show ?thesis using zero by metis
      qed
    next
      case False
      then show ?thesis
        using Some zero [of 0] assms(2) fresh weighted_successor_miss [of p ws ws 0]
        by (simp add: nextWeightedChoice_def Let_def)
    qed
  qed
qed

fun weighted_calls ::
    "nat \<Rightarrow> ((jsstr, weighted_cursor) jsmap \<Rightarrow> (jsstr, weighted_cursor) jsmap \<times> service_endpoint res) \<Rightarrow>
      (jsstr, weighted_cursor) jsmap \<Rightarrow> service_endpoint res list" where
  "weighted_calls 0 select m = []"
| "weighted_calls (Suc n) select m = snd (select m) # weighted_calls n select (fst (select m))"

lemma weightedEndpoints_Inr:
  "weightedEndpoints es weight = Inr ws \<Longrightarrow> map fst ws = es \<and> (\<forall>(e, k) \<in> set ws. 0 < k)"
proof (induction es arbitrary: ws)
  case (Cons e es)
  then obtain v ws' where v: "weight e = Inr v" "isSafeInteger v" "num_less (Fin 0) v" "ws = (e, nat (int_of v)) # ws'"
      "weightedEndpoints es weight = Inr ws'"
    by (auto simp: weightedEndpoints_def js_res split: if_splits)
  have "0 < int_of v" using num_less_safe(2) [OF v(2), of 0] v(3) by simp
  then show ?case using Cons.IH [OF v(5)] v(4) by simp
qed (simp add: weightedEndpoints_def)

lemma weighted_select:
  assumes "admitSelection url w c a = Inr (snap, es)" "weightedEndpoints es weight = Inr ws"
  shows "selectWeighted url w c weight a m =
    (case nextWeightedChoice ws (map_get m (selectionDomain snap)) of
       (selected, next) \<Rightarrow> (rememberSelection (selectionDomain snap) next m, Inr selected))"
  by (simp add: selectWeighted_def assms)

lemma weighted_rotation:
  assumes "admitSelection url w c a = Inr (snap, es)" "weightedEndpoints es weight = Inr ws"
    and "\<forall>(e, k) \<in> set ws. 0 < k" "distinct (map (endpointIdentity \<circ> fst) ws)" "p < length (slots ws)"
    and "map_get m (selectionDomain snap) = Some (snd (cursor_at (slots ws ! p)))"
  shows "weighted_calls n (selectWeighted url w c weight a) m =
    map (\<lambda>k. Inr (fst (slots ws ! ((p + 1 + k) mod length (slots ws))))) [0..<n]"
  using assms(5,6)
proof (induction n arbitrary: p m)
  case (Suc n)
  let ?q = "(p + 1) mod length (slots ws)"
  have q: "?q < length (slots ws)" using Suc.prems(1) by (intro mod_less_divisor) auto
  have sel: "selectWeighted url w c weight a m =
      (rememberSelection (selectionDomain snap) (snd (cursor_at (slots ws ! ?q))) m, Inr (fst (slots ws ! ?q)))"
    using weighted_select [OF assms(1,2), of m] weighted_next [OF assms(3,4) Suc.prems(1)] Suc.prems(2)
    by (simp add: cursor_at_def)
  have "(?q + 1 + k) mod length (slots ws) = (p + 1 + Suc k) mod length (slots ws)" for k
    by (metis add.assoc add.commute mod_add_left_eq plus_1_eq_Suc)
  then have "weighted_calls n (selectWeighted url w c weight a)
      (rememberSelection (selectionDomain snap) (snd (cursor_at (slots ws ! ?q))) m) =
      map (\<lambda>k. Inr (fst (slots ws ! ((p + 1 + Suc k) mod length (slots ws))))) [0..<n]"
    using Suc.IH [OF q held_get [OF held_remembered]] by simp
  then show ?case by (simp add: sel map_upt_Suc del: upt_Suc)
qed simp

text \<open>C25: a weighted selector with constant weights gives every endpoint exactly its weight: as many selections as
  the weights sum up to return, from wherever the selector stood, one cycle in which each endpoint has its slots
  one after the other.\<close>

theorem weighted_shares:
  assumes "url_canonical url" "arg_ok url a" "admitSelection url w c a = Inr (snap, es)"
    and "weightedEndpoints es weight = Inr ws"
  shows "\<exists>s. weighted_calls (sum_list (map snd ws)) (selectWeighted url w c weight a) m =
    map Inr (rotate s (concat (map (\<lambda>(e, k). replicate k e) ws)))"
proof -
  note w = weightedEndpoints_Inr [OF assms(4)]
  have d: "distinct (map (endpointIdentity \<circ> fst) ws)" using admitted_distinct [OF assms(1-3)] w by (metis map_map)
  have ne: "ws \<noteq> []" using w admitted_snapshot(3) [OF assms(2,3)] by auto
  have flat: "map fst (slots ws) = concat (map (\<lambda>(e, k). replicate k e) ws)" for ws
    by (induction ws) (auto simp: slots_def map_replicate_const comp_def)
  have len: "length (slots ws) = sum_list (map snd ws)" for ws
    by (induction ws) (auto simp: slots_def)
  obtain p where p: "p < length (slots ws)"
      "nextWeightedChoice ws (map_get m (selectionDomain snap)) = cursor_at (slots ws ! p)"
    using weighted_choice_slot [OF _ ne] w by blast
  have sel: "selectWeighted url w c weight a m =
      (rememberSelection (selectionDomain snap) (snd (cursor_at (slots ws ! p))) m, Inr (fst (slots ws ! p)))"
    using weighted_select [OF assms(3,4), of m] p(2) by (simp add: cursor_at_def)
  obtain n where n: "length (slots ws) = Suc n" using p(1) by (cases "length (slots ws)") auto
  have "weighted_calls (Suc n) (selectWeighted url w c weight a) m =
      Inr (fst (slots ws ! p)) # map (\<lambda>k. Inr (fst (slots ws ! ((p + 1 + k) mod length (slots ws))))) [0..<n]"
    using weighted_rotation [OF assms(3,4) conjunct2 [OF w] d p(1) held_get [OF held_remembered], of n] sel by simp
  also have "\<dots> = map (\<lambda>k. Inr (fst (slots ws ! ((p + k) mod length (slots ws))))) [0..<Suc n]"
    using p(1) by (simp add: map_upt_Suc del: upt_Suc)
  also have "\<dots> = map Inr (rotate p (map fst (slots ws)))"
  proof (intro nth_equalityI)
    fix i assume "i < length (map (\<lambda>k. Inr (fst (slots ws ! ((p + k) mod length (slots ws)))) :: service_endpoint res) [0..<Suc n])"
    then have "i < length (slots ws)" using n by simp
    then have "(p + i) mod length (slots ws) < length (slots ws)" by (intro mod_less_divisor) auto
    then show "map (\<lambda>k. Inr (fst (slots ws ! ((p + k) mod length (slots ws)))) :: service_endpoint res) [0..<Suc n] ! i =
        map Inr (rotate p (map fst (slots ws))) ! i"
      using \<open>i < length (slots ws)\<close> n by (simp add: nth_rotate del: upt_Suc)
  qed (simp add: n)
  finally have run: "weighted_calls (Suc n) (selectWeighted url w c weight a) m = map Inr (rotate p (map fst (slots ws)))" .
  have "sum_list (map snd ws) = Suc n" using len [of ws] n by simp
  then show ?thesis using run flat [of ws] by (intro exI [of _ p]) (simp only:)
qed

theorem weighted_shares_witness:
  "\<exists>s. weighted_calls 3 (selectWeighted sample_url (initial_world :: nat world) background
      (\<lambda>e. Inr (Fin (if se_url e = [97, 58] then 2 else 1)))
      (Unpublished [sample_instance 98 [[97, 58], [97, 58, 98]]])) [] =
    map Inr (rotate s [sample_endpoints ! 0, sample_endpoints ! 0, sample_endpoints ! 1])"
proof -
  have e: "sample_endpoints = [sample_endpoints ! 0, sample_endpoints ! 1]"
    "se_url (sample_endpoints ! 0) = [97, 58]" "se_url (sample_endpoints ! Suc 0) = [97, 58, 98]"
    by (simp_all add: sample_endpoints_def serviceEndpoints_def sample_instance_def)
  have "weightedEndpoints [sample_endpoints ! 0, sample_endpoints ! 1]
      (\<lambda>e. Inr (Fin (if se_url e = [97, 58] then 2 else 1))) = Inr [(sample_endpoints ! 0, 2), (sample_endpoints ! 1, 1)]"
    by (simp add: weightedEndpoints_def e(2,3) max_safe_def int_of_def)
  then have "weightedEndpoints sample_endpoints (\<lambda>e. Inr (Fin (if se_url e = [97, 58] then 2 else 1))) =
      Inr [(sample_endpoints ! 0, 2), (sample_endpoints ! 1, 1)]" by (simp only: e(1) [symmetric])
  note shares = weighted_shares [OF sample_canonical _ sample_admitted this]
  have "arg_ok sample_url (Unpublished [sample_instance 98 [[97, 58], [97, 58, 98]]])" by (simp add: arg_ok_def)
  note shares = shares [OF this, of "[]"]
  have "sum_list (map snd [(sample_endpoints ! 0, 2), (sample_endpoints ! 1, 1)]) = (3 :: nat)"
    "concat (map (\<lambda>(e, k). replicate k e) [(sample_endpoints ! 0, 2), (sample_endpoints ! 1, 1)]) =
      [sample_endpoints ! 0, sample_endpoints ! 0, sample_endpoints ! 1]" by (simp_all add: numeral_2_eq_2)
  then show ?thesis using shares by (simp only:)
qed

end
