(* ===== verification/Selector_P2C.thy ===== *)
theory Selector_P2C
  imports Selector
begin

text \<open>
  The power-of-two-choices selector of \<open>packages/registry/src/selector.ts\<close>. A mutable endpoint state is
  an entry of \<open>p_states\<close>, named by its index: a domain maps the identities of its endpoints to such
  entries, and a feedback callback (an entry of \<open>p_done\<close>) keeps the one it was created for even when
  the domain has dropped it. The random source and the clock are the values they return or throw when
  they are read; they do not call the selector back, so every completion finds the queue of its endpoint empty and
  the states \<open>admitting\<close> and \<open>queued\<close> are not seen from outside.
\<close>

section \<open>State\<close>

record p2c_endpoint =
  inFlight :: int
  consecutiveFailures :: nat
  cooldownUntil :: rat

record p2c_done =
  dn_state :: nat
  dn_completed :: bool

record p2c =
  p_domains :: "(jsstr, (jsstr, nat) jsmap) jsmap"
  p_states :: "p2c_endpoint list"
  p_done :: "p2c_done list"

record p2c_config =
  failureThreshold :: nat
  cooldownMs :: nat

definition newP2CSelector :: "js_number option \<Rightarrow> js_number option \<Rightarrow> (p2c_config \<times> p2c) res" where
  "newP2CSelector threshold cooldown =
     bindE (selectorInteger threshold 3 1 1000 ''P2C selector failureThreshold'') (\<lambda>failures.
     bindE (selectorInteger cooldown 10000 1 2147483647 ''P2C selector cooldownMs'') (\<lambda>ms.
     Inr (\<lparr>failureThreshold = failures, cooldownMs = ms\<rparr>, \<lparr>p_domains = [], p_states = [], p_done = []\<rparr>)))"

section \<open>Choosing\<close>

definition endpointInFlight :: "p2c_endpoint list \<Rightarrow> (jsstr, nat) jsmap \<Rightarrow> service_endpoint \<Rightarrow> int" where
  "endpointInFlight states domain e =
     (case map_get domain (endpointIdentity e) of None \<Rightarrow> 0 | Some i \<Rightarrow> inFlight (states ! i))"

definition endpointCooldown :: "p2c_endpoint list \<Rightarrow> (jsstr, nat) jsmap \<Rightarrow> service_endpoint \<Rightarrow> rat" where
  "endpointCooldown states domain e =
     (case map_get domain (endpointIdentity e) of None \<Rightarrow> 0 | Some i \<Rightarrow> cooldownUntil (states ! i))"

definition earliestCooldownEndpoint ::
    "service_endpoint list \<Rightarrow> p2c_endpoint list \<Rightarrow> (jsstr, nat) jsmap \<Rightarrow> service_endpoint" where
  "earliestCooldownEndpoint endpoints states domain =
     foldl (\<lambda>selected candidate.
        if endpointCooldown states domain candidate < endpointCooldown states domain selected
        then candidate else selected) (hd endpoints) (tl endpoints)"

definition endpointsFromSamples :: "'a list \<Rightarrow> rat \<Rightarrow> rat \<Rightarrow> 'a \<times> 'a" where
  "endpointsFromSamples endpoints firstSample secondSample =
     (let firstIndex = sampledIndex firstSample (length endpoints);
          secondBase = sampledIndex secondSample (length endpoints - 1);
          secondIndex = (if firstIndex \<le> secondBase then secondBase + 1 else secondBase)
      in (itemAt endpoints firstIndex, itemAt endpoints secondIndex))"

definition sampledP2CEndpoint ::
    "service_endpoint list \<Rightarrow> p2c_endpoint list \<Rightarrow> (jsstr, nat) jsmap \<Rightarrow> rat \<Rightarrow> rat \<Rightarrow> service_endpoint" where
  "sampledP2CEndpoint eligible states domain firstSample secondSample =
     (case endpointsFromSamples eligible firstSample secondSample of
        (first, second) \<Rightarrow>
          if endpointInFlight states domain second < endpointInFlight states domain first then second else first)"

definition eligibleP2CEndpoints ::
    "service_endpoint list \<Rightarrow> p2c_endpoint list \<Rightarrow> (jsstr, nat) jsmap \<Rightarrow> rat \<Rightarrow> service_endpoint list" where
  "eligibleP2CEndpoints endpoints states domain now =
     filter (\<lambda>e. endpointCooldown states domain e \<le> now) endpoints"

definition resolvedP2CCandidate ::
    "service_endpoint list \<Rightarrow> service_endpoint list \<Rightarrow> p2c_endpoint list \<Rightarrow> (jsstr, nat) jsmap \<Rightarrow>
      service_endpoint option" where
  "resolvedP2CCandidate endpoints eligible states domain =
     (if length eligible = 0 then Some (earliestCooldownEndpoint endpoints states domain)
      else if length eligible = 1 then Some (itemAt eligible 0) else None)"

text \<open>
  The code filters again after each sample because the source could change the state; here it does
  not, so the three lists are one. A source is read only when no candidate is resolved.
\<close>

definition p2cEndpoint ::
    "service_endpoint list \<Rightarrow> p2c_endpoint list \<Rightarrow> (jsstr, nat) jsmap \<Rightarrow> js_number res \<Rightarrow> js_number res \<Rightarrow> rat \<Rightarrow>
      service_endpoint res" where
  "p2cEndpoint endpoints states domain random1 random2 now =
     (let eligible = eligibleP2CEndpoints endpoints states domain now in
      case resolvedP2CCandidate endpoints eligible states domain of
        Some selected \<Rightarrow> Inr selected
      | None \<Rightarrow>
          bindE (randomSample random1) (\<lambda>firstSample.
          bindE (randomSample random2) (\<lambda>secondSample.
          Inr (sampledP2CEndpoint eligible states domain firstSample secondSample))))"

definition retainedP2CStates :: "(jsstr, nat) jsmap \<Rightarrow> service_endpoint list \<Rightarrow> (jsstr, nat) jsmap" where
  "retainedP2CStates domain endpoints =
     foldl (\<lambda>active e. case map_get domain (endpointIdentity e) of
        Some current \<Rightarrow> map_set (endpointIdentity e) current active | None \<Rightarrow> active) [] endpoints"

text \<open>The retained states of a domain, and the index of the selected one, new when it has none.\<close>

definition selectedP2CState ::
    "p2c_endpoint list \<Rightarrow> (jsstr, nat) jsmap \<Rightarrow> service_endpoint list \<Rightarrow> service_endpoint \<Rightarrow>
      p2c_endpoint list \<times> (jsstr, nat) jsmap \<times> nat" where
  "selectedP2CState states domain endpoints selected =
     (let active = retainedP2CStates domain endpoints
      in case map_get active (endpointIdentity selected) of
           Some i \<Rightarrow> (states, active, i)
         | None \<Rightarrow>
             (states @ [\<lparr>inFlight = 0, consecutiveFailures = 0, cooldownUntil = 0\<rparr>],
              map_set (endpointIdentity selected) (length states) active, length states))"

definition p2c_select ::
    "url \<Rightarrow> 'v world \<Rightarrow> 'v ctx \<Rightarrow> instances_arg \<Rightarrow> js_number res \<Rightarrow> js_number res \<Rightarrow> js_number res \<Rightarrow> p2c \<Rightarrow>
      p2c \<times> (service_endpoint \<times> nat) res" where
  "p2c_select url w c instances random1 random2 now s =
     (case admitSelection url w c instances of
        Inl e \<Rightarrow> (s, Inl e)
      | Inr (snapshot, endpoints) \<Rightarrow>
          let domain = selectionDomain snapshot;
              state = (case map_get (p_domains s) domain of None \<Rightarrow> [] | Some m \<Rightarrow> m);
              domains = (if map_get (p_domains s) domain = None then map_set domain state (p_domains s)
                         else p_domains s)
          in case bindE (monotonicNow now ''P2C selector'')
                    (\<lambda>t. p2cEndpoint endpoints (p_states s) state random1 random2 t) of
               Inl e \<Rightarrow>
                 (s\<lparr>p_domains := (if map_get (p_domains s) domain = None then map_delete domain domains else domains)\<rparr>,
                  Inl e)
             | Inr selected \<Rightarrow>
                 (case selectedP2CState (p_states s) state endpoints selected of
                    (states, active, i) \<Rightarrow>
                      (\<lparr>p_domains = rememberSelection domain active domains,
                        p_states = states[i := (states ! i)\<lparr>inFlight := inFlight (states ! i) + 1\<rparr>],
                        p_done = p_done s @ [\<lparr>dn_state = i, dn_completed = False\<rparr>]\<rparr>,
                       Inr (selected, length (p_done s)))))"

section \<open>Feedback\<close>

text \<open>Exact numbers do not overflow, so the saturation at \<open>Number.MAX_VALUE\<close> does not occur.\<close>

definition cooldownDeadline :: "rat \<Rightarrow> nat \<Rightarrow> rat" where
  "cooldownDeadline now ms = now + of_nat ms"

definition settle_p2c ::
    "p2c_config \<Rightarrow> thrown option \<Rightarrow> js_number res \<Rightarrow> p2c_endpoint \<Rightarrow> p2c_endpoint res" where
  "settle_p2c cfg failure now st =
     (let nextFailures = (if failure = None then 0 else consecutiveFailures st + 1) in
      bindE (if failure \<noteq> None \<and> failureThreshold cfg \<le> nextFailures
             then bindE (monotonicNow now ''P2C selector'') (\<lambda>t. Inr (cooldownDeadline t (cooldownMs cfg)))
             else Inr (cooldownUntil st)) (\<lambda>deadline.
      Inr (if failure = None
           then st\<lparr>inFlight := inFlight st - 1, consecutiveFailures := 0, cooldownUntil := 0\<rparr>
           else st\<lparr>inFlight := inFlight st - 1, consecutiveFailures := nextFailures, cooldownUntil := deadline\<rparr>)))"

definition p2c_complete ::
    "p2c_config \<Rightarrow> 'v world \<Rightarrow> 'v ctx \<Rightarrow> thrown option \<Rightarrow> js_number res \<Rightarrow> nat \<Rightarrow> p2c \<Rightarrow> p2c \<times> unit res" where
  "p2c_complete cfg w c failure now k s =
     (if dn_completed (p_done s ! k) then (s, Inr ())
      else
        let i = dn_state (p_done s ! k) in
        case bindE (throwIfCanceled w c) (\<lambda>_. settle_p2c cfg failure now (p_states s ! i)) of
          Inl e \<Rightarrow> (s, Inl e)
        | Inr st \<Rightarrow>
            (s\<lparr>p_states := (p_states s)[i := st], p_done := (p_done s)[k := (p_done s ! k)\<lparr>dn_completed := True\<rparr>]\<rparr>,
             Inr ()))"

text \<open>The calls on one selector, in any order.\<close>

inductive p2c_step :: "url \<Rightarrow> p2c_config \<Rightarrow> p2c \<Rightarrow> p2c \<Rightarrow> bool" for url cfg where
  p2c_selected: "p2c_select url (w :: nat world) c instances random1 random2 now s = (s', r) \<Longrightarrow> p2c_step url cfg s s'"
| p2c_completed: "k < length (p_done s) \<Longrightarrow> p2c_complete cfg (w :: nat world) c failure now k s = (s', r) \<Longrightarrow>
    p2c_step url cfg s s'"

section \<open>Loads are the open selections\<close>

definition open_on :: "nat \<Rightarrow> p2c_done list \<Rightarrow> nat" where
  "open_on i ds = length (filter (\<lambda>d. dn_state d = i \<and> \<not> dn_completed d) ds)"

definition one_to_one :: "('k, 'v) jsmap \<Rightarrow> bool" where
  "one_to_one m \<longleftrightarrow> (\<forall>x y j. map_get m x = Some j \<and> map_get m y = Some j \<longrightarrow> x = y)"

definition p2c_ok :: "p2c \<Rightarrow> bool" where
  "p2c_ok s \<longleftrightarrow>
     (\<forall>i < length (p_states s). inFlight (p_states s ! i) = int (open_on i (p_done s)) \<and>
        0 \<le> cooldownUntil (p_states s ! i)) \<and>
     (\<forall>d \<in> set (p_done s). dn_state d < length (p_states s)) \<and>
     (\<forall>(k, m) \<in> set (p_domains s). one_to_one m \<and> (\<forall>(x, i) \<in> set m. i < length (p_states s))) \<and>
     length (p_domains s) \<le> MaximumSelectionDomains"

lemma p2c_okD:
  assumes "p2c_ok s"
  shows "i < length (p_states s) \<Longrightarrow> inFlight (p_states s ! i) = int (open_on i (p_done s))"
    "i < length (p_states s) \<Longrightarrow> 0 \<le> cooldownUntil (p_states s ! i)"
    "d \<in> set (p_done s) \<Longrightarrow> dn_state d < length (p_states s)"
    "(k, m) \<in> set (p_domains s) \<Longrightarrow> (x, j) \<in> set m \<Longrightarrow> j < length (p_states s)"
    "length (p_domains s) \<le> MaximumSelectionDomains" "(k, m) \<in> set (p_domains s) \<Longrightarrow> one_to_one m"
proof -
  show "i < length (p_states s) \<Longrightarrow> inFlight (p_states s ! i) = int (open_on i (p_done s))"
    "i < length (p_states s) \<Longrightarrow> 0 \<le> cooldownUntil (p_states s ! i)"
    "d \<in> set (p_done s) \<Longrightarrow> dn_state d < length (p_states s)"
    "length (p_domains s) \<le> MaximumSelectionDomains"
    using assms by (simp_all add: p2c_ok_def)
  have a: "\<forall>(k, m) \<in> set (p_domains s). one_to_one m \<and> (\<forall>(x, i) \<in> set m. i < length (p_states s))"
    using assms by (simp add: p2c_ok_def)
  show "one_to_one m" if "(k, m) \<in> set (p_domains s)" using bspec [OF a that] by simp
  show "j < length (p_states s)" if "(k, m) \<in> set (p_domains s)" "(x, j) \<in> set m"
  proof -
    have "\<forall>(x, i) \<in> set m. i < length (p_states s)" using bspec [OF a that(1)] by simp
    from bspec [OF this that(2)] show ?thesis by simp
  qed
qed

lemma set_map_set: "set (map_set k v m) \<subseteq> insert (k, v) (set m)"
  by (induction m) auto

lemma set_map_delete: "set (map_delete k m) \<subseteq> set m"
  by (induction m) auto

lemma length_map_set: "length (map_set k v m) \<le> Suc (length m)"
  by (induction m) auto

lemma remember_set: "set (rememberSelection d v m) \<subseteq> insert (d, v) (set m)"
proof -
  let ?e = "if MaximumSelectionDomains \<le> length (map_delete d m)
      then (case map_delete d m of [] \<Rightarrow> [] | (oldest, _) # _ \<Rightarrow> map_delete oldest (map_delete d m))
      else map_delete d m"
  have "set (case xs of [] \<Rightarrow> [] | (oldest, _) # _ \<Rightarrow> map_delete oldest xs) \<subseteq> set xs" for xs :: "(jsstr \<times> 'a) list"
    using set_map_delete by (cases xs) fastforce+
  then have "set ?e \<subseteq> set (map_delete d m)" by simp
  then show ?thesis
    unfolding rememberSelection_def Let_def using set_map_set [of d v ?e] set_map_delete [of d m] by blast
qed

lemma remember_length:
  assumes "length (map_delete d m) \<le> MaximumSelectionDomains"
  shows "length (rememberSelection d v m) \<le> MaximumSelectionDomains"
proof -
  let ?e = "if MaximumSelectionDomains \<le> length (map_delete d m)
      then (case map_delete d m of [] \<Rightarrow> [] | (oldest, _) # _ \<Rightarrow> map_delete oldest (map_delete d m))
      else map_delete d m"
  have "Suc (length ?e) \<le> MaximumSelectionDomains"
  proof (cases "map_delete d m")
    case (Cons e es)
    obtain k x where "e = (k, x)" by fastforce
    then show ?thesis using Cons assms length_delete_le [of k es] by auto
  qed (simp add: MaximumSelectionDomains_def)
  then show ?thesis unfolding rememberSelection_def Let_def using length_map_set [of d v ?e] by linarith
qed

lemma open_on_append: "open_on i (ds @ [d]) = open_on i ds + (if dn_state d = i \<and> \<not> dn_completed d then 1 else 0)"
  by (simp add: open_on_def)

lemma open_on_complete:
  assumes "k < length ds" "\<not> dn_completed (ds ! k)"
  shows "open_on i (ds[k := (ds ! k)\<lparr>dn_completed := True\<rparr>]) + (if dn_state (ds ! k) = i then 1 else 0) = open_on i ds"
proof (cases "dn_state (ds ! k) = i")
  case True
  then show ?thesis
    using filter_update [of k ds "\<lambda>d. dn_state d = i \<and> \<not> dn_completed d" "(ds ! k)\<lparr>dn_completed := True\<rparr>"] assms
    by (simp add: open_on_def)
next
  case False
  then show ?thesis
    using filter_update_same [of "\<lambda>d. dn_state d = i \<and> \<not> dn_completed d" "(ds ! k)\<lparr>dn_completed := True\<rparr>" ds k]
    by (simp add: open_on_def)
qed

text \<open>The retained states: what the domain had for its current endpoints.\<close>

lemma retained_get:
  "map_get (retainedP2CStates dm es) x = (if x \<in> endpointIdentity ` set es then map_get dm x else None)"
proof -
  have "map_get (foldl (\<lambda>m e. case map_get dm (endpointIdentity e) of
        Some current \<Rightarrow> map_set (endpointIdentity e) current m | None \<Rightarrow> m) m es) x =
    (if x \<in> endpointIdentity ` set es \<and> map_get dm x \<noteq> None then map_get dm x else map_get m x)" for m
    by (induction es arbitrary: m) (auto split: option.splits)
  from this [of "[]"] show ?thesis by (cases "map_get dm x") (auto simp: retainedP2CStates_def)
qed

lemma retained_values: "(x, j) \<in> set (retainedP2CStates dm es) \<Longrightarrow> \<exists>y. map_get dm y = Some j"
proof -
  have "(x, j) \<in> set (foldl (\<lambda>m e. case map_get dm (endpointIdentity e) of
        Some current \<Rightarrow> map_set (endpointIdentity e) current m | None \<Rightarrow> m) m es) \<Longrightarrow>
    (x, j) \<in> set m \<or> (\<exists>y. map_get dm y = Some j)" for m
  proof (induction es arbitrary: m)
    case (Cons e es)
    show ?case
    proof (cases "map_get dm (endpointIdentity e)")
      case None
      then show ?thesis using Cons.IH [of m] Cons.prems by simp
    next
      case (Some i)
      then have "(x, j) \<in> set (map_set (endpointIdentity e) i m) \<or> (\<exists>y. map_get dm y = Some j)"
        using Cons.IH [of "map_set (endpointIdentity e) i m"] Cons.prems by simp
      then show ?thesis using set_map_set [of "endpointIdentity e" i m] Some by auto
    qed
  qed simp
  then show "(x, j) \<in> set (retainedP2CStates dm es) \<Longrightarrow> ?thesis" by (fastforce simp: retainedP2CStates_def)
qed

lemma selected_state:
  assumes "selectedP2CState states dm es e = (states', active, i)" "e \<in> set es" "\<forall>(x, j) \<in> set dm. j < length states"
  shows "i < length states'" "map_get active (endpointIdentity e) = Some i"
    "(map_get dm (endpointIdentity e) = Some i \<and> states' = states) \<or>
     (map_get dm (endpointIdentity e) = None \<and> i = length states \<and>
        states' = states @ [\<lparr>inFlight = 0, consecutiveFailures = 0, cooldownUntil = 0\<rparr>])"
    "x \<noteq> endpointIdentity e \<Longrightarrow>
      map_get active x = (if x \<in> endpointIdentity ` set es then map_get dm x else None)"
    "(y, j) \<in> set active \<Longrightarrow> j < length states'"
proof -
  let ?a = "retainedP2CStates dm es"
  have ae: "map_get ?a (endpointIdentity e) = map_get dm (endpointIdentity e)" using retained_get assms(2) by simp
  have less: "map_get dm x = Some j \<Longrightarrow> j < length states" for x j using assms(3) map_of_SomeD by fastforce
  consider (old) "map_get dm (endpointIdentity e) = Some i" "states' = states" "active = ?a"
    | (new) "map_get dm (endpointIdentity e) = None" "i = length states" "active = map_set (endpointIdentity e) i ?a"
      "states' = states @ [\<lparr>inFlight = 0, consecutiveFailures = 0, cooldownUntil = 0\<rparr>]"
    using assms(1) ae by (auto simp: selectedP2CState_def Let_def split: option.splits)
  then show "i < length states'" "map_get active (endpointIdentity e) = Some i"
    "(map_get dm (endpointIdentity e) = Some i \<and> states' = states) \<or>
     (map_get dm (endpointIdentity e) = None \<and> i = length states \<and>
        states' = states @ [\<lparr>inFlight = 0, consecutiveFailures = 0, cooldownUntil = 0\<rparr>])"
    "x \<noteq> endpointIdentity e \<Longrightarrow>
      map_get active x = (if x \<in> endpointIdentity ` set es then map_get dm x else None)"
    by (cases; use less ae retained_get in simp)+
  show "j < length states'" if "(y, j) \<in> set active"
    using \<open>map_get dm (endpointIdentity e) = Some i \<and> states' = states \<or> _\<close>
  proof (elim disjE conjE)
    assume "map_get dm (endpointIdentity e) = Some i" and st: "states' = states"
    then have "active = ?a" using assms(1) ae by (auto simp: selectedP2CState_def Let_def)
    then show ?thesis using that retained_values less st by blast
  next
    assume n: "map_get dm (endpointIdentity e) = None" "i = length states"
      and st: "states' = states @ [\<lparr>inFlight = 0, consecutiveFailures = 0, cooldownUntil = 0\<rparr>]"
    then have "active = map_set (endpointIdentity e) i ?a" using assms(1) ae by (auto simp: selectedP2CState_def Let_def)
    then have "(y, j) \<in> insert (endpointIdentity e, i) (set ?a)"
      using that set_map_set [of "endpointIdentity e" i ?a] by auto
    then consider "j = i" | "(y, j) \<in> set ?a" by blast
    then have "j \<le> length states"
    proof cases
      case 2
      then obtain z where "map_get dm z = Some j" using retained_values by blast
      then show ?thesis using less by (simp add: less_imp_le)
    qed (simp add: n(2))
    then show ?thesis by (simp add: st)
  qed
qed

text \<open>What a successful selection did.\<close>

lemma p2c_selected:
  assumes "p2c_select url w c a r1 r2 now s = (s', Inr (e, k))"
  obtains snap es t dm states active i ds where "admitSelection url w c a = Inr (snap, es)"
    "monotonicNow now ''P2C selector'' = Inr t"
    "dm = (case map_get (p_domains s) (selectionDomain snap) of None \<Rightarrow> [] | Some m \<Rightarrow> m)"
    "p2cEndpoint es (p_states s) dm r1 r2 t = Inr e" "selectedP2CState (p_states s) dm es e = (states, active, i)"
    "k = length (p_done s)" "p_done s' = p_done s @ [\<lparr>dn_state = i, dn_completed = False\<rparr>]"
    "p_states s' = states[i := (states ! i)\<lparr>inFlight := inFlight (states ! i) + 1\<rparr>]"
    "ds = p_domains s \<or> map_get (p_domains s) (selectionDomain snap) = None \<and> ds = map_set (selectionDomain snap) [] (p_domains s)"
    "p_domains s' = rememberSelection (selectionDomain snap) active ds"
proof -
  obtain snap es where a: "admitSelection url w c a = Inr (snap, es)"
    using assms by (auto simp: p2c_select_def split: sum.splits)
  let ?dm = "case map_get (p_domains s) (selectionDomain snap) of None \<Rightarrow> [] | Some m \<Rightarrow> m"
  let ?b = "bindE (monotonicNow now ''P2C selector'') (\<lambda>t. p2cEndpoint es (p_states s) ?dm r1 r2 t)"
  obtain e' where b: "?b = Inr e'"
    using assms a by (cases ?b) (auto simp: p2c_select_def Let_def)
  obtain states active i where st: "selectedP2CState (p_states s) ?dm es e' = (states, active, i)" using prod_cases3 by blast
  obtain t where t: "monotonicNow now ''P2C selector'' = Inr t" "p2cEndpoint es (p_states s) ?dm r1 r2 t = Inr e'"
    using b by (auto simp: js_res)
  let ?ds = "if map_get (p_domains s) (selectionDomain snap) = None then map_set (selectionDomain snap) ?dm (p_domains s)
    else p_domains s"
  have "s' = \<lparr>p_domains = rememberSelection (selectionDomain snap) active ?ds,
      p_states = states[i := (states ! i)\<lparr>inFlight := inFlight (states ! i) + 1\<rparr>],
      p_done = p_done s @ [\<lparr>dn_state = i, dn_completed = False\<rparr>]\<rparr> \<and> e' = e \<and> k = length (p_done s)"
    using assms b unfolding p2c_select_def a by (simp add: Let_def st)
  then show thesis by (intro that [OF a t(1) refl, where ds = ?ds]) (use st t(2) in auto)
qed

lemma state_update:
  assumes "i < length xs" "j < length xs"
  shows "xs[i := (xs ! i)\<lparr>inFlight := n\<rparr>] ! j = (if j = i then (xs ! i)\<lparr>inFlight := n\<rparr> else xs ! j)"
  using assms by (simp add: nth_list_update)

lemma select_ok:
  assumes ok: "p2c_ok s" and sel: "p2c_select url w c a r1 r2 now s = (s', Inr (e, k))" "e \<in> set es'"
    and es: "\<And>snap es. admitSelection url w c a = Inr (snap, es) \<Longrightarrow> es = es'"
  shows "p2c_ok s'"
proof -
  obtain snap es t dm states active i ds where p: "admitSelection url w c a = Inr (snap, es)"
    "dm = (case map_get (p_domains s) (selectionDomain snap) of None \<Rightarrow> [] | Some m \<Rightarrow> m)"
    "selectedP2CState (p_states s) dm es e = (states, active, i)"
    "p_done s' = p_done s @ [\<lparr>dn_state = i, dn_completed = False\<rparr>]"
    "p_states s' = states[i := (states ! i)\<lparr>inFlight := inFlight (states ! i) + 1\<rparr>]"
    "ds = p_domains s \<or> map_get (p_domains s) (selectionDomain snap) = None \<and> ds = map_set (selectionDomain snap) [] (p_domains s)"
    "p_domains s' = rememberSelection (selectionDomain snap) active ds"
    using p2c_selected [OF sel(1)] by metis
  have dm: "\<forall>(x, j) \<in> set dm. j < length (p_states s)"
  proof (cases "map_get (p_domains s) (selectionDomain snap)")
    case (Some m)
    then show ?thesis using p2c_okD(4) [OF ok map_of_SomeD [OF Some]] by (auto simp: p(2))
  qed (simp add: p(2))
  have e: "e \<in> set es" using sel(2) es [OF p(1)] by simp
  note st = selected_state [OF p(3) e dm]
  have len: "length (p_states s) \<le> length states" using st(3) by auto
  have states: "j < length states \<Longrightarrow> inFlight (states ! j) = int (open_on j (p_done s)) \<and> 0 \<le> cooldownUntil (states ! j)" for j
  proof -
    have "open_on (length (p_states s)) (p_done s) = 0"
      using p2c_okD(3) [OF ok] by (fastforce simp: open_on_def filter_empty_conv)
    then show "j < length states \<Longrightarrow> inFlight (states ! j) = int (open_on j (p_done s)) \<and> 0 \<le> cooldownUntil (states ! j)"
      using st(3) p2c_okD(1,2) [OF ok, of j] by (auto simp: nth_append less_Suc_eq)
  qed
  have old: "one_to_one dm"
  proof (cases "map_get (p_domains s) (selectionDomain snap)")
    case (Some m)
    then show ?thesis using p2c_okD(6) [OF ok map_of_SomeD [OF Some]] by (simp add: p(2))
  qed (simp add: p(2) one_to_one_def)
  have inj: "one_to_one active"
  proof -
    have dx: "map_get dm x = Some j" if "map_get active x = Some j" "x \<noteq> endpointIdentity e" for x j
      using that st(4) [of x] by (simp split: if_splits)
    have de: "x = endpointIdentity e" if "map_get active x = Some i" for x
    proof (rule ccontr)
      assume n: "x \<noteq> endpointIdentity e"
      then have "map_get dm x = Some i" using dx that by blast
      moreover from this have "i < length (p_states s)" using dm map_of_SomeD by fastforce
      ultimately show False using st(3) old n unfolding one_to_one_def by blast
    qed
    show ?thesis
      unfolding one_to_one_def
    proof (intro allI impI, elim conjE)
      fix x y j assume x: "map_get active x = Some j" and y: "map_get active y = Some j"
      show "x = y"
      proof (cases "j = i")
        case True
        then show ?thesis using de x y by blast
      next
        case False
        then have "x \<noteq> endpointIdentity e" "y \<noteq> endpointIdentity e" using x y st(2) by auto
        then show ?thesis using dx [OF x] dx [OF y] old unfolding one_to_one_def by blast
      qed
    qed
  qed
  have kept: "m = active \<or> m = [] \<or> (d, m) \<in> set (p_domains s)" if "(d, m) \<in> set (p_domains s')" for d m
    using that remember_set [of "selectionDomain snap" active ds] set_map_set [of "selectionDomain snap" "[]" "p_domains s"]
      p(6,7) by auto
  have inj': "one_to_one m" if "(d, m) \<in> set (p_domains s')" for d m
    using kept [OF that] inj p2c_okD(6) [OF ok] by (auto simp: one_to_one_def [of "[]"])
  have doms: "(d, m) \<in> set (p_domains s') \<Longrightarrow> (x, j) \<in> set m \<Longrightarrow> j < length states" for d m x j
  proof -
    assume "(d, m) \<in> set (p_domains s')" "(x, j) \<in> set m"
    then consider "m = active" | "m = []" | "(d, m) \<in> set (p_domains s)" using kept by blast
    then show "j < length states"
    proof cases
      case 1
      then show ?thesis using st(5) \<open>(x, j) \<in> set m\<close> by blast
    next
      case 3
      then show ?thesis using p2c_okD(4) [OF ok _ \<open>(x, j) \<in> set m\<close>] len by fastforce
    qed (use \<open>(x, j) \<in> set m\<close> in simp)
  qed
  have "map_delete (selectionDomain snap) ds = map_delete (selectionDomain snap) (p_domains s)"
    using p(6) by (auto simp: delete_update_same)
  then have "length (p_domains s') \<le> MaximumSelectionDomains"
    unfolding p(7) using p2c_okD(5) [OF ok] length_delete_le [of "selectionDomain snap" "p_domains s"]
    by (intro remember_length) simp
  moreover have "dn_state d < length states" if "d \<in> set (p_done s')" for d
    using that p2c_okD(3) [OF ok, of d] st(1) len by (auto simp: p(4))
  ultimately show ?thesis
    using states doms inj' st(1) unfolding p2c_ok_def by (auto simp: p(4,5) nth_list_update open_on_append)
qed

section \<open>The choice\<close>

lemma randomSample_Inr: "randomSample x = Inr r \<Longrightarrow> 0 \<le> r \<and> r < 1"
proof -
  assume "randomSample x = Inr r"
  then obtain v where v: "x = Inr v" "isFinite v" "\<not> num_less v (Fin 0)" "num_less v (Fin 1)" "r = rat_of v"
    by (auto simp: randomSample_def js_res split: if_splits)
  then show ?thesis by (cases v) auto
qed

lemma sampledIndex_less: "0 \<le> r \<Longrightarrow> r < 1 \<Longrightarrow> 0 < n \<Longrightarrow> sampledIndex r n < n"
proof -
  assume a: "0 \<le> r" "r < 1" "0 < n"
  then have "r * of_nat n < of_nat n" by simp
  then have "\<lfloor>r * of_nat n\<rfloor> < int n" by (simp add: floor_less_iff)
  moreover have "0 \<le> \<lfloor>r * of_nat n\<rfloor>" using a by simp
  ultimately show ?thesis by (simp add: sampledIndex_def nat_less_iff)
qed

lemma samples_distinct:
  assumes "0 \<le> r1" "r1 < 1" "0 \<le> r2" "r2 < 1" "2 \<le> length xs"
  shows "\<exists>i j. i \<noteq> j \<and> i < length xs \<and> j < length xs \<and> endpointsFromSamples xs r1 r2 = (xs ! i, xs ! j)"
proof -
  let ?i = "sampledIndex r1 (length xs)" and ?b = "sampledIndex r2 (length xs - 1)"
  have i: "?i < length xs" using assms by (intro sampledIndex_less) auto
  have "?b < length xs - 1" using assms by (intro sampledIndex_less) auto
  then have j: "(if ?i \<le> ?b then ?b + 1 else ?b) < length xs" "?i \<noteq> (if ?i \<le> ?b then ?b + 1 else ?b)" by auto
  show ?thesis
  proof (intro exI conjI)
    show "endpointsFromSamples xs r1 r2 = (xs ! ?i, xs ! (if ?i \<le> ?b then ?b + 1 else ?b))"
      unfolding endpointsFromSamples_def Let_def itemAt_nth [OF i] itemAt_nth [OF j(1)] ..
  qed (use i j in blast)+
qed

lemma earliest_least:
  "es \<noteq> [] \<Longrightarrow> earliestCooldownEndpoint es states dm \<in> set es \<and>
    (\<forall>x \<in> set es. endpointCooldown states dm (earliestCooldownEndpoint es states dm) \<le> endpointCooldown states dm x)"
proof -
  let ?f = "\<lambda>sel cand. if endpointCooldown states dm cand < endpointCooldown states dm sel then cand else sel"
  have "foldl ?f x xs \<in> insert x (set xs) \<and>
      (\<forall>y \<in> insert x (set xs). endpointCooldown states dm (foldl ?f x xs) \<le> endpointCooldown states dm y)" for x xs
  proof (induction xs arbitrary: x)
    case (Cons c xs)
    let ?x = "?f x c"
    have eq: "foldl ?f x (c # xs) = foldl ?f ?x xs" by simp
    have le: "endpointCooldown states dm ?x \<le> endpointCooldown states dm x"
      "endpointCooldown states dm ?x \<le> endpointCooldown states dm c" "?x \<in> {x, c}" by simp_all
    have i: "foldl ?f ?x xs \<in> insert ?x (set xs)"
      "endpointCooldown states dm (foldl ?f ?x xs) \<le> endpointCooldown states dm ?x"
      "\<forall>y \<in> set xs. endpointCooldown states dm (foldl ?f ?x xs) \<le> endpointCooldown states dm y"
      using Cons.IH [of ?x] by blast+
    show ?case unfolding eq
    proof
      show "foldl ?f ?x xs \<in> insert x (set (c # xs))" using i(1) le(3) by auto
      show "\<forall>y \<in> insert x (set (c # xs)). endpointCooldown states dm (foldl ?f ?x xs) \<le> endpointCooldown states dm y"
        using order_trans [OF i(2) le(1)] order_trans [OF i(2) le(2)] i(3) by simp
    qed
  qed simp
  from this [of "hd es" "tl es"] show "es \<noteq> [] \<Longrightarrow> ?thesis" by (cases es) (simp_all add: earliestCooldownEndpoint_def)
qed

definition well_chosen :: "service_endpoint list \<Rightarrow> p2c_endpoint list \<Rightarrow> (jsstr, nat) jsmap \<Rightarrow> rat \<Rightarrow> service_endpoint \<Rightarrow> bool" where
  "well_chosen es states dm t e \<longleftrightarrow>
     e \<in> set es \<and>
     (if \<exists>x \<in> set es. endpointCooldown states dm x \<le> t then endpointCooldown states dm e \<le> t
      else \<forall>x \<in> set es. endpointCooldown states dm e \<le> endpointCooldown states dm x) \<and>
     (let eligible = filter (\<lambda>x. endpointCooldown states dm x \<le> t) es in
      2 \<le> length eligible \<longrightarrow>
      (\<exists>i j. i \<noteq> j \<and> i < length eligible \<and> j < length eligible \<and> e = eligible ! i \<and>
         endpointInFlight states dm e \<le> endpointInFlight states dm (eligible ! j)))"

lemma p2c_well_chosen:
  assumes "es \<noteq> []" "p2cEndpoint es states dm r1 r2 t = Inr e"
  shows "well_chosen es states dm t e"
proof -
  let ?el = "filter (\<lambda>x. endpointCooldown states dm x \<le> t) es"
  have el: "eligibleP2CEndpoints es states dm t = ?el" by (simp add: eligibleP2CEndpoints_def)
  consider (none) "?el = []" | (one) x where "?el = [x]" | (more) "2 \<le> length ?el"
    by (cases ?el rule: remdups_adj.cases) auto
  then show ?thesis
  proof cases
    case none
    then have "e = earliestCooldownEndpoint es states dm" using assms(2)
      by (simp add: p2cEndpoint_def el resolvedP2CCandidate_def Let_def)
    then show ?thesis using none earliest_least [OF assms(1)] by (auto simp: well_chosen_def filter_empty_conv Let_def)
  next
    case one
    then have "e = x" using assms(2) by (simp add: p2cEndpoint_def el resolvedP2CCandidate_def Let_def itemAt_nth)
    moreover have "x \<in> set ?el" using one by simp
    then have "x \<in> set es" "endpointCooldown states dm x \<le> t" by simp_all
    ultimately show ?thesis using one by (auto simp add: well_chosen_def Let_def)
  next
    case more
    then obtain s1 s2 where s: "randomSample r1 = Inr s1" "randomSample r2 = Inr s2"
        "e = sampledP2CEndpoint ?el states dm s1 s2"
    proof -
      have "resolvedP2CCandidate es ?el states dm = None"
        using more by (cases ?el) (auto simp: resolvedP2CCandidate_def)
      then show thesis using assms(2) that by (auto simp: p2cEndpoint_def el Let_def js_res)
    qed
    obtain i j where ij: "i \<noteq> j" "i < length ?el" "j < length ?el" "endpointsFromSamples ?el s1 s2 = (?el ! i, ?el ! j)"
      using samples_distinct [of s1 s2 ?el] randomSample_Inr [OF s(1)] randomSample_Inr [OF s(2)] more by blast
    have "\<exists>k l. k \<noteq> l \<and> k < length ?el \<and> l < length ?el \<and> e = ?el ! k \<and>
        endpointInFlight states dm e \<le> endpointInFlight states dm (?el ! l)"
    proof (cases "endpointInFlight states dm (?el ! j) < endpointInFlight states dm (?el ! i)")
      case True
      then show ?thesis using ij s(3) by (intro exI [of _ j] exI [of _ i]) (simp add: sampledP2CEndpoint_def)
    next
      case False
      then show ?thesis using ij s(3) by (intro exI [of _ i] exI [of _ j]) (simp add: sampledP2CEndpoint_def)
    qed
    moreover from this have "e \<in> set ?el" by (metis nth_mem)
    ultimately show ?thesis by (auto simp: well_chosen_def Let_def)
  qed
qed

section \<open>Every call keeps the books\<close>

lemma select_failed:
  assumes "p2c_select url w c a r1 r2 now s = (s', Inl e)"
  shows "p_states s' = p_states s \<and> p_done s' = p_done s \<and> set (p_domains s') \<subseteq> set (p_domains s) \<and>
    length (p_domains s') \<le> length (p_domains s)"
proof (cases "admitSelection url w c a")
  case (Inl x)
  then show ?thesis using assms by (simp add: p2c_select_def)
next
  case (Inr p)
  obtain snap es where p: "p = (snap, es)" by fastforce
  show ?thesis
  proof (cases "map_get (p_domains s) (selectionDomain snap)")
    case None
    then have "map_delete (selectionDomain snap) (map_set (selectionDomain snap) [] (p_domains s)) =
        map_delete (selectionDomain snap) (p_domains s)" by (simp add: delete_update_same)
    then have "s' = s\<lparr>p_domains := map_delete (selectionDomain snap) (p_domains s)\<rparr>"
      using assms unfolding p2c_select_def Inr p by (auto simp: Let_def None split: sum.splits prod.splits)
    then show ?thesis
      using set_map_delete [of "selectionDomain snap" "p_domains s"] length_delete_le [of "selectionDomain snap" "p_domains s"]
      by simp
  next
    case (Some m)
    then show ?thesis
      using assms unfolding p2c_select_def Inr p by (auto simp: Let_def split: sum.splits prod.splits)
  qed
qed

lemma ok_smaller:
  assumes "p2c_ok s" "p_states s' = p_states s" "p_done s' = p_done s" "set (p_domains s') \<subseteq> set (p_domains s)"
    and "length (p_domains s') \<le> length (p_domains s)"
  shows "p2c_ok s'"
  using assms unfolding p2c_ok_def by (simp, blast)

lemma select_keeps_ok:
  assumes "p2c_ok s" "p2c_select url w c a r1 r2 now s = (s', r)"
  shows "p2c_ok s'"
proof (cases r)
  case (Inl e)
  then show ?thesis using select_failed [of url w c a r1 r2 now s s' e] ok_smaller [OF assms(1), of s'] assms(2) by blast
next
  case (Inr ek)
  obtain e k where ek: "ek = (e, k)" by fastforce
  note sel = assms(2) [unfolded Inr ek]
  obtain snap es t dm where p: "admitSelection url w c a = Inr (snap, es)" "p2cEndpoint es (p_states s) dm r1 r2 t = Inr e"
    using p2c_selected [OF sel] by metis
  have "es \<noteq> []" using p(1) by (auto simp: admitSelection_def js_res Let_def split: if_splits)
  then have e: "e \<in> set es" using p2c_well_chosen [OF _ p(2)] by (simp add: well_chosen_def)
  show ?thesis by (rule select_ok [OF assms(1) sel e]) (simp add: p(1))
qed

lemma settle_facts:
  assumes "settle_p2c cfg failure now st = Inr st'" "0 \<le> cooldownUntil st"
  shows "inFlight st' = inFlight st - 1" "0 \<le> cooldownUntil st'"
    "failure = None \<Longrightarrow> consecutiveFailures st' = 0 \<and> cooldownUntil st' = 0"
    "failure \<noteq> None \<Longrightarrow> consecutiveFailures st' = consecutiveFailures st + 1 \<and>
       (if failureThreshold cfg \<le> consecutiveFailures st + 1
        then \<exists>t. monotonicNow now ''P2C selector'' = Inr t \<and> cooldownUntil st' = t + of_nat (cooldownMs cfg)
        else cooldownUntil st' = cooldownUntil st)"
proof -
  have t: "0 \<le> t" if "monotonicNow now x = Inr t" for t x
  proof -
    obtain v where v: "isFinite v" "\<not> num_less v (Fin 0)" "t = rat_of v"
      using \<open>monotonicNow now x = Inr t\<close> by (auto simp: monotonicNow_def js_res split: if_splits)
    then show ?thesis by (cases v) auto
  qed
  show "inFlight st' = inFlight st - 1" "0 \<le> cooldownUntil st'"
    "failure = None \<Longrightarrow> consecutiveFailures st' = 0 \<and> cooldownUntil st' = 0"
    "failure \<noteq> None \<Longrightarrow> consecutiveFailures st' = consecutiveFailures st + 1 \<and>
       (if failureThreshold cfg \<le> consecutiveFailures st + 1
        then \<exists>t. monotonicNow now ''P2C selector'' = Inr t \<and> cooldownUntil st' = t + of_nat (cooldownMs cfg)
        else cooldownUntil st' = cooldownUntil st)"
    using assms t by (cases failure; fastforce simp: settle_p2c_def Let_def js_res cooldownDeadline_def split: if_splits)+
qed

lemma complete_keeps_ok:
  assumes ok: "p2c_ok s" and k: "k < length (p_done s)" and step: "p2c_complete cfg w c failure now k s = (s', r)"
  shows "p2c_ok s'"
proof (cases "s' = s")
  case False
  let ?i = "dn_state (p_done s ! k)"
  have d: "\<not> dn_completed (p_done s ! k)" using step False by (auto simp: p2c_complete_def)
  obtain st where st: "settle_p2c cfg failure now (p_states s ! ?i) = Inr st"
      "s' = s\<lparr>p_states := (p_states s)[?i := st], p_done := (p_done s)[k := (p_done s ! k)\<lparr>dn_completed := True\<rparr>]\<rparr>"
    using step d False by (auto simp: p2c_complete_def Let_def js_res split: sum.splits)
  have i: "?i < length (p_states s)" using p2c_okD(3) [OF ok] k by simp
  note f = settle_facts(1,2) [OF st(1) p2c_okD(2) [OF ok i]]
  have o': "open_on j (p_done s') + (if ?i = j then 1 else 0) = open_on j (p_done s)" for j
    using open_on_complete [OF k d, of j] by (simp add: st(2))
  have "inFlight (p_states s' ! j) = int (open_on j (p_done s')) \<and> 0 \<le> cooldownUntil (p_states s' ! j)"
    if "j < length (p_states s)" for j
    using p2c_okD(1,2) [OF ok that] o' [of j] f i that by (auto simp: st(2) nth_list_update)
  moreover have "dn_state e < length (p_states s)" if e: "e \<in> set (p_done s')" for e
  proof -
    have "e \<in> insert ((p_done s ! k)\<lparr>dn_completed := True\<rparr>) (set (p_done s))"
      using e set_update_subset_insert unfolding st(2) by fastforce
    then show ?thesis using p2c_okD(3) [OF ok] i by auto
  qed
  ultimately show ?thesis using ok unfolding p2c_ok_def by (simp add: st(2))
qed (use ok in simp)

lemma p2c_steps_ok: "(p2c_step url cfg)\<^sup>*\<^sup>* s s' \<Longrightarrow> p2c_ok s \<Longrightarrow> p2c_ok s'"
proof (induction rule: rtranclp_induct)
  case (step y z)
  then show ?case using select_keeps_ok complete_keeps_ok by (metis p2c_step.cases)
qed

lemma new_ok: "newP2CSelector threshold cooldown = Inr (cfg, s0) \<Longrightarrow> p2c_ok s0"
  by (auto simp: newP2CSelector_def js_res p2c_ok_def)


text \<open>The first selection among two endpoints.\<close>

lemma sample_selector:
  "newP2CSelector None None = Inr (\<lparr>failureThreshold = 3, cooldownMs = 10000\<rparr>, \<lparr>p_domains = [], p_states = [], p_done = []\<rparr>)"
  by (simp add: newP2CSelector_def selectorInteger_def int_of_def)

lemma sample_selection:
  "\<exists>s. p2c_select sample_url (initial_world :: nat world) background
      (Unpublished [sample_instance 98 [[97, 58], [97, 58, 98]]]) (Inr (Fin 0)) (Inr (Fin 0)) (Inr (Fin 5))
      \<lparr>p_domains = [], p_states = [], p_done = []\<rparr> = (s, Inr (sample_endpoints ! 0, 0)) \<and> p_states s \<noteq> []"
proof -
  have e: "sample_endpoints = [sample_endpoints ! 0, sample_endpoints ! 1]"
    by (simp add: sample_endpoints_def serviceEndpoints_def sample_instance_def)
  have i: "itemAt sample_endpoints 0 = sample_endpoints ! 0" "itemAt sample_endpoints (Suc 0) = sample_endpoints ! 1"
    "length sample_endpoints = 2" "sample_endpoints \<noteq> []"
    using arg_cong [OF e, of length] by (auto simp: itemAt_nth)
  have "eligibleP2CEndpoints sample_endpoints [] [] 5 = sample_endpoints"
    by (simp add: eligibleP2CEndpoints_def endpointCooldown_def)
  then have "p2cEndpoint sample_endpoints [] [] (Inr (Fin 0)) (Inr (Fin 0)) 5 = Inr (sample_endpoints ! 0)"
    by (simp add: p2cEndpoint_def resolvedP2CCandidate_def sampledP2CEndpoint_def endpointsFromSamples_def randomSample_def
        sampledIndex_def endpointInFlight_def Let_def i)
  moreover have "selectedP2CState [] [] sample_endpoints (sample_endpoints ! 0) =
      ([\<lparr>inFlight = 0, consecutiveFailures = 0, cooldownUntil = 0\<rparr>], [(endpointIdentity (sample_endpoints ! 0), 0)], 0)"
  proof -
    have "retainedP2CStates [] es = []" for es by (simp add: retainedP2CStates_def) (induction es; simp)
    then show ?thesis by (simp add: selectedP2CState_def)
  qed
  ultimately show ?thesis
    by (simp add: p2c_select_def sample_admitted monotonicNow_def Let_def)
qed


lemma remember_get: "map_get (rememberSelection d v m) d = Some v"
  by (rule held_get [OF held_remembered])

lemma select_counts:
  assumes ok: "p2c_ok s" and sel: "p2c_select url w c a r1 r2 now s = (s', Inr (e, k))"
    and adm: "admitSelection url w c a = Inr (snap, es)"
    and dm: "dm = (case map_get (p_domains s) (selectionDomain snap) of None \<Rightarrow> [] | Some m \<Rightarrow> m)"
    and now: "monotonicNow now ''P2C selector'' = Inr t"
  shows "well_chosen es (p_states s) dm t e"
    and "\<exists>dm'. map_get (p_domains s') (selectionDomain snap) = Some dm' \<and>
      (\<forall>x \<in> set es. endpointInFlight (p_states s') dm' x =
         endpointInFlight (p_states s) dm x + (if endpointIdentity x = endpointIdentity e then 1 else 0))"
proof -
  obtain states active i ds where p: "p2cEndpoint es (p_states s) dm r1 r2 t = Inr e"
    "selectedP2CState (p_states s) dm es e = (states, active, i)"
    "p_done s' = p_done s @ [\<lparr>dn_state = i, dn_completed = False\<rparr>]"
    "p_states s' = states[i := (states ! i)\<lparr>inFlight := inFlight (states ! i) + 1\<rparr>]"
    "p_domains s' = rememberSelection (selectionDomain snap) active ds"
    using p2c_selected [OF sel] adm dm now by (metis Inr_inject prod.inject)
  have "es \<noteq> []" using adm by (auto simp: admitSelection_def js_res Let_def split: if_splits)
  then show chosen: "well_chosen es (p_states s) dm t e" using p2c_well_chosen [OF _ p(1)] by blast
  then have e: "e \<in> set es" by (simp add: well_chosen_def)
  have dl: "\<forall>(x, j) \<in> set dm. j < length (p_states s)"
  proof (cases "map_get (p_domains s) (selectionDomain snap)")
    case (Some m)
    then show ?thesis using p2c_okD(4) [OF ok map_of_SomeD [OF Some]] by (auto simp: dm)
  qed (simp add: dm)
  note st = selected_state [OF p(2) e dl]
  have inj: "one_to_one active"
    using select_ok [OF ok sel e] adm p2c_okD(6) [of s'] remember_get [of "selectionDomain snap" active ds, THEN map_of_SomeD] p(5)
    by auto
  have "endpointInFlight (p_states s') active x =
      endpointInFlight (p_states s) dm x + (if endpointIdentity x = endpointIdentity e then 1 else 0)" if x: "x \<in> set es" for x
  proof (cases "endpointIdentity x = endpointIdentity e")
    case True
    then show ?thesis
      using st(1,2,3) by (auto simp: endpointInFlight_def p(4) nth_append)
  next
    case False
    then have ax: "map_get active (endpointIdentity x) = map_get dm (endpointIdentity x)" using st(4) x by auto
    show ?thesis
    proof (cases "map_get dm (endpointIdentity x)")
      case (Some j)
      then have "j \<noteq> i" using inj ax st(2) False unfolding one_to_one_def by metis
      moreover have "j < length (p_states s)" using dl map_of_SomeD [OF Some] by auto
      ultimately show ?thesis using False ax Some st(3) by (auto simp: endpointInFlight_def p(4) nth_append)
    qed (use False ax in \<open>simp add: endpointInFlight_def\<close>)
  qed
  then show "\<exists>dm'. map_get (p_domains s') (selectionDomain snap) = Some dm' \<and>
      (\<forall>x \<in> set es. endpointInFlight (p_states s') dm' x =
         endpointInFlight (p_states s) dm x + (if endpointIdentity x = endpointIdentity e then 1 else 0))"
    using remember_get [of "selectionDomain snap" active ds] p(5) by auto
qed

text \<open>
  C26: among two or more endpoints whose cooldown is over the selector takes one of two different candidates, the less
  loaded; with a single such endpoint it takes that one, and with none the one whose cooldown ends first, so an
  endpoint in cooldown is never taken while another is not. The selection counts once for the chosen endpoint and
  for no other. The first feedback of a selection in a live Context uncounts it; success ends the cooldown and the
  run of failures, and a failure that completes a run of \<open>failureThreshold\<close> starts a cooldown of
  \<open>cooldownMs\<close> from the time of the feedback; further feedback changes nothing.
\<close>

theorem p2c_policy:
  assumes "newP2CSelector threshold cooldown = Inr (cfg, s0)" "(p2c_step url cfg)\<^sup>*\<^sup>* s0 s"
  shows "(\<forall>snap es r1 r2 now t s' e k. admitSelection url w c a = Inr (snap, es) \<and>
      monotonicNow now ''P2C selector'' = Inr t \<and> p2c_select url w c a r1 r2 now s = (s', Inr (e, k)) \<longrightarrow>
      (let dm = (case map_get (p_domains s) (selectionDomain snap) of None \<Rightarrow> [] | Some m \<Rightarrow> m);
           dm' = the (map_get (p_domains s') (selectionDomain snap)) in
       well_chosen es (p_states s) dm t e \<and>
       (\<forall>x \<in> set es. endpointInFlight (p_states s') dm' x =
          endpointInFlight (p_states s) dm x + (if endpointIdentity x = endpointIdentity e then 1 else 0)))) \<and>
    (\<forall>k failure now s'. k < length (p_done s) \<and> \<not> dn_completed (p_done s ! k) \<and>
      p2c_complete cfg w c failure now k s = (s', Inr ()) \<longrightarrow>
      (let st = p_states s ! dn_state (p_done s ! k); st' = p_states s' ! dn_state (p_done s ! k) in
       inFlight st' = inFlight st - 1 \<and>
       (failure = None \<longrightarrow> consecutiveFailures st' = 0 \<and> cooldownUntil st' = 0) \<and>
       (failure \<noteq> None \<longrightarrow> consecutiveFailures st' = consecutiveFailures st + 1 \<and>
          (if failureThreshold cfg \<le> consecutiveFailures st + 1
           then \<exists>t. monotonicNow now ''P2C selector'' = Inr t \<and> cooldownUntil st' = t + of_nat (cooldownMs cfg)
           else cooldownUntil st' = cooldownUntil st)) \<and>
       (\<forall>failure' now'. p2c_complete cfg w c failure' now' k s' = (s', Inr ()))))"
proof -
  have ok: "p2c_ok s" using p2c_steps_ok [OF assms(2) new_ok [OF assms(1)]] .
  show ?thesis
  proof (intro conjI allI impI, goal_cases)
    case (1 snap es r1 r2 now t s' e k)
    then show ?case using select_counts [OF ok, of url w c a r1 r2 now s' e k snap es _ t] by (force simp: Let_def)
  next
    case (2 k failure now s')
    let ?i = "dn_state (p_done s ! k)"
    obtain st where st: "settle_p2c cfg failure now (p_states s ! ?i) = Inr st"
        "s' = s\<lparr>p_states := (p_states s)[?i := st], p_done := (p_done s)[k := (p_done s ! k)\<lparr>dn_completed := True\<rparr>]\<rparr>"
      using 2 by (auto simp: p2c_complete_def Let_def js_res split: sum.splits)
    have i: "?i < length (p_states s)" using p2c_okD(3) [OF ok] 2 by simp
    have "\<forall>failure' now'. p2c_complete cfg w c failure' now' k s' = (s', Inr ())"
      using 2 by (simp add: p2c_complete_def st(2))
    then show ?case
      using settle_facts [OF st(1) p2c_okD(2) [OF ok i]] i by (auto simp: st(2) Let_def)
  qed
qed

theorem p2c_policy_witness:
  "\<exists>s k. p2c_select sample_url (initial_world :: nat world) background
      (Unpublished [sample_instance 98 [[97, 58], [97, 58, 98]]]) (Inr (Fin 0)) (Inr (Fin 0)) (Inr (Fin 5))
      \<lparr>p_domains = [], p_states = [], p_done = []\<rparr> = (s, Inr (sample_endpoints ! 0, k)) \<and>
    endpointInFlight (p_states s) (the (map_get (p_domains s)
      (selectionDomain [sample_instance 98 [[97, 58], [97, 58, 98]]]))) (sample_endpoints ! 0) = 1"
proof -
  obtain s where s: "p2c_select sample_url (initial_world :: nat world) background
      (Unpublished [sample_instance 98 [[97, 58], [97, 58, 98]]]) (Inr (Fin 0)) (Inr (Fin 0)) (Inr (Fin 5))
      \<lparr>p_domains = [], p_states = [], p_done = []\<rparr> = (s, Inr (sample_endpoints ! 0, 0))"
    using sample_selection by blast
  have m: "monotonicNow (Inr (Fin 5)) ''P2C selector'' = Inr 5" by (simp add: monotonicNow_def)
  have "sample_endpoints ! 0 \<in> set sample_endpoints"
    by (simp add: sample_endpoints_def serviceEndpoints_def sample_instance_def)
  then have "endpointInFlight (p_states s) (the (map_get (p_domains s)
      (selectionDomain [sample_instance 98 [[97, 58], [97, 58, 98]]]))) (sample_endpoints ! 0) = 1"
    using conjunct1 [OF p2c_policy [OF sample_selector, of sample_url "\<lparr>p_domains = [], p_states = [], p_done = []\<rparr>"
        initial_world background "Unpublished [sample_instance 98 [[97, 58], [97, 58, 98]]]"]] sample_admitted m s
    by (force simp: Let_def endpointInFlight_def)
  then show ?thesis using s by blast
qed

end
