(* ===== verification/App.thy ===== *)
theory App
  imports Registry
begin

text \<open>
  \<open>packages/core/src/app.ts\<close>: the one-shot application lifecycle. Its three asynchronous functions,
  \<open>executeRun\<close>, \<open>executeStart\<close> and \<open>executeStop\<close>, are program counters of one state; a step of
  \<open>app_step\<close> is the code between two \<open>await\<close>s of one of them, or an event of the environment: a call of
  \<open>run\<close> or \<open>stop\<close>, the cancellation of the parent, a deadline, a promise of a callee that settles.
  \<open>calls\<close> is the list of the calls made so far.

  A callee that calls \<open>stop\<close> before it returns is the step \<open>Stop\<close> right after its call, except where
  the code has not stored the startup promise yet: there \<open>Run\<close> says whether the callee does. The steps
  allow orders that the microtask queue rules out, never fewer. A Context is the cause of its
  cancellation. \<open>normalizeError\<close> makes one error for each operation, so an error made here is named by
  its message.
\<close>

section \<open>Options\<close>

datatype endpointer = NoEndpoint | NoProtocol | ProtocolThrows raised | BadProtocol | Protocol jsstr

record server =
  sv_ref :: nat
  sv_endpointer :: endpointer

datatype installation = InstallThrows raised | InstallInvalid | Installed "raised option"

record installer =
  in_stops :: bool
  in_result :: installation

record app_config =
  appId :: jsstr
  appName :: jsstr
  appVersion :: jsstr
  appMetadata :: "(jsstr, jsstr) jsmap"
  appEndpoints :: "jsstr list"
  hasRegistrar :: bool
  registrarTimeoutMs :: nat
  startTimeoutMs :: nat
  stopTimeoutMs :: nat
  servers :: "server list"
  beforeStartHooks :: "nat list"
  afterStartHooks :: "nat list"
  beforeStopHooks :: "nat list"
  afterStopHooks :: "nat list"
  runtimeInstaller :: "installer option"

type_synonym app_option = "app_config \<Rightarrow> app_config"

definition maximumTimerDelayMs :: nat where
  "maximumTimerDelayMs = 2147483647"

definition snapshotAppMetadata :: "(jsstr, jsstr) jsmap \<Rightarrow> (jsstr, jsstr) jsmap" where
  "snapshotAppMetadata v = fromEntries v"

fun snapshotEndpoints :: "jsstr list \<Rightarrow> jsstr list res" where
  "snapshotEndpoints [] = Inr []"
| "snapshotEndpoints (v # vs) =
     (if length v = 0 then Inl (TypeError ''app endpoint must be a non-empty string'')
      else bindE (snapshotEndpoints vs) (\<lambda>es. Inr (v # es)))"

definition id_option :: "jsstr \<Rightarrow> app_option" where
  "id_option v = (\<lambda>config. config\<lparr>appId := v\<rparr>)"

definition name_option :: "jsstr \<Rightarrow> app_option" where
  "name_option v = (\<lambda>config. config\<lparr>appName := v\<rparr>)"

definition version_option :: "jsstr \<Rightarrow> app_option" where
  "version_option v = (\<lambda>config. config\<lparr>appVersion := v\<rparr>)"

definition metadata_option :: "(jsstr, jsstr) jsmap \<Rightarrow> app_option" where
  "metadata_option v = (let captured = snapshotAppMetadata v in (\<lambda>config. config\<lparr>appMetadata := captured\<rparr>))"

definition endpoint_option :: "jsstr list \<Rightarrow> app_option res" where
  "endpoint_option vs = bindE (snapshotEndpoints vs) (\<lambda>captured. Inr (\<lambda>config. config\<lparr>appEndpoints := captured\<rparr>))"

definition server_option :: "server list \<Rightarrow> app_option" where
  "server_option ss = (\<lambda>config. config\<lparr>servers := ss\<rparr>)"

definition registrar_option :: app_option where
  "registrar_option = (\<lambda>config. config\<lparr>hasRegistrar := True\<rparr>)"

definition app_timeout :: "string \<Rightarrow> js_number \<Rightarrow> nat res" where
  "app_timeout field ms =
     (if \<not> isInteger ms \<or> num_less ms (Fin 0) \<or> num_less (Fin (of_nat maximumTimerDelayMs)) ms
      then Inl (RangeError (field @ '' must be an integer from 0 to 2147483647 milliseconds''))
      else Inr (nat (int_of ms)))"

definition registrarTimeout :: "js_number \<Rightarrow> app_option res" where
  "registrarTimeout ms =
     bindE (app_timeout ''registrar timeout'' ms) (\<lambda>t. Inr (\<lambda>config. config\<lparr>registrarTimeoutMs := t\<rparr>))"

definition startTimeout :: "js_number \<Rightarrow> app_option res" where
  "startTimeout ms = bindE (app_timeout ''start timeout'' ms) (\<lambda>t. Inr (\<lambda>config. config\<lparr>startTimeoutMs := t\<rparr>))"

definition stopTimeout :: "js_number \<Rightarrow> app_option res" where
  "stopTimeout ms = bindE (app_timeout ''stop timeout'' ms) (\<lambda>t. Inr (\<lambda>config. config\<lparr>stopTimeoutMs := t\<rparr>))"

datatype hook_phase = BeforeStart | AfterStart | BeforeStop | AfterStop

definition hookOption :: "hook_phase \<Rightarrow> nat \<Rightarrow> app_option" where
  "hookOption target hook = (\<lambda>config.
     case target of
       BeforeStart \<Rightarrow> config\<lparr>beforeStartHooks := beforeStartHooks config @ [hook]\<rparr>
     | AfterStart \<Rightarrow> config\<lparr>afterStartHooks := afterStartHooks config @ [hook]\<rparr>
     | BeforeStop \<Rightarrow> config\<lparr>beforeStopHooks := beforeStopHooks config @ [hook]\<rparr>
     | AfterStop \<Rightarrow> config\<lparr>afterStopHooks := afterStopHooks config @ [hook]\<rparr>)"

definition installer_option :: "installer \<Rightarrow> app_option" where
  "installer_option v = (\<lambda>config. config\<lparr>runtimeInstaller := Some v\<rparr>)"

definition newAppConfig :: "jsstr \<Rightarrow> app_option list \<Rightarrow> app_config" where
  "newAppConfig uuid options =
     foldl (\<lambda>config option. option config)
       \<lparr>appId = uuid, appName = [], appVersion = [], appMetadata = [], appEndpoints = [], hasRegistrar = False,
        registrarTimeoutMs = 10000, startTimeoutMs = 0, stopTimeoutMs = 0, servers = [], beforeStartHooks = [],
        afterStartHooks = [], beforeStopHooks = [], afterStopHooks = [], runtimeInstaller = None\<rparr> options"

section \<open>Errors\<close>

definition normalizeError :: "raised \<Rightarrow> string \<Rightarrow> thrown" where
  "normalizeError v operation =
     (case v of R_Error e \<Rightarrow> e | R_Other \<Rightarrow> PlainError (js (operation @ '' rejected with a non-Error value'')))"

definition lifecycleFailure :: "thrown list \<Rightarrow> string \<Rightarrow> thrown option" where
  "lifecycleFailure errors message =
     (case errors of [] \<Rightarrow> None | [e] \<Rightarrow> Some e | _ \<Rightarrow> Some (AggregateError message errors))"

definition addFailure :: "thrown \<Rightarrow> thrown list \<Rightarrow> thrown list" where
  "addFailure e errors = (if e \<in> set errors then errors else errors @ [e])"

definition indexed :: "string \<Rightarrow> nat \<Rightarrow> string" where
  "indexed operation i = operation @ decimal_text i"

definition server_operation :: "nat \<Rightarrow> string \<Rightarrow> string" where
  "server_operation i operation = ''server['' @ decimal_text i @ '']'' @ operation"

section \<open>State\<close>

datatype call =
    CallHook hook_phase nat
  | CallStart nat
  | CallEndpoint nat
  | CallRegister
  | CancelApp
  | CallDeregister
  | CancelServers
  | CallStop nat
  | CallCompensate

text \<open>A wait that is bounded by a Context loses at once when the Context is already canceled.\<close>

datatype wait = Waiting | Lost thrown

datatype start_pc =
    S_None
  | S_Before nat wait
  | S_BeforeDone
  | S_Tick
  | S_Endpoint nat "jsstr list" wait
  | S_Built service_instance
  | S_Register service_instance wait
  | S_Registered
  | S_After nat wait
  | S_Done "raised option"

datatype stop_pc =
    T_None
  | T_Join wait
  | T_Before nat wait
  | T_BeforeDone
  | T_Deregister
  | T_Stops wait
  | T_Starts wait
  | T_After nat wait
  | T_Done

datatype run_pc = R_None | R_Race1 | R_Race2 | R_Stopping | R_Done "thrown option"

text \<open>The promise of \<open>invokeRegistrar("register")\<close>; a settled promise has \<open>None\<close> or its rejection.\<close>

datatype registration = Uncalled | Registering | RegisterSettled "raised option"

record app =
  stopRequested :: bool
  serversLaunched :: bool
  preparedServers :: "nat set"
  currentEndpoints :: "jsstr list"
  registeredInstance :: "service_instance option"
  startupSet :: bool
  startupAbandoned :: bool
  serverFailure :: "thrown option"
  serverPromises :: "thrown option option list"
  serverSettlements :: "thrown option option list"
  serverResults :: "thrown option option list"
  runtimeCleanup :: bool
  appErr :: "thrown option"
  startErr :: "thrown option"
  stopErr :: "thrown option"
  registration :: registration
  lateRegister :: bool
  stopOps :: "(nat \<times> thrown option option) list"
  startPC :: start_pc
  stopPC :: stop_pc
  runPC :: run_pc
  stopErrors :: "thrown list"
  runErrors :: "thrown list"
  calls :: "call list"

definition newApp :: "app_config \<Rightarrow> thrown option \<Rightarrow> app" where
  "newApp cfg parent =
     \<lparr>stopRequested = False, serversLaunched = False, preparedServers = {}, currentEndpoints = appEndpoints cfg,
      registeredInstance = None, startupSet = False, startupAbandoned = False, serverFailure = None,
      serverPromises = [], serverSettlements = [], serverResults = [], runtimeCleanup = False, appErr = parent,
      startErr = None, stopErr = None, registration = Uncalled, lateRegister = False, stopOps = [],
      startPC = S_None, stopPC = T_None, runPC = R_None, stopErrors = [], runErrors = [], calls = []\<rparr>"

definition record_call :: "call \<Rightarrow> app \<Rightarrow> app" where
  "record_call c s = s\<lparr>calls := calls s @ [c]\<rparr>"

definition begin_wait :: "bool \<Rightarrow> thrown option \<Rightarrow> wait" where
  "begin_wait bounded err = (case err of Some e \<Rightarrow> if bounded then Lost e else Waiting | None \<Rightarrow> Waiting)"

text \<open>The cause with which a bounded wait can be given up now.\<close>

definition abandons :: "bool \<Rightarrow> thrown option \<Rightarrow> wait \<Rightarrow> thrown option" where
  "abandons bounded err w = (case w of Lost e \<Rightarrow> Some e | Waiting \<Rightarrow> if bounded then err else None)"

abbreviation boundedStart :: "app_config \<Rightarrow> bool" where
  "boundedStart cfg \<equiv> 0 < startTimeoutMs cfg"

abbreviation boundedStop :: "app_config \<Rightarrow> bool" where
  "boundedStop cfg \<equiv> 0 < stopTimeoutMs cfg"

definition addStopError :: "thrown \<Rightarrow> app \<Rightarrow> app" where
  "addStopError e s = s\<lparr>stopErrors := addFailure e (stopErrors s)\<rparr>"

definition addRunError :: "thrown \<Rightarrow> app \<Rightarrow> app" where
  "addRunError e s = s\<lparr>runErrors := addFailure e (runErrors s)\<rparr>"

section \<open>Stopping\<close>

text \<open>The next hook of \<open>runCleanupHooks\<close> is called in the segment that reaches it.\<close>

definition before_stop_hooks :: "app_config \<Rightarrow> nat \<Rightarrow> app \<Rightarrow> app" where
  "before_stop_hooks cfg k s =
     (if k < length (beforeStopHooks cfg)
      then (record_call (CallHook BeforeStop k) s)\<lparr>stopPC := T_Before k (begin_wait (boundedStop cfg) (stopErr s))\<rparr>
      else s\<lparr>stopPC := T_BeforeDone\<rparr>)"

definition after_stop_hooks :: "app_config \<Rightarrow> nat \<Rightarrow> app \<Rightarrow> app" where
  "after_stop_hooks cfg k s =
     (if k < length (afterStopHooks cfg)
      then (record_call (CallHook AfterStop k) s)\<lparr>stopPC := T_After k (begin_wait (boundedStop cfg) (stopErr s))\<rparr>
      else s\<lparr>stopPC := T_Done\<rparr>)"

definition cancel_app :: "thrown \<Rightarrow> app \<Rightarrow> app" where
  "cancel_app e s =
     s\<lparr>appErr := (if appErr s = None then Some e else appErr s),
       startErr := (if startErr s = None then Some e else startErr s)\<rparr>"

definition executeStop :: "app_config \<Rightarrow> app \<Rightarrow> app" where
  "executeStop cfg s =
     (let s = record_call CancelApp (cancel_app Canceled s) in
      if startupSet s then s\<lparr>stopPC := T_Join (begin_wait (boundedStop cfg) (stopErr s))\<rparr>
      else before_stop_hooks cfg 0 s)"

definition stopApp :: "app_config \<Rightarrow> app \<Rightarrow> app" where
  "stopApp cfg s =
     (let s = s\<lparr>stopRequested := True\<rparr> in if stopPC s = T_None then executeStop cfg s else s)"

text \<open>The startup has settled, or the stop Context ends the wait for it.\<close>

definition stop_joined :: "app_config \<Rightarrow> app \<Rightarrow> app option" where
  "stop_joined cfg s =
     (case (stopPC s, startPC s) of
        (T_Join Waiting, S_Done _) \<Rightarrow> Some (before_stop_hooks cfg 0 s)
      | _ \<Rightarrow> None)"

definition stop_join_abandoned :: "app_config \<Rightarrow> app \<Rightarrow> app option" where
  "stop_join_abandoned cfg s =
     (case stopPC s of
        T_Join w \<Rightarrow>
          (case abandons (boundedStop cfg) (stopErr s) w of
             Some e \<Rightarrow> Some (before_stop_hooks cfg 0 (addStopError e (s\<lparr>startupAbandoned := True\<rparr>)))
           | None \<Rightarrow> None)
      | _ \<Rightarrow> None)"

definition stop_hook_settles :: "app_config \<Rightarrow> raised option \<Rightarrow> app \<Rightarrow> app option" where
  "stop_hook_settles cfg r s =
     (case stopPC s of
        T_Before k Waiting \<Rightarrow>
          Some (before_stop_hooks cfg (Suc k)
            (case r of None \<Rightarrow> s | Some v \<Rightarrow> addStopError (normalizeError v (indexed ''app beforeStop hook '' k)) s))
      | T_After k Waiting \<Rightarrow>
          Some (after_stop_hooks cfg (Suc k)
            (case r of None \<Rightarrow> s | Some v \<Rightarrow> addStopError (normalizeError v (indexed ''app afterStop hook '' k)) s))
      | _ \<Rightarrow> None)"

definition stop_hook_abandoned :: "app_config \<Rightarrow> app \<Rightarrow> app option" where
  "stop_hook_abandoned cfg s =
     (case stopPC s of
        T_Before k w \<Rightarrow>
          (case abandons (boundedStop cfg) (stopErr s) w of
             Some e \<Rightarrow> Some (before_stop_hooks cfg (Suc k) (addStopError e s)) | None \<Rightarrow> None)
      | T_After k w \<Rightarrow>
          (case abandons (boundedStop cfg) (stopErr s) w of
             Some e \<Rightarrow> Some (after_stop_hooks cfg (Suc k) (addStopError e s)) | None \<Rightarrow> None)
      | _ \<Rightarrow> None)"

text \<open>\<open>cancelServers\<close> and the calls of \<open>stop\<close> on every server that was launched or prepared.\<close>

definition stop_targets :: "app_config \<Rightarrow> app \<Rightarrow> nat list" where
  "stop_targets cfg s =
     filter (\<lambda>i. serversLaunched s \<or> sv_ref (servers cfg ! i) \<in> preparedServers s) [0..<length (servers cfg)]"

definition settle_starts :: "app_config \<Rightarrow> app \<Rightarrow> app" where
  "settle_starts cfg s = s\<lparr>stopPC := T_Starts (begin_wait (boundedStop cfg) (stopErr s))\<rparr>"

definition stop_servers :: "app_config \<Rightarrow> app \<Rightarrow> app" where
  "stop_servers cfg s =
     (let s = record_call CancelServers s in
      if serversLaunched s \<or> preparedServers s \<noteq> {}
      then s\<lparr>calls := calls s @ map CallStop (stop_targets cfg s),
             stopOps := map (\<lambda>i. (i, None)) (stop_targets cfg s),
             stopPC := T_Stops (begin_wait (boundedStop cfg) (stopErr s))\<rparr>
      else settle_starts cfg s)"

definition stop_deregisters :: "app_config \<Rightarrow> app \<Rightarrow> app option" where
  "stop_deregisters cfg s =
     (if stopPC s = T_BeforeDone
      then Some (case registeredInstance s of
          Some _ \<Rightarrow> (record_call CallDeregister (s\<lparr>registeredInstance := None\<rparr>))\<lparr>stopPC := T_Deregister\<rparr>
        | None \<Rightarrow> stop_servers cfg s)
      else None)"

text \<open>\<open>runRegistrar\<close> is always bounded, by the registrar timeout or the stop Context.\<close>

definition deregister_settles :: "app_config \<Rightarrow> raised option \<Rightarrow> app \<Rightarrow> app option" where
  "deregister_settles cfg r s =
     (if stopPC s = T_Deregister
      then Some (stop_servers cfg
        (case r of None \<Rightarrow> s | Some v \<Rightarrow> addStopError (normalizeError v ''application deregister'') s))
      else None)"

definition deregister_times_out :: "app_config \<Rightarrow> app \<Rightarrow> app option" where
  "deregister_times_out cfg s =
     (if stopPC s = T_Deregister then Some (stop_servers cfg (addStopError DeadlineExceeded s)) else None)"

definition server_stop_settles :: "nat \<Rightarrow> raised option \<Rightarrow> app \<Rightarrow> app option" where
  "server_stop_settles p r s =
     (if p < length (stopOps s) \<and> snd (stopOps s ! p) = None
      then let i = fst (stopOps s ! p) in
        Some (s\<lparr>stopOps := (stopOps s)[p :=
          (i, Some (map_option (\<lambda>v. normalizeError v (server_operation i '' stop'')) r))]\<rparr>)
      else None)"

definition stop_failures :: "(nat \<times> thrown option option) list \<Rightarrow> thrown list" where
  "stop_failures ops = List.map_filter (\<lambda>(i, r). case r of Some f \<Rightarrow> f | None \<Rightarrow> None) ops"

definition servers_stopped :: "app_config \<Rightarrow> app \<Rightarrow> app option" where
  "servers_stopped cfg s =
     (case stopPC s of
        T_Stops Waiting \<Rightarrow>
          if list_all (\<lambda>(i, r). r \<noteq> None) (stopOps s)
          then Some (settle_starts cfg (fold addStopError (stop_failures (stopOps s)) s)) else None
      | _ \<Rightarrow> None)"

definition servers_stop_abandoned :: "app_config \<Rightarrow> app \<Rightarrow> app option" where
  "servers_stop_abandoned cfg s =
     (case stopPC s of
        T_Stops w \<Rightarrow>
          (case abandons (boundedStop cfg) (stopErr s) w of
             Some e \<Rightarrow> Some (settle_starts cfg (addStopError e (fold addStopError (stop_failures (stopOps s)) s)))
           | None \<Rightarrow> None)
      | _ \<Rightarrow> None)"

definition read_results :: "app \<Rightarrow> app" where
  "read_results s = s\<lparr>serverResults := serverSettlements s\<rparr>"

definition starts_settled :: "app_config \<Rightarrow> app \<Rightarrow> app option" where
  "starts_settled cfg s =
     (case stopPC s of
        T_Starts Waiting \<Rightarrow>
          if list_all (\<lambda>r. r \<noteq> None) (serverSettlements s) then Some (after_stop_hooks cfg 0 (read_results s)) else None
      | _ \<Rightarrow> None)"

definition starts_abandoned :: "app_config \<Rightarrow> app \<Rightarrow> app option" where
  "starts_abandoned cfg s =
     (case stopPC s of
        T_Starts w \<Rightarrow>
          (case abandons (boundedStop cfg) (stopErr s) w of
             Some e \<Rightarrow> Some (after_stop_hooks cfg 0 (read_results (addStopError e s)))
           | None \<Rightarrow> None)
      | _ \<Rightarrow> None)"

definition stop_result :: "app \<Rightarrow> thrown option" where
  "stop_result s = lifecycleFailure (stopErrors s) ''application stop failed''"

section \<open>Starting\<close>

definition start_done :: "app_config \<Rightarrow> raised option \<Rightarrow> app \<Rightarrow> app" where
  "start_done cfg r s =
     s\<lparr>startErr := (if boundedStart cfg \<and> startErr s = None then Some Canceled else startErr s), startPC := S_Done r\<rparr>"

definition start_fails :: "app_config \<Rightarrow> thrown \<Rightarrow> app \<Rightarrow> app" where
  "start_fails cfg e s = start_done cfg (Some (R_Error e)) s"

definition before_start_hooks :: "app_config \<Rightarrow> nat \<Rightarrow> app \<Rightarrow> app" where
  "before_start_hooks cfg k s =
     (if k < length (beforeStartHooks cfg)
      then (record_call (CallHook BeforeStart k) s)\<lparr>startPC := S_Before k (begin_wait (boundedStart cfg) (startErr s))\<rparr>
      else s\<lparr>startPC := S_BeforeDone\<rparr>)"

definition after_start_hooks :: "app_config \<Rightarrow> nat \<Rightarrow> app \<Rightarrow> app" where
  "after_start_hooks cfg k s =
     (if k < length (afterStartHooks cfg)
      then (record_call (CallHook AfterStart k) s)\<lparr>startPC := S_After k (begin_wait (boundedStart cfg) (startErr s))\<rparr>
      else start_done cfg None s)"

text \<open>The last part of \<open>executeStart\<close>.\<close>

definition start_after :: "app_config \<Rightarrow> app \<Rightarrow> app" where
  "start_after cfg s = (if stopRequested s then start_done cfg None s else after_start_hooks cfg 0 s)"

text \<open>
  The first part, up to the first \<open>await\<close>. \<open>stops\<close>: the first hook calls \<open>stop\<close> before it returns,
  while the startup promise is not stored yet.
\<close>

definition executeStart :: "app_config \<Rightarrow> bool \<Rightarrow> app \<Rightarrow> app" where
  "executeStart cfg stops s =
     (let s = s\<lparr>startErr := appErr s\<rparr> in
      if stopRequested s then s\<lparr>startPC := S_Tick\<rparr>
      else if beforeStartHooks cfg = [] then s\<lparr>startPC := S_BeforeDone\<rparr>
      else let s = record_call (CallHook BeforeStart 0) s;
               s = (if stops then stopApp cfg s else s)
           in s\<lparr>startPC := S_Before 0 (begin_wait (boundedStart cfg) (startErr s))\<rparr>)"

definition start_hook_settles :: "app_config \<Rightarrow> raised option \<Rightarrow> app \<Rightarrow> app option" where
  "start_hook_settles cfg r s =
     (case startPC s of
        S_Before k Waiting \<Rightarrow>
          Some (case r of
              None \<Rightarrow> before_start_hooks cfg (Suc k) s
            | Some v \<Rightarrow> start_fails cfg (normalizeError v (indexed ''app beforeStart hook '' k)) s)
      | S_After k Waiting \<Rightarrow>
          Some (case r of
              None \<Rightarrow> after_start_hooks cfg (Suc k) s
            | Some v \<Rightarrow> start_fails cfg (normalizeError v (indexed ''app afterStart hook '' k)) s)
      | _ \<Rightarrow> None)"

text \<open>\<open>invokeStart\<close> for every server: \<open>Some\<close> of what it throws, or a promise that is open.\<close>

definition fail_server :: "thrown \<Rightarrow> app \<Rightarrow> app" where
  "fail_server e s = s\<lparr>serverFailure := (if serverFailure s = None then Some e else serverFailure s)\<rparr>"

fun invoke_starts :: "nat \<Rightarrow> raised option list \<Rightarrow> app \<Rightarrow> app" where
  "invoke_starts i [] s = s"
| "invoke_starts i (r # rs) s =
     (let s = record_call (CallStart i) s;
          s = (case r of
                 None \<Rightarrow> s\<lparr>serverPromises := serverPromises s @ [None]\<rparr>
               | Some v \<Rightarrow>
                   let e = normalizeError v (server_operation i '' start'') in
                   fail_server e (s\<lparr>serverPromises := serverPromises s @ [Some (Some e)]\<rparr>));
          s = s\<lparr>serverSettlements := serverSettlements s @ [None]\<rparr>
      in invoke_starts (Suc i) rs s)"

definition start_launches :: "app_config \<Rightarrow> raised option list \<Rightarrow> app \<Rightarrow> app option" where
  "start_launches cfg rs s =
     (if startPC s = S_BeforeDone \<and> length rs = length (servers cfg)
      then Some ((if stopRequested s then s else invoke_starts 0 rs (s\<lparr>serversLaunched := True\<rparr>))\<lparr>startPC := S_Tick\<rparr>)
      else None)"

text \<open>
  The protocols of the endpointers must be one non-empty string. The last message names both
  protocols; the model keeps its beginning.
\<close>

fun check_protocols :: "server list \<Rightarrow> jsstr option \<Rightarrow> raised option" where
  "check_protocols [] selected = None"
| "check_protocols (x # xs) selected =
     (case sv_endpointer x of
        NoEndpoint \<Rightarrow> check_protocols xs selected
      | NoProtocol \<Rightarrow> Some (R_Error (TypeError ''app Endpointer must implement protocol''))
      | ProtocolThrows v \<Rightarrow> Some v
      | BadProtocol \<Rightarrow> Some (R_Error (TypeError ''app Endpointer protocol must be a non-empty string''))
      | Protocol p \<Rightarrow>
          if selected \<noteq> None \<and> selected \<noteq> Some p
          then Some (R_Error (TypeError ''app Endpointer protocols must match''))
          else check_protocols xs (Some p))"

fun next_endpointer :: "server list \<Rightarrow> nat \<Rightarrow> nat option" where
  "next_endpointer [] i = None"
| "next_endpointer (x # xs) i = (if sv_endpointer x = NoEndpoint then next_endpointer xs (Suc i) else Some i)"

definition built_instance :: "url \<Rightarrow> app_config \<Rightarrow> app \<Rightarrow> app" where
  "built_instance url cfg s =
     (case snapshotServiceInstance url
             \<lparr>si_id = appId cfg, si_name = appName cfg, si_version = appVersion cfg, si_metadata = appMetadata cfg,
              si_endpoints = currentEndpoints s\<rparr> of
        Inl e \<Rightarrow> start_fails cfg e s
      | Inr i \<Rightarrow> s\<lparr>currentEndpoints := si_endpoints i, startPC := S_Built i\<rparr>)"

text \<open>The loop over the endpointers from index \<open>i\<close>, with the endpoints found so far.\<close>

definition resolve_endpoints :: "url \<Rightarrow> app_config \<Rightarrow> nat \<Rightarrow> jsstr list \<Rightarrow> app \<Rightarrow> app" where
  "resolve_endpoints url cfg i endpoints s =
     (case (if stopRequested s then None else next_endpointer (drop i (servers cfg)) i) of
        Some j \<Rightarrow>
          (record_call (CallEndpoint j) (s\<lparr>preparedServers := insert (sv_ref (servers cfg ! j)) (preparedServers s)\<rparr>))
            \<lparr>startPC := S_Endpoint j endpoints (begin_wait (boundedStart cfg) (startErr s))\<rparr>
      | None \<Rightarrow>
          (case snapshotEndpoints endpoints of
             Inl e \<Rightarrow> start_fails cfg e s
           | Inr es \<Rightarrow> built_instance url cfg (s\<lparr>currentEndpoints := es\<rparr>)))"

definition buildInstance :: "url \<Rightarrow> app_config \<Rightarrow> app \<Rightarrow> app" where
  "buildInstance url cfg s =
     (case check_protocols (servers cfg) None of
        Some v \<Rightarrow> start_done cfg (Some v) s
      | None \<Rightarrow>
          if currentEndpoints s = [] then resolve_endpoints url cfg 0 [] s else built_instance url cfg s)"

definition start_ticks :: "url \<Rightarrow> app_config \<Rightarrow> app \<Rightarrow> app option" where
  "start_ticks url cfg s =
     (if startPC s = S_Tick
      then Some (case serverFailure s of
          Some e \<Rightarrow> start_fails cfg e s
        | None \<Rightarrow>
            if \<not> stopRequested s \<and> hasRegistrar cfg then buildInstance url cfg s else start_after cfg s)
      else None)"

definition endpoint_settles :: "url \<Rightarrow> app_config \<Rightarrow> (raised + jsstr) \<Rightarrow> app \<Rightarrow> app option" where
  "endpoint_settles url cfg r s =
     (case startPC s of
        S_Endpoint j endpoints Waiting \<Rightarrow>
          Some (case r of
              Inl v \<Rightarrow> start_done cfg (Some v) s
            | Inr e \<Rightarrow> resolve_endpoints url cfg (Suc j) (endpoints @ [e]) s)
      | _ \<Rightarrow> None)"

definition start_registers :: "app_config \<Rightarrow> app \<Rightarrow> app option" where
  "start_registers cfg s =
     (case startPC s of
        S_Built i \<Rightarrow>
          Some (if stopRequested s then start_after cfg s
                else (record_call CallRegister (s\<lparr>registration := Registering\<rparr>))
                       \<lparr>startPC := S_Register i (begin_wait (boundedStart cfg) (startErr s))\<rparr>)
      | _ \<Rightarrow> None)"

definition register_settles :: "raised option \<Rightarrow> app \<Rightarrow> app option" where
  "register_settles r s =
     (if registration s = Registering then Some (s\<lparr>registration := RegisterSettled r\<rparr>) else None)"

definition compensateRegister :: "app \<Rightarrow> app" where
  "compensateRegister s = record_call CallCompensate s"

text \<open>The caller of \<open>registerInstance\<close> sees the promise settle.\<close>

definition start_registered :: "app_config \<Rightarrow> app \<Rightarrow> app option" where
  "start_registered cfg s =
     (case (startPC s, registration s) of
        (S_Register i Waiting, RegisterSettled None) \<Rightarrow>
          Some ((if startupAbandoned s then compensateRegister s else s\<lparr>registeredInstance := Some i\<rparr>)
            \<lparr>startPC := S_Registered\<rparr>)
      | (S_Register i Waiting, RegisterSettled (Some v)) \<Rightarrow>
          Some (start_fails cfg (normalizeError v ''application register'') s)
      | _ \<Rightarrow> None)"

text \<open>It gives up: a later success is undone by \<open>late_registration\<close>.\<close>

definition give_up_register :: "app_config \<Rightarrow> thrown \<Rightarrow> app \<Rightarrow> app" where
  "give_up_register cfg e s = start_fails cfg e (s\<lparr>lateRegister := True\<rparr>)"

definition register_times_out :: "app_config \<Rightarrow> app \<Rightarrow> app option" where
  "register_times_out cfg s =
     (case startPC s of
        S_Register i w \<Rightarrow> Some (give_up_register cfg DeadlineExceeded s)
      | _ \<Rightarrow> None)"

definition late_registration :: "app \<Rightarrow> app option" where
  "late_registration s =
     (case registration s of
        RegisterSettled r \<Rightarrow>
          if lateRegister s
          then Some ((case r of None \<Rightarrow> compensateRegister s | Some _ \<Rightarrow> s)\<lparr>lateRegister := False\<rparr>) else None
      | _ \<Rightarrow> None)"

definition start_continues :: "app_config \<Rightarrow> app \<Rightarrow> app option" where
  "start_continues cfg s = (if startPC s = S_Registered then Some (start_after cfg s) else None)"

definition start_abandoned :: "app_config \<Rightarrow> app \<Rightarrow> app option" where
  "start_abandoned cfg s =
     (case startPC s of
        S_Before k w \<Rightarrow> map_option (\<lambda>e. start_fails cfg e s) (abandons (boundedStart cfg) (startErr s) w)
      | S_Endpoint j es w \<Rightarrow> map_option (\<lambda>e. start_fails cfg e s) (abandons (boundedStart cfg) (startErr s) w)
      | S_Register i w \<Rightarrow> map_option (\<lambda>e. give_up_register cfg e s) (abandons (boundedStart cfg) (startErr s) w)
      | S_After k w \<Rightarrow> map_option (\<lambda>e. start_fails cfg e s) (abandons (boundedStart cfg) (startErr s) w)
      | _ \<Rightarrow> None)"

section \<open>Servers\<close>

definition server_settles :: "nat \<Rightarrow> raised option \<Rightarrow> app \<Rightarrow> app option" where
  "server_settles i r s =
     (if i < length (serverPromises s) \<and> serverPromises s ! i = None
      then Some (case r of
          None \<Rightarrow> s\<lparr>serverPromises := (serverPromises s)[i := Some None]\<rparr>
        | Some v \<Rightarrow>
            let e = normalizeError v (server_operation i '' start'') in
            fail_server e (s\<lparr>serverPromises := (serverPromises s)[i := Some (Some e)]\<rparr>))
      else None)"

text \<open>The reaction that fills \<open>serverSettlements\<close>.\<close>

definition settlement_recorded :: "nat \<Rightarrow> app \<Rightarrow> app option" where
  "settlement_recorded i s =
     (if i < length (serverPromises s) \<and> serverPromises s ! i \<noteq> None \<and> serverSettlements s ! i = None
      then Some (s\<lparr>serverSettlements := (serverSettlements s)[i := serverPromises s ! i]\<rparr>) else None)"

section \<open>Running\<close>

definition run_fails :: "app_config \<Rightarrow> raised \<Rightarrow> app \<Rightarrow> app" where
  "run_fails cfg v s =
     (let e = normalizeError v ''application run'';
          s = (if stopRequested s \<and> e = Canceled then s else addRunError e s)
      in (stopApp cfg s)\<lparr>runPC := R_Stopping\<rparr>)"

definition run_stops :: "app_config \<Rightarrow> app \<Rightarrow> app" where
  "run_stops cfg s = (stopApp cfg s)\<lparr>runPC := R_Stopping\<rparr>"

definition start_stored :: "app_config \<Rightarrow> bool \<Rightarrow> app \<Rightarrow> app" where
  "start_stored cfg stops s = (executeStart cfg stops s)\<lparr>startupSet := True, runPC := R_Race1\<rparr>"

definition runApp :: "app_config \<Rightarrow> bool \<Rightarrow> app \<Rightarrow> app option" where
  "runApp cfg stops s =
     (if runPC s \<noteq> R_None then None
      else Some (case runtimeInstaller cfg of
          None \<Rightarrow> start_stored cfg stops s
        | Some i \<Rightarrow>
            let s = (if in_stops i then stopApp cfg s else s) in
            (case in_result i of
               InstallThrows v \<Rightarrow> run_fails cfg v s
             | InstallInvalid \<Rightarrow>
                 run_fails cfg (R_Error (TypeError ''runtime installer must return a cleanup function'')) s
             | Installed _ \<Rightarrow> start_stored cfg stops (s\<lparr>runtimeCleanup := True\<rparr>))))"

text \<open>Which promise a race of \<open>executeRun\<close> takes.\<close>

datatype winner = StartupWins | FailureWins | StopWins

definition run_races :: "app_config \<Rightarrow> winner \<Rightarrow> app \<Rightarrow> app option" where
  "run_races cfg win s =
     (case win of
        StartupWins \<Rightarrow>
          (case (runPC s, startPC s) of
             (R_Race1, S_Done None) \<Rightarrow> Some (s\<lparr>runPC := R_Race2\<rparr>)
           | (R_Race1, S_Done (Some v)) \<Rightarrow> Some (run_fails cfg v s)
           | _ \<Rightarrow> None)
      | FailureWins \<Rightarrow>
          (case serverFailure s of
             Some e \<Rightarrow>
               if runPC s = R_Race1 \<or> runPC s = R_Race2 then Some (run_fails cfg (R_Error e) s) else None
           | None \<Rightarrow> None)
      | StopWins \<Rightarrow>
          if \<not> stopRequested s then None
          else if runPC s = R_Race1 then Some (s\<lparr>runPC := R_Race2\<rparr>)
          else if runPC s = R_Race2 then Some (run_stops cfg s)
          else None)"

definition result_errors :: "thrown option option list \<Rightarrow> thrown list" where
  "result_errors rs =
     filter (\<lambda>e. e \<noteq> Canceled) (List.map_filter (\<lambda>r. case r of Some (Some e) \<Rightarrow> Some e | _ \<Rightarrow> None) rs)"

definition removeRuntimeOption :: "app_config \<Rightarrow> app \<Rightarrow> app" where
  "removeRuntimeOption cfg s =
     (let had = runtimeCleanup s; s = s\<lparr>runtimeCleanup := False\<rparr> in
      if \<not> had then s
      else (case runtimeInstaller cfg of
              Some i \<Rightarrow>
                (case in_result i of
                   Installed (Some v) \<Rightarrow> addRunError (normalizeError v ''runtime cleanup'') s
                 | _ \<Rightarrow> s)
            | None \<Rightarrow> s))"

text \<open>The stop promise has settled.\<close>

definition run_finishes :: "app_config \<Rightarrow> app \<Rightarrow> app option" where
  "run_finishes cfg s =
     (if runPC s = R_Stopping \<and> stopPC s = T_Done
      then
        let s = (case stop_result s of None \<Rightarrow> s | Some e \<Rightarrow> addRunError e s);
            s = fold addRunError (result_errors (serverResults s)) s;
            s = removeRuntimeOption cfg s
        in Some (s\<lparr>runPC := R_Done (lifecycleFailure (runErrors s) ''application lifecycle failed'')\<rparr>)
      else None)"

section \<open>Steps\<close>

datatype input =
    Run bool
  | Stop
  | ParentCanceled thrown
  | StartDeadline
  | StopDeadline
  | StartHookSettles "raised option"
  | StartLaunches "raised option list"
  | StartTicks
  | EndpointSettles "raised + jsstr"
  | StartRegisters
  | RegisterSettles "raised option"
  | StartRegistered
  | RegisterTimesOut
  | LateRegistration
  | StartContinues
  | StartAbandoned
  | ServerSettles nat "raised option"
  | SettlementRecorded nat
  | StopJoined
  | StopJoinAbandoned
  | StopHookSettles "raised option"
  | StopHookAbandoned
  | StopDeregisters
  | DeregisterSettles "raised option"
  | DeregisterTimesOut
  | ServerStopSettles nat "raised option"
  | ServersStopped
  | ServersStopAbandoned
  | StartsSettled
  | StartsAbandoned
  | RunRaces winner
  | RunFinishes

text \<open>
  A call of \<open>stop\<close> (by anyone, the callback that observes the parent included) is a step only the first time
  it changes the state; later calls return the same promise.
\<close>

fun app_step :: "url \<Rightarrow> app_config \<Rightarrow> input \<Rightarrow> app \<Rightarrow> app option" where
  "app_step url cfg (Run stops) s = runApp cfg stops s"
| "app_step url cfg Stop s = (if stopRequested s then None else Some (stopApp cfg s))"
| "app_step url cfg (ParentCanceled e) s = (if appErr s = None then Some (cancel_app e s) else None)"
| "app_step url cfg StartDeadline s =
     (if boundedStart cfg \<and> startErr s = None then Some (s\<lparr>startErr := Some DeadlineExceeded\<rparr>) else None)"
| "app_step url cfg StopDeadline s =
     (if boundedStop cfg \<and> stopErr s = None \<and> stopPC s \<noteq> T_None
      then Some (s\<lparr>stopErr := Some DeadlineExceeded\<rparr>) else None)"
| "app_step url cfg (StartHookSettles r) s = start_hook_settles cfg r s"
| "app_step url cfg (StartLaunches rs) s = start_launches cfg rs s"
| "app_step url cfg StartTicks s = start_ticks url cfg s"
| "app_step url cfg (EndpointSettles r) s = endpoint_settles url cfg r s"
| "app_step url cfg StartRegisters s = start_registers cfg s"
| "app_step url cfg (RegisterSettles r) s = register_settles r s"
| "app_step url cfg StartRegistered s = start_registered cfg s"
| "app_step url cfg RegisterTimesOut s = register_times_out cfg s"
| "app_step url cfg LateRegistration s = late_registration s"
| "app_step url cfg StartContinues s = start_continues cfg s"
| "app_step url cfg StartAbandoned s = start_abandoned cfg s"
| "app_step url cfg (ServerSettles i r) s = server_settles i r s"
| "app_step url cfg (SettlementRecorded i) s = settlement_recorded i s"
| "app_step url cfg StopJoined s = stop_joined cfg s"
| "app_step url cfg StopJoinAbandoned s = stop_join_abandoned cfg s"
| "app_step url cfg (StopHookSettles r) s = stop_hook_settles cfg r s"
| "app_step url cfg StopHookAbandoned s = stop_hook_abandoned cfg s"
| "app_step url cfg StopDeregisters s = stop_deregisters cfg s"
| "app_step url cfg (DeregisterSettles r) s = deregister_settles cfg r s"
| "app_step url cfg DeregisterTimesOut s = deregister_times_out cfg s"
| "app_step url cfg (ServerStopSettles p r) s = server_stop_settles p r s"
| "app_step url cfg ServersStopped s = servers_stopped cfg s"
| "app_step url cfg ServersStopAbandoned s = servers_stop_abandoned cfg s"
| "app_step url cfg StartsSettled s = starts_settled cfg s"
| "app_step url cfg StartsAbandoned s = starts_abandoned cfg s"
| "app_step url cfg (RunRaces win) s = run_races cfg win s"
| "app_step url cfg RunFinishes s = run_finishes cfg s"

inductive app_reachable :: "url \<Rightarrow> app_config \<Rightarrow> app \<Rightarrow> bool" for url cfg where
  app_new: "app_reachable url cfg (newApp cfg parent)"
| app_steps: "app_reachable url cfg s \<Longrightarrow> app_step url cfg i s = Some s' \<Longrightarrow> app_reachable url cfg s'"

end
