(* ===== verification/App_Spec.thy ===== *)
theory App_Spec
  imports App
begin

text \<open>
  The segments of the application lifecycle as updates of the state, and the order of its calls: a
  rank for every call of the startup and of the shutdown, and the ranks that each program counter has
  passed.
\<close>

section \<open>Segments as updates\<close>

definition before_stop_pc :: "app_config \<Rightarrow> nat \<Rightarrow> thrown option \<Rightarrow> stop_pc" where
  "before_stop_pc cfg k err =
     (if k < length (beforeStopHooks cfg) then T_Before k (begin_wait (boundedStop cfg) err) else T_BeforeDone)"

definition after_stop_pc :: "app_config \<Rightarrow> nat \<Rightarrow> thrown option \<Rightarrow> stop_pc" where
  "after_stop_pc cfg k err =
     (if k < length (afterStopHooks cfg) then T_After k (begin_wait (boundedStop cfg) err) else T_Done)"

definition hook_calls :: "hook_phase \<Rightarrow> nat list \<Rightarrow> nat \<Rightarrow> call list" where
  "hook_calls p hooks k = (if k < length hooks then [CallHook p k] else [])"

definition stopping :: "app \<Rightarrow> bool" where
  "stopping s \<longleftrightarrow> serversLaunched s \<or> preparedServers s \<noteq> {}"

lemma before_stop_eq:
  "before_stop_hooks cfg k s = s\<lparr>calls := calls s @ hook_calls BeforeStop (beforeStopHooks cfg) k,
     stopPC := before_stop_pc cfg k (stopErr s)\<rparr>"
  by (simp add: before_stop_hooks_def hook_calls_def before_stop_pc_def record_call_def)

lemma after_stop_eq:
  "after_stop_hooks cfg k s = s\<lparr>calls := calls s @ hook_calls AfterStop (afterStopHooks cfg) k,
     stopPC := after_stop_pc cfg k (stopErr s)\<rparr>"
  by (simp add: after_stop_hooks_def hook_calls_def after_stop_pc_def record_call_def)

lemma stop_servers_eq:
  "stop_servers cfg s = s\<lparr>calls := calls s @ CancelServers # (if stopping s then map CallStop (stop_targets cfg s) else []),
     stopOps := (if stopping s then map (\<lambda>i. (i, None)) (stop_targets cfg s) else stopOps s),
     stopPC := (if stopping s then T_Stops (begin_wait (boundedStop cfg) (stopErr s))
                else T_Starts (begin_wait (boundedStop cfg) (stopErr s)))\<rparr>"
  by (simp add: stop_servers_def stopping_def settle_starts_def record_call_def Let_def stop_targets_def)

lemma executeStop_eq:
  "executeStop cfg s = s\<lparr>appErr := (if appErr s = None then Some Canceled else appErr s),
     startErr := (if startErr s = None then Some Canceled else startErr s),
     calls := calls s @ CancelApp # (if startupSet s then [] else hook_calls BeforeStop (beforeStopHooks cfg) 0),
     stopPC := (if startupSet s then T_Join (begin_wait (boundedStop cfg) (stopErr s))
                else before_stop_pc cfg 0 (stopErr s))\<rparr>"
  by (simp add: executeStop_def cancel_app_def record_call_def Let_def before_stop_eq)

text \<open>\<open>stopApp\<close> is \<open>executeStop\<close> the first time, and nothing later.\<close>

definition stop_first :: "app \<Rightarrow> bool" where
  "stop_first s \<longleftrightarrow> stopPC s = T_None"

lemma stopApp_eq:
  "stopApp cfg s =
     (if stop_first s
      then s\<lparr>stopRequested := True, appErr := (if appErr s = None then Some Canceled else appErr s),
        startErr := (if startErr s = None then Some Canceled else startErr s),
        calls := calls s @ CancelApp # (if startupSet s then [] else hook_calls BeforeStop (beforeStopHooks cfg) 0),
        stopPC := (if startupSet s then T_Join (begin_wait (boundedStop cfg) (stopErr s))
                   else before_stop_pc cfg 0 (stopErr s))\<rparr>
      else s\<lparr>stopRequested := True\<rparr>)"
  by (simp add: stopApp_def Let_def executeStop_eq stop_first_def)

lemma start_fails_eq:
  "start_fails cfg e s = s\<lparr>startErr := (if boundedStart cfg \<and> startErr s = None then Some Canceled else startErr s),
     startPC := S_Done (Some (R_Error e))\<rparr>"
  by (simp add: start_fails_def start_done_def)

definition before_start_pc :: "app_config \<Rightarrow> nat \<Rightarrow> thrown option \<Rightarrow> start_pc" where
  "before_start_pc cfg k err =
     (if k < length (beforeStartHooks cfg) then S_Before k (begin_wait (boundedStart cfg) err) else S_BeforeDone)"

lemma before_start_eq:
  "before_start_hooks cfg k s = s\<lparr>calls := calls s @ hook_calls BeforeStart (beforeStartHooks cfg) k,
     startPC := before_start_pc cfg k (startErr s)\<rparr>"
  by (simp add: before_start_hooks_def hook_calls_def before_start_pc_def record_call_def)

text \<open>After the last start hook the startup is done and cancels its Context.\<close>

definition done_err :: "app_config \<Rightarrow> app \<Rightarrow> thrown option" where
  "done_err cfg s = (if boundedStart cfg \<and> startErr s = None then Some Canceled else startErr s)"

lemma after_start_eq:
  "after_start_hooks cfg k s =
     (if k < length (afterStartHooks cfg)
      then s\<lparr>calls := calls s @ [CallHook AfterStart k], startPC := S_After k (begin_wait (boundedStart cfg) (startErr s))\<rparr>
      else s\<lparr>startErr := done_err cfg s, startPC := S_Done None\<rparr>)"
  by (simp add: after_start_hooks_def record_call_def start_done_def done_err_def)

lemma fold_addStopError: "fold addStopError es s = s\<lparr>stopErrors := fold addFailure es (stopErrors s)\<rparr>"
  by (induction es arbitrary: s) (simp_all add: addStopError_def)

lemma fold_addRunError: "fold addRunError es s = s\<lparr>runErrors := fold addFailure es (runErrors s)\<rparr>"
  by (induction es arbitrary: s) (simp_all add: addRunError_def)

text \<open>What launching the servers changes.\<close>

lemma invoke_starts_keeps [simp]:
  "stopRequested (invoke_starts i rs s) = stopRequested s" "serversLaunched (invoke_starts i rs s) = serversLaunched s"
  "preparedServers (invoke_starts i rs s) = preparedServers s" "startPC (invoke_starts i rs s) = startPC s"
  "stopPC (invoke_starts i rs s) = stopPC s" "runPC (invoke_starts i rs s) = runPC s"
  "registration (invoke_starts i rs s) = registration s" "lateRegister (invoke_starts i rs s) = lateRegister s"
  "registeredInstance (invoke_starts i rs s) = registeredInstance s" "stopOps (invoke_starts i rs s) = stopOps s"
  "startupSet (invoke_starts i rs s) = startupSet s" "startupAbandoned (invoke_starts i rs s) = startupAbandoned s"
  "serverResults (invoke_starts i rs s) = serverResults s" "stopErrors (invoke_starts i rs s) = stopErrors s"
  "runErrors (invoke_starts i rs s) = runErrors s" "startErr (invoke_starts i rs s) = startErr s"
  "stopErr (invoke_starts i rs s) = stopErr s" "appErr (invoke_starts i rs s) = appErr s"
  by (induction rs arbitrary: i s) (simp_all add: record_call_def fail_server_def Let_def split: option.split)

lemma invoke_starts_calls [simp]: "calls (invoke_starts i rs s) = calls s @ map CallStart [i..<i + length rs]"
proof (induction rs arbitrary: i s)
  case (Cons r rs)
  have "map CallStart [i..<i + length (r # rs)] = CallStart i # map CallStart [Suc i..<Suc i + length rs]"
    by (simp add: upt_conv_Cons del: upt_Suc)
  then show ?case
    by (simp add: record_call_def fail_server_def Let_def Cons.IH del: upt_Suc split: option.split)
qed simp

lemma invoke_starts_promises: "length (serverPromises (invoke_starts i rs s)) = length (serverPromises s) + length rs"
  "serverSettlements (invoke_starts i rs s) = serverSettlements s @ replicate (length rs) None"
  by (induction rs arbitrary: i s) (simp_all add: record_call_def fail_server_def Let_def split: option.split)

text \<open>What resolving the endpoints can do.\<close>

lemma built_instance_cases:
  obtains (failed) e where "built_instance url cfg s = start_fails cfg e s"
  | (built) i where "built_instance url cfg s = s\<lparr>currentEndpoints := si_endpoints i, startPC := S_Built i\<rparr>"
  by (cases "snapshotServiceInstance url \<lparr>si_id = appId cfg, si_name = appName cfg, si_version = appVersion cfg,
      si_metadata = appMetadata cfg, si_endpoints = currentEndpoints s\<rparr>") (auto simp: built_instance_def)

lemma resolve_endpoints_cases:
  obtains (call) j w where "resolve_endpoints url cfg i es s = s\<lparr>calls := calls s @ [CallEndpoint j],
      preparedServers := insert (sv_ref (servers cfg ! j)) (preparedServers s), startPC := S_Endpoint j es w\<rparr>"
      "next_endpointer (drop i (servers cfg)) i = Some j" "\<not> stopRequested s"
  | (failed) e es' where "resolve_endpoints url cfg i es s = start_fails cfg e (s\<lparr>currentEndpoints := es'\<rparr>)"
  | (built) x where "resolve_endpoints url cfg i es s = s\<lparr>currentEndpoints := si_endpoints x, startPC := S_Built x\<rparr>"
proof (cases "if stopRequested s then None else next_endpointer (drop i (servers cfg)) i")
  case (Some j)
  then show thesis
    by (intro call [of j "begin_wait (boundedStart cfg) (startErr s)"])
      (simp_all add: resolve_endpoints_def record_call_def split: if_splits)
next
  case None
  show thesis
  proof (cases "snapshotEndpoints es")
    case (Inl e)
    have "start_fails cfg e (s\<lparr>currentEndpoints := currentEndpoints s\<rparr>) = start_fails cfg e s" by simp
    then show thesis using None Inl by (intro failed [of e "currentEndpoints s"]) (simp add: resolve_endpoints_def)
  next
    case (Inr es')
    then have r: "resolve_endpoints url cfg i es s = built_instance url cfg (s\<lparr>currentEndpoints := es'\<rparr>)"
      using None by (simp add: resolve_endpoints_def)
    show thesis
    proof (cases rule: built_instance_cases [of url cfg "s\<lparr>currentEndpoints := es'\<rparr>"])
      case (failed e)
      then show thesis using r that(2) by simp
    next
      case (built x)
      then show thesis using r that(3) by simp
    qed
  qed
qed

lemma built_instance_keeps [simp]:
  "stopRequested (built_instance url cfg s) = stopRequested s" "serversLaunched (built_instance url cfg s) = serversLaunched s"
  "preparedServers (built_instance url cfg s) = preparedServers s" "calls (built_instance url cfg s) = calls s"
  "stopPC (built_instance url cfg s) = stopPC s" "runPC (built_instance url cfg s) = runPC s"
  "registration (built_instance url cfg s) = registration s" "lateRegister (built_instance url cfg s) = lateRegister s"
  "registeredInstance (built_instance url cfg s) = registeredInstance s" "stopOps (built_instance url cfg s) = stopOps s"
  "startupSet (built_instance url cfg s) = startupSet s" "startupAbandoned (built_instance url cfg s) = startupAbandoned s"
  "serverResults (built_instance url cfg s) = serverResults s" "stopErrors (built_instance url cfg s) = stopErrors s"
  "runErrors (built_instance url cfg s) = runErrors s" "stopErr (built_instance url cfg s) = stopErr s"
  by (simp_all add: built_instance_def start_fails_eq split: sum.split)

lemma resolve_endpoints_keeps [simp]:
  "stopRequested (resolve_endpoints url cfg i es s) = stopRequested s"
  "serversLaunched (resolve_endpoints url cfg i es s) = serversLaunched s"
  "stopPC (resolve_endpoints url cfg i es s) = stopPC s" "runPC (resolve_endpoints url cfg i es s) = runPC s"
  "registration (resolve_endpoints url cfg i es s) = registration s"
  "lateRegister (resolve_endpoints url cfg i es s) = lateRegister s"
  "registeredInstance (resolve_endpoints url cfg i es s) = registeredInstance s"
  "stopOps (resolve_endpoints url cfg i es s) = stopOps s" "startupSet (resolve_endpoints url cfg i es s) = startupSet s"
  "startupAbandoned (resolve_endpoints url cfg i es s) = startupAbandoned s"
  "serverResults (resolve_endpoints url cfg i es s) = serverResults s"
  "stopErrors (resolve_endpoints url cfg i es s) = stopErrors s" "runErrors (resolve_endpoints url cfg i es s) = runErrors s"
  "stopErr (resolve_endpoints url cfg i es s) = stopErr s"
  by (simp_all add: resolve_endpoints_def record_call_def start_fails_eq split: sum.split option.split)

lemma next_endpointer_range: "next_endpointer xs i = Some j \<Longrightarrow> i \<le> j \<and> j < i + length xs"
  by (induction xs i rule: next_endpointer.induct) (auto split: if_splits)

lemma next_endpointer_index: "next_endpointer (drop i xs) i = Some j \<Longrightarrow> i \<le> j \<and> j < length xs"
  using next_endpointer_range [of "drop i xs" i j] by simp (cases "i \<le> length xs"; simp)

section \<open>Order of the calls\<close>

text \<open>The place of a call in the startup, and in the shutdown.\<close>

fun start_rank :: "call \<Rightarrow> (nat \<times> nat) option" where
  "start_rank (CallHook BeforeStart k) = Some (0, k)"
| "start_rank (CallStart i) = Some (1, i)"
| "start_rank (CallEndpoint j) = Some (2, j)"
| "start_rank CallRegister = Some (3, 0)"
| "start_rank (CallHook AfterStart k) = Some (4, k)"
| "start_rank _ = None"

fun stop_rank :: "call \<Rightarrow> (nat \<times> nat) option" where
  "stop_rank CancelApp = Some (0, 0)"
| "stop_rank (CallHook BeforeStop k) = Some (1, k)"
| "stop_rank CallDeregister = Some (2, 0)"
| "stop_rank CancelServers = Some (3, 0)"
| "stop_rank (CallStop i) = Some (4, i)"
| "stop_rank (CallHook AfterStop k) = Some (5, k)"
| "stop_rank _ = None"

fun rank_le :: "nat \<times> nat \<Rightarrow> nat \<times> nat \<Rightarrow> bool" where
  "rank_le (a, b) (c, d) \<longleftrightarrow> a < c \<or> a = c \<and> b \<le> d"

fun rank_less :: "nat \<times> nat \<Rightarrow> nat \<times> nat \<Rightarrow> bool" where
  "rank_less (a, b) (c, d) \<longleftrightarrow> a < c \<or> a = c \<and> b < d"

lemma rank_le_refl [simp]: "rank_le p p" and rank_le_trans: "rank_le p q \<Longrightarrow> rank_le q r \<Longrightarrow> rank_le p r"
  by (cases p; cases q; cases r; auto)+

text \<open>The ranked calls of a list, from one rank up to (and without) another.\<close>

fun ranked :: "(call \<Rightarrow> (nat \<times> nat) option) \<Rightarrow> call list \<Rightarrow> nat \<times> nat \<Rightarrow> nat \<times> nat \<Rightarrow> bool" where
  "ranked f [] a b \<longleftrightarrow> rank_le a b"
| "ranked f (c # cs) a b \<longleftrightarrow>
     (case f c of None \<Rightarrow> ranked f cs a b | Some (p, i) \<Rightarrow> rank_le a (p, i) \<and> ranked f cs (p, Suc i) b)"

lemma ranked_from: "ranked f cs b c \<Longrightarrow> rank_le a b \<Longrightarrow> ranked f cs a c"
proof (induction cs arbitrary: b)
  case (Cons d cs)
  show ?case
  proof (cases "f d")
    case (Some r)
    then show ?thesis using Cons.prems rank_le_trans [of a b r] by (cases r) simp
  qed (use Cons in simp)
next
  case Nil
  then show ?case using rank_le_trans [of a b c] by simp
qed

lemma ranked_append: "ranked f cs a b \<Longrightarrow> ranked f ds b c \<Longrightarrow> ranked f (cs @ ds) a c"
proof (induction cs arbitrary: a)
  case (Cons d cs)
  show ?case
  proof (cases "f d")
    case (Some r)
    then show ?thesis using Cons by (cases r) simp
  qed (use Cons in simp)
qed (simp add: ranked_from)

lemma ranked_weaken: "ranked f cs a b \<Longrightarrow> rank_le b c \<Longrightarrow> ranked f cs a c"
  using ranked_append [of f cs a b "[]" c] by simp

lemma ranked_above: "ranked f cs a b \<Longrightarrow> c \<in> set cs \<Longrightarrow> f c = Some r \<Longrightarrow> rank_le a r"
proof (induction cs arbitrary: a)
  case (Cons d cs)
  show ?case
  proof (cases "f d")
    case (Some q)
    obtain p i where q: "q = (p, i)" by (cases q)
    show ?thesis
    proof (cases "c = d")
      case False
      then have "rank_le (p, Suc i) r" using Cons Some q by simp
      moreover have "rank_le a (p, i)" using Cons.prems Some q by simp
      ultimately show ?thesis using rank_le_trans [of a "(p, i)" r] by (cases r) auto
    qed (use Cons.prems Some q in simp)
  next
    case None
    then show ?thesis using Cons.IH [of a] Cons.prems by auto
  qed
qed simp

lemma ranked_sorted: "ranked f cs a b \<Longrightarrow> sorted_wrt rank_less (List.map_filter f cs)"
proof (induction f cs a b rule: ranked.induct)
  case (2 f c cs a b)
  show ?case
  proof (cases "f c")
    case None
    then show ?thesis using 2 by (simp add: List.map_filter_def)
  next
    case (Some r)
    obtain p i where r: "r = (p, i)" by (cases r)
    have tail: "ranked f cs (p, Suc i) b" using 2(3) Some r by simp
    have "rank_less r (the (f d))" if "d \<in> set cs" "f d \<noteq> None" for d
      using ranked_above [OF tail that(1)] that(2) r by (cases "the (f d)") auto
    then show ?thesis using 2(2) [OF Some r [symmetric]] tail Some r by (auto simp: List.map_filter_def)
  qed
qed (simp add: List.map_filter_def)

lemma ranked_once: "ranked f cs a b \<Longrightarrow> f c = Some r \<Longrightarrow> count_list cs c \<le> 1"
proof (induction f cs a b rule: ranked.induct)
  case (2 f d cs a b)
  show ?case
  proof (cases "c = d")
    case True
    obtain p i where r: "r = (p, i)" by (cases r)
    have "c \<notin> set cs"
      using ranked_above [of f cs "(p, Suc i)" b c r] 2(3,4) True r by auto
    then show ?thesis using True by (simp add: count_list_0_iff)
  next
    case False
    then show ?thesis using 2 by (auto split: option.splits)
  qed
qed simp

fun start_bound :: "start_pc \<Rightarrow> nat \<times> nat" where
  "start_bound S_None = (0, 0)"
| "start_bound (S_Before k w) = (0, Suc k)"
| "start_bound S_BeforeDone = (1, 0)"
| "start_bound S_Tick = (2, 0)"
| "start_bound (S_Endpoint j es w) = (2, Suc j)"
| "start_bound (S_Built i) = (3, 0)"
| "start_bound (S_Register i w) = (4, 0)"
| "start_bound S_Registered = (4, 0)"
| "start_bound (S_After k w) = (4, Suc k)"
| "start_bound (S_Done r) = (5, 0)"

fun stop_bound :: "stop_pc \<Rightarrow> nat \<times> nat" where
  "stop_bound T_None = (0, 0)"
| "stop_bound (T_Join w) = (1, 0)"
| "stop_bound (T_Before k w) = (1, Suc k)"
| "stop_bound T_BeforeDone = (2, 0)"
| "stop_bound T_Deregister = (3, 0)"
| "stop_bound (T_Stops w) = (5, 0)"
| "stop_bound (T_Starts w) = (5, 0)"
| "stop_bound (T_After k w) = (5, Suc k)"
| "stop_bound T_Done = (6, 0)"

definition calls_ordered :: "app \<Rightarrow> bool" where
  "calls_ordered s \<longleftrightarrow>
     ranked start_rank (calls s) (0, 0) (start_bound (startPC s)) \<and>
     ranked stop_rank (calls s) (0, 0) (stop_bound (stopPC s)) \<and> (runPC s = R_None \<longrightarrow> startPC s = S_None)"

lemma ranked_starts: "ranked start_rank (map CallStart [i..<n]) (1, i) (2, 0)"
proof (induction "n - i" arbitrary: i)
  case (Suc d)
  then have "map CallStart [i..<n] = CallStart i # map CallStart [Suc i..<n]" by (simp add: upt_conv_Cons)
  moreover have "ranked start_rank (map CallStart [Suc i..<n]) (1, Suc i) (2, 0)" using Suc by simp
  ultimately show ?case by simp
qed simp

lemma ranked_stops: "ranked stop_rank (map CallStop (filter P [i..<n])) (4, i) (5, 0)"
proof (induction "n - i" arbitrary: i)
  case (Suc d)
  then have "[i..<n] = i # [Suc i..<n]" by (simp add: upt_conv_Cons)
  moreover have rest: "ranked stop_rank (map CallStop (filter P [Suc i..<n])) (4, Suc i) (5, 0)" using Suc by simp
  moreover have "ranked stop_rank (map CallStop (filter P [Suc i..<n])) (4, i) (5, 0)"
    using ranked_from [OF rest] by simp
  ultimately show ?case by simp
qed simp

lemma ranked_skip: "list_all (\<lambda>c. f c = None) ds \<Longrightarrow> ranked f ds a b \<longleftrightarrow> rank_le a b"
  by (induction ds) auto

lemma ranked_later:
  assumes "ranked f cs a b" "list_all (\<lambda>c. f c = None) ds" "rank_le b c"
  shows "ranked f (cs @ ds) a c"
  using ranked_append [OF assms(1)] assms(2,3) ranked_skip [of f ds b c] by simp


text \<open>Each segment keeps the order.\<close>

lemma start_bound_last: "rank_le (start_bound pc) (5, 0)"
  by (cases pc) auto

lemma ordered_cong:
  "calls s' = calls s \<Longrightarrow> startPC s' = startPC s \<Longrightarrow> stopPC s' = stopPC s \<Longrightarrow> runPC s' = runPC s \<Longrightarrow>
    calls_ordered s' = calls_ordered s"
  by (simp add: calls_ordered_def)

lemma ordered_start:
  assumes "calls_ordered s" "calls s' = calls s @ ds" "stopPC s' = stopPC s" "list_all (\<lambda>c. stop_rank c = None) ds"
    and "ranked start_rank ds (start_bound (startPC s)) (start_bound (startPC s'))" "runPC s' \<noteq> R_None"
  shows "calls_ordered s'"
  using assms ranked_append [of start_rank "calls s" "(0, 0)" "start_bound (startPC s)" ds]
    ranked_later [of stop_rank "calls s" "(0, 0)" "stop_bound (stopPC s)" ds "stop_bound (stopPC s)"]
  by (simp add: calls_ordered_def)

lemma ordered_stop:
  assumes "calls_ordered s" "calls s' = calls s @ ds" "startPC s' = startPC s" "list_all (\<lambda>c. start_rank c = None) ds"
    and "ranked stop_rank ds (stop_bound (stopPC s)) (stop_bound (stopPC s'))"
    and "runPC s' = R_None \<Longrightarrow> runPC s = R_None"
  shows "calls_ordered s'"
  using assms ranked_append [of stop_rank "calls s" "(0, 0)" "stop_bound (stopPC s)" ds]
    ranked_later [of start_rank "calls s" "(0, 0)" "start_bound (startPC s)" ds "start_bound (startPC s)"]
  by (simp add: calls_ordered_def)

lemma ordered_before_stop:
  assumes "calls_ordered s" "rank_le (stop_bound (stopPC s)) (1, k)"
  shows "calls_ordered (before_stop_hooks cfg k s)"
proof (rule ordered_stop [OF assms(1)])
  show "ranked stop_rank (hook_calls BeforeStop (beforeStopHooks cfg) k) (stop_bound (stopPC s))
      (stop_bound (stopPC (before_stop_hooks cfg k s)))"
    using assms(2) by (cases "stop_bound (stopPC s)") (auto simp: before_stop_eq before_stop_pc_def hook_calls_def)
qed (simp_all add: before_stop_eq hook_calls_def)

lemma ordered_after_stop:
  assumes "calls_ordered s" "rank_le (stop_bound (stopPC s)) (5, k)"
  shows "calls_ordered (after_stop_hooks cfg k s)"
proof (rule ordered_stop [OF assms(1)])
  show "ranked stop_rank (hook_calls AfterStop (afterStopHooks cfg) k) (stop_bound (stopPC s))
      (stop_bound (stopPC (after_stop_hooks cfg k s)))"
    using assms(2) by (cases "stop_bound (stopPC s)") (auto simp: after_stop_eq after_stop_pc_def hook_calls_def)
qed (simp_all add: after_stop_eq hook_calls_def)

lemma ordered_stop_servers:
  assumes "calls_ordered s" "rank_le (stop_bound (stopPC s)) (3, 0)"
  shows "calls_ordered (stop_servers cfg s)"
proof (rule ordered_stop [OF assms(1)])
  let ?ds = "CancelServers # (if stopping s then map CallStop (stop_targets cfg s) else [])"
  show "calls (stop_servers cfg s) = calls s @ ?ds" by (simp add: stop_servers_eq)
  show "ranked stop_rank ?ds (stop_bound (stopPC s)) (stop_bound (stopPC (stop_servers cfg s)))"
    using assms(2) ranked_from [OF ranked_stops, of "(3, Suc 0)"] by (simp add: stop_servers_eq stop_targets_def)
  show "list_all (\<lambda>c. start_rank c = None) ?ds" by (auto simp: list_all_iff)
qed (simp_all add: stop_servers_eq)

lemma ordered_stopApp:
  assumes "calls_ordered s"
  shows "calls_ordered (stopApp cfg s)"
proof (cases "stop_first s")
  case True
  show ?thesis
  proof (rule ordered_stop [OF assms])
    let ?ds = "CancelApp # (if startupSet s then [] else hook_calls BeforeStop (beforeStopHooks cfg) 0)"
    show "calls (stopApp cfg s) = calls s @ ?ds" using True by (simp add: stopApp_eq)
    show "ranked stop_rank ?ds (stop_bound (stopPC s)) (stop_bound (stopPC (stopApp cfg s)))"
      using True by (simp add: stopApp_eq stop_first_def hook_calls_def before_stop_pc_def)
    show "list_all (\<lambda>c. start_rank c = None) ?ds" by (simp add: hook_calls_def)
  qed (simp_all add: stopApp_eq split: if_splits)
qed (use assms in \<open>simp add: stopApp_eq calls_ordered_def\<close>)

lemma ordered_start_done:
  assumes "calls_ordered s" "runPC s \<noteq> R_None"
  shows "calls_ordered (start_done cfg r s)"
  by (rule ordered_start [OF assms(1), of _ "[]"]) (use assms(2) in \<open>simp_all add: start_done_def start_bound_last\<close>)

lemma ordered_start_fails: "calls_ordered s \<Longrightarrow> runPC s \<noteq> R_None \<Longrightarrow> calls_ordered (start_fails cfg e s)"
  by (simp add: start_fails_def ordered_start_done)

lemma ordered_before_start:
  assumes "calls_ordered s" "rank_le (start_bound (startPC s)) (0, k)" "runPC s \<noteq> R_None"
  shows "calls_ordered (before_start_hooks cfg k s)"
proof (rule ordered_start [OF assms(1)])
  show "ranked start_rank (hook_calls BeforeStart (beforeStartHooks cfg) k) (start_bound (startPC s))
      (start_bound (startPC (before_start_hooks cfg k s)))"
    using assms(2) by (cases "start_bound (startPC s)") (auto simp: before_start_eq before_start_pc_def hook_calls_def)
qed (use assms(3) in \<open>simp_all add: before_start_eq hook_calls_def\<close>)

lemma ordered_after_start:
  assumes "calls_ordered s" "rank_le (start_bound (startPC s)) (4, k)" "runPC s \<noteq> R_None"
  shows "calls_ordered (after_start_hooks cfg k s)"
proof (rule ordered_start [OF assms(1)])
  show "ranked start_rank (hook_calls AfterStart (afterStartHooks cfg) k) (start_bound (startPC s))
      (start_bound (startPC (after_start_hooks cfg k s)))"
    using assms(2) start_bound_last by (cases "start_bound (startPC s)") (auto simp: after_start_eq hook_calls_def)
qed (use assms(3) in \<open>simp_all add: after_start_eq hook_calls_def\<close>)

lemma ordered_start_after:
  assumes "calls_ordered s" "rank_le (start_bound (startPC s)) (4, 0)" "runPC s \<noteq> R_None"
  shows "calls_ordered (start_after cfg s)"
  using assms by (simp add: start_after_def ordered_start_done ordered_after_start)

lemma ordered_both:
  assumes "calls_ordered s" "calls s' = calls s @ ds"
    and "ranked start_rank ds (start_bound (startPC s)) (start_bound (startPC s'))"
    and "ranked stop_rank ds (stop_bound (stopPC s)) (stop_bound (stopPC s'))" "runPC s' \<noteq> R_None"
  shows "calls_ordered s'"
  using assms ranked_append [of start_rank "calls s" "(0, 0)" "start_bound (startPC s)" ds]
    ranked_append [of stop_rank "calls s" "(0, 0)" "stop_bound (stopPC s)" ds]
  by (simp add: calls_ordered_def)

lemma ordered_start_stored:
  assumes "calls_ordered s" "startPC s = S_None"
  shows "calls_ordered (start_stored cfg stops s)"
proof -
  let ?t = "start_stored cfg stops s"
  let ?stop = "CancelApp # (if startupSet s then [] else hook_calls BeforeStop (beforeStopHooks cfg) 0)"
  let ?ds = "if stopRequested s \<or> beforeStartHooks cfg = [] then []
    else CallHook BeforeStart 0 # (if stops \<and> stop_first s then ?stop else [])"
  have "calls ?t = calls s @ ?ds"
    by (auto simp: start_stored_def executeStart_def Let_def stopApp_eq record_call_def stop_first_def)
  moreover have "ranked start_rank ?ds (start_bound (startPC s)) (start_bound (startPC ?t))"
    using assms(2)
    by (auto simp: start_stored_def executeStart_def Let_def stopApp_eq record_call_def hook_calls_def stop_first_def)
  moreover have "ranked stop_rank ?ds (stop_bound (stopPC s)) (stop_bound (stopPC ?t))"
    by (auto simp: start_stored_def executeStart_def Let_def stopApp_eq record_call_def hook_calls_def stop_first_def
        before_stop_pc_def)
  ultimately show ?thesis by (intro ordered_both [OF assms(1)]) (simp_all add: start_stored_def)
qed

lemma ordered_run_stops:
  assumes "calls_ordered s"
  shows "calls_ordered ((stopApp cfg s)\<lparr>runPC := R_Stopping\<rparr>)"
  using ordered_stopApp [OF assms] by (simp add: calls_ordered_def)

lemma ordered_run_fails: "calls_ordered s \<Longrightarrow> calls_ordered (run_fails cfg v s)"
  unfolding run_fails_def Let_def
  by (intro ordered_run_stops) (simp add: calls_ordered_def addRunError_def)

lemma runApp_cases:
  assumes "runApp cfg stops s = Some s'"
  obtains (starts) u b where "runPC s = R_None" "u = s \<or> u = stopApp cfg s"
    "s' = start_stored cfg stops (u\<lparr>runtimeCleanup := b\<rparr>)"
  | (fails) u v where "runPC s = R_None" "u = s \<or> u = stopApp cfg s" "s' = run_fails cfg v u"
proof (cases "runtimeInstaller cfg")
  case None
  then show ?thesis using assms starts [of s "runtimeCleanup s"] by (simp add: runApp_def split: if_splits)
next
  case (Some i)
  let ?u = "if in_stops i then stopApp cfg s else s"
  have "?u = s \<or> ?u = stopApp cfg s" by simp
  then show ?thesis
    using assms Some starts [of ?u True] fails [of ?u]
    by (cases "in_result i") (auto simp: runApp_def Let_def split: if_splits)
qed

lemma ordered_runApp:
  assumes "calls_ordered s" "runApp cfg stops s = Some s'"
  shows "calls_ordered s'"
proof -
  have u: "calls_ordered u \<and> startPC u = S_None" if "u = s \<or> u = stopApp cfg s" "runPC s = R_None" for u
    using ordered_stopApp [OF assms(1)] assms(1) that by (auto simp: stopApp_eq calls_ordered_def)
  from assms(2) show ?thesis
  proof (cases rule: runApp_cases)
    case (starts u b)
    have "calls_ordered (u\<lparr>runtimeCleanup := b\<rparr>)" using conjunct1 [OF u [OF starts(2,1)]] by (simp add: calls_ordered_def)
    then show ?thesis using u [OF starts(2,1)] starts(3) by (simp add: ordered_start_stored)
  next
    case (fails u v)
    then show ?thesis using u [OF fails(2,1)] by (simp add: ordered_run_fails)
  qed
qed

lemma ordered_resolve:
  assumes "calls_ordered s" "rank_le (start_bound (startPC s)) (2, i)" "runPC s \<noteq> R_None"
  shows "calls_ordered (resolve_endpoints url cfg i es s)"
proof (cases rule: resolve_endpoints_cases [of url cfg i es s])
  case (call j w)
  then have "rank_le (start_bound (startPC s)) (2, j)"
    using assms(2) next_endpointer_index [OF call(2)] by (cases "start_bound (startPC s)") auto
  then show ?thesis using call(1) assms(3) by (intro ordered_start [OF assms(1), of _ "[CallEndpoint j]"]) simp_all
next
  case (failed e es')
  have "calls_ordered (s\<lparr>currentEndpoints := es'\<rparr>)" using assms(1) by (simp add: calls_ordered_def)
  then show ?thesis using failed assms(3) by (simp add: ordered_start_fails)
next
  case (built x)
  have "rank_le (start_bound (startPC s)) (3, 0)" using assms(2) by (cases "start_bound (startPC s)") auto
  then show ?thesis using built assms(3) by (intro ordered_start [OF assms(1), of _ "[]"]) simp_all
qed

lemma ordered_buildInstance:
  assumes "calls_ordered s" "startPC s = S_Tick" "runPC s \<noteq> R_None"
  shows "calls_ordered (buildInstance url cfg s)"
proof -
  have "calls_ordered (built_instance url cfg s)"
  proof (cases rule: built_instance_cases [of url cfg s])
    case (built i)
    then show ?thesis using assms by (intro ordered_start [OF assms(1), of _ "[]"]) simp_all
  qed (use assms in \<open>simp add: ordered_start_fails\<close>)
  then show ?thesis
    using assms by (auto simp: buildInstance_def ordered_start_done intro: ordered_resolve split: option.split)
qed

lemma ordered_started: "calls_ordered s \<Longrightarrow> startPC s \<noteq> S_None \<Longrightarrow> runPC s \<noteq> R_None"
  by (auto simp: calls_ordered_def)

lemma ordered_addStopError: "calls_ordered (addStopError e s) = calls_ordered s" "stopPC (addStopError e s) = stopPC s"
  "startPC (addStopError e s) = startPC s"
  by (simp_all add: addStopError_def calls_ordered_def)

lemma start_registered_cases:
  assumes "start_registered cfg s = Some s'"
  obtains (stored) i where "startPC s = S_Register i Waiting" "registration s = RegisterSettled None"
    "s' = (if startupAbandoned s then compensateRegister s else s\<lparr>registeredInstance := Some i\<rparr>)\<lparr>startPC := S_Registered\<rparr>"
  | (failed) i v where "startPC s = S_Register i Waiting" "registration s = RegisterSettled (Some v)"
    "s' = start_fails cfg (normalizeError v ''application register'') s"
proof -
  obtain i where pc: "startPC s = S_Register i Waiting"
    using assms by (auto simp: start_registered_def split: start_pc.splits wait.splits)
  obtain r where reg: "registration s = RegisterSettled r"
    using assms pc by (auto simp: start_registered_def split: registration.splits)
  show thesis
  proof (cases r)
    case None
    then show ?thesis using assms pc reg by (intro stored [of i]) (simp_all only: start_registered_def prod.case
        start_pc.case wait.case registration.case option.case option.inject)
  next
    case (Some v)
    then show ?thesis using assms pc reg by (intro failed [of i v]) (simp_all add: start_registered_def)
  qed
qed

lemma ordered_start_steps:
  assumes "calls_ordered s"
  shows "start_hook_settles cfg r s = Some s' \<Longrightarrow> calls_ordered s'" "start_launches cfg rs s = Some s' \<Longrightarrow> calls_ordered s'"
    "start_ticks url cfg s = Some s' \<Longrightarrow> calls_ordered s'" "endpoint_settles url cfg q s = Some s' \<Longrightarrow> calls_ordered s'"
    "start_registers cfg s = Some s' \<Longrightarrow> calls_ordered s'" "start_registered cfg s = Some s' \<Longrightarrow> calls_ordered s'"
    "register_times_out cfg s = Some s' \<Longrightarrow> calls_ordered s'" "start_continues cfg s = Some s' \<Longrightarrow> calls_ordered s'"
    "start_abandoned cfg s = Some s' \<Longrightarrow> calls_ordered s'" "late_registration s = Some s' \<Longrightarrow> calls_ordered s'"
proof -
  note run = ordered_started [OF assms]
  have late: "calls_ordered (give_up_register cfg e s)" if "startPC s \<noteq> S_None" for e
    using run [OF that] assms ordered_start_fails [of "s\<lparr>lateRegister := True\<rparr>"]
      ordered_cong [of "s\<lparr>lateRegister := True\<rparr>" s] by (simp add: give_up_register_def)
  show "calls_ordered s'" if "start_hook_settles cfg r s = Some s'"
    using that assms run ordered_before_start ordered_after_start ordered_start_fails
    by (auto simp: start_hook_settles_def split: start_pc.splits wait.splits option.splits)
  show "calls_ordered s'" if "start_launches cfg rs s = Some s'"
  proof (rule ordered_start [OF assms])
    let ?ds = "if stopRequested s then [] else map CallStart [0..<length rs]"
    show "calls s' = calls s @ ?ds" "stopPC s' = stopPC s" "runPC s' \<noteq> R_None"
      using that run by (auto simp: start_launches_def split: if_splits)
    show "ranked start_rank ?ds (start_bound (startPC s)) (start_bound (startPC s'))"
      using that ranked_starts [of 0] by (auto simp: start_launches_def split: if_splits)
  qed (auto simp: list_all_iff)
  show "calls_ordered s'" if "start_ticks url cfg s = Some s'"
    using that assms run ordered_buildInstance ordered_start_after ordered_start_fails
    by (auto simp: start_ticks_def split: if_splits option.splits)
  show "calls_ordered s'" if "endpoint_settles url cfg q s = Some s'"
    using that assms run ordered_resolve ordered_start_done
    by (auto simp: endpoint_settles_def split: start_pc.splits wait.splits sum.splits)
  show "calls_ordered s'" if "start_registers cfg s = Some s'"
  proof (cases "stopRequested s")
    case True
    then show ?thesis
      using that assms run ordered_start_after by (auto simp: start_registers_def split: start_pc.splits)
  next
    case False
    then show ?thesis
      using that run
      by (intro ordered_start [OF assms, of _ "[CallRegister]"])
        (auto simp: start_registers_def record_call_def split: start_pc.splits)
  qed
  show "calls_ordered s'" if "start_continues cfg s = Some s'"
    using that assms run ordered_start_after by (auto simp: start_continues_def split: if_splits)
  show "calls_ordered s'" if "register_times_out cfg s = Some s'"
    using that run late by (auto simp: register_times_out_def split: start_pc.splits)
  show "calls_ordered s'" if "start_abandoned cfg s = Some s'"
    using that assms run late ordered_start_fails by (auto simp: start_abandoned_def split: start_pc.splits)
  show "calls_ordered s'" if "late_registration s = Some s'"
    using that
    by (intro ordered_stop [OF assms, of _ "if registration s = RegisterSettled None then [CallCompensate] else []"])
      (auto simp: late_registration_def compensateRegister_def record_call_def
        split: registration.splits if_splits option.splits)
  show "calls_ordered s'" if "start_registered cfg s = Some s'"
    using that
  proof (cases rule: start_registered_cases)
    case (stored i)
    then show ?thesis
      using run by (intro ordered_start [OF assms, of _ "if startupAbandoned s then [CallCompensate] else []"])
        (simp_all add: compensateRegister_def record_call_def)
  next
    case (failed i v)
    then show ?thesis using assms run ordered_start_fails by simp
  qed
qed

lemma ordered_settle_starts:
  assumes "calls_ordered s" "rank_le (stop_bound (stopPC s)) (5, 0)"
  shows "calls_ordered (settle_starts cfg s)"
  by (rule ordered_stop [OF assms(1), of _ "[]"]) (use assms(2) in \<open>simp_all add: settle_starts_def\<close>)

lemma ordered_stop_steps:
  assumes "calls_ordered s"
  shows "stop_joined cfg s = Some s' \<Longrightarrow> calls_ordered s'" "stop_join_abandoned cfg s = Some s' \<Longrightarrow> calls_ordered s'"
    "stop_hook_settles cfg r s = Some s' \<Longrightarrow> calls_ordered s'" "stop_hook_abandoned cfg s = Some s' \<Longrightarrow> calls_ordered s'"
    "stop_deregisters cfg s = Some s' \<Longrightarrow> calls_ordered s'" "deregister_settles cfg r s = Some s' \<Longrightarrow> calls_ordered s'"
    "deregister_times_out cfg s = Some s' \<Longrightarrow> calls_ordered s'" "servers_stopped cfg s = Some s' \<Longrightarrow> calls_ordered s'"
    "servers_stop_abandoned cfg s = Some s' \<Longrightarrow> calls_ordered s'" "starts_settled cfg s = Some s' \<Longrightarrow> calls_ordered s'"
    "starts_abandoned cfg s = Some s' \<Longrightarrow> calls_ordered s'"
proof -
  note err = ordered_addStopError
  have errs: "calls_ordered (fold addStopError es s)" "stopPC (fold addStopError es s) = stopPC s" for es
    using assms by (simp_all add: fold_addStopError calls_ordered_def)
  have ab: "calls_ordered (s\<lparr>startupAbandoned := True\<rparr>)" using assms by (simp add: calls_ordered_def)
  have rd: "calls_ordered (read_results u) = calls_ordered u" "stopPC (read_results u) = stopPC u" for u
    by (simp_all add: read_results_def calls_ordered_def)
  show "calls_ordered s'" if "stop_joined cfg s = Some s'"
    using that assms ordered_before_stop by (auto simp: stop_joined_def split: stop_pc.splits wait.splits start_pc.splits)
  show "calls_ordered s'" if "stop_join_abandoned cfg s = Some s'"
    using that ab ordered_before_stop [of "addStopError _ (s\<lparr>startupAbandoned := True\<rparr>)"]
    by (auto simp: stop_join_abandoned_def err split: stop_pc.splits option.splits)
  show "calls_ordered s'" if "stop_hook_settles cfg r s = Some s'"
    using that assms
    by (auto simp: stop_hook_settles_def err intro!: ordered_before_stop ordered_after_stop
        split: stop_pc.splits wait.splits option.splits)
  show "calls_ordered s'" if "stop_hook_abandoned cfg s = Some s'"
    using that assms
    by (auto simp: stop_hook_abandoned_def err intro!: ordered_before_stop ordered_after_stop
        split: stop_pc.splits option.splits)
  show "calls_ordered s'" if "stop_deregisters cfg s = Some s'"
  proof (cases "registeredInstance s")
    case None
    then show ?thesis using that assms ordered_stop_servers by (auto simp: stop_deregisters_def split: if_splits)
  next
    case (Some i)
    then show ?thesis
      using that by (intro ordered_stop [OF assms, of _ "[CallDeregister]"])
        (auto simp: stop_deregisters_def record_call_def split: if_splits)
  qed
  show "calls_ordered s'" if "deregister_settles cfg r s = Some s'"
    using that assms by (auto simp: deregister_settles_def err intro!: ordered_stop_servers split: if_splits option.splits)
  show "calls_ordered s'" if "deregister_times_out cfg s = Some s'"
    using that assms by (auto simp: deregister_times_out_def err intro!: ordered_stop_servers split: if_splits)
  show "calls_ordered s'" if "servers_stopped cfg s = Some s'"
    using that errs by (auto simp: servers_stopped_def intro!: ordered_settle_starts split: stop_pc.splits wait.splits if_splits)
  show "calls_ordered s'" if "servers_stop_abandoned cfg s = Some s'"
    using that errs
    by (auto simp: servers_stop_abandoned_def err intro!: ordered_settle_starts split: stop_pc.splits option.splits)
  show "calls_ordered s'" if "starts_settled cfg s = Some s'"
    using that assms
    by (auto simp: starts_settled_def rd intro!: ordered_after_stop split: stop_pc.splits wait.splits if_splits)
  show "calls_ordered s'" if "starts_abandoned cfg s = Some s'"
    using that assms
    by (auto simp: starts_abandoned_def rd err intro!: ordered_after_stop split: stop_pc.splits option.splits)
qed

definition cleanup_failure :: "app_config \<Rightarrow> app \<Rightarrow> thrown list" where
  "cleanup_failure cfg s =
     (case runtimeInstaller cfg of
        Some i \<Rightarrow> (case in_result i of
            Installed (Some v) \<Rightarrow> if runtimeCleanup s then [normalizeError v ''runtime cleanup''] else []
          | _ \<Rightarrow> [])
      | None \<Rightarrow> [])"

text \<open>The errors that the end of the run reports, behind those recorded before.\<close>

definition final_errors :: "app_config \<Rightarrow> app \<Rightarrow> thrown list" where
  "final_errors cfg s =
     fold addFailure ((case stop_result s of None \<Rightarrow> [] | Some e \<Rightarrow> [e]) @ result_errors (serverResults s) @
       cleanup_failure cfg s) (runErrors s)"

lemma removeRuntimeOption_eq: "removeRuntimeOption cfg s =
    s\<lparr>runtimeCleanup := False, runErrors := fold addFailure (cleanup_failure cfg s) (runErrors s)\<rparr>"
  by (intro app.equality)
    (simp_all add: removeRuntimeOption_def Let_def addRunError_def cleanup_failure_def split: option.split installation.split)

lemma run_finishes_eq:
  assumes "run_finishes cfg s = Some s'"
  shows "runPC s = R_Stopping \<and> stopPC s = T_Done \<and> s' = s\<lparr>runtimeCleanup := False, runErrors := final_errors cfg s,
    runPC := R_Done (lifecycleFailure (final_errors cfg s) ''application lifecycle failed'')\<rparr>"
proof -
  have c: "cleanup_failure cfg (s\<lparr>runErrors := es\<rparr>) = cleanup_failure cfg s" for es
    by (simp add: cleanup_failure_def split: option.split installation.split)
  show ?thesis
    using assms c
    by (cases "stop_result s") (auto simp: run_finishes_def Let_def removeRuntimeOption_eq fold_addRunError
        addRunError_def final_errors_def intro!: app.equality split: if_splits)
qed

text \<open>Events that only record what a callee, a timer or the parent did.\<close>

fun background :: "input \<Rightarrow> bool" where
  "background (ParentCanceled e) = True"
| "background StartDeadline = True"
| "background StopDeadline = True"
| "background (ServerSettles i r) = True"
| "background (SettlementRecorded i) = True"
| "background (ServerStopSettles p r) = True"
| "background _ = False"

definition same_control :: "app \<Rightarrow> app \<Rightarrow> bool" where
  "same_control s s' \<longleftrightarrow> calls s' = calls s \<and> startPC s' = startPC s \<and> stopPC s' = stopPC s \<and> runPC s' = runPC s \<and>
     stopRequested s' = stopRequested s \<and> serversLaunched s' = serversLaunched s \<and>
     preparedServers s' = preparedServers s \<and> registeredInstance s' = registeredInstance s \<and>
     registration s' = registration s \<and> lateRegister s' = lateRegister s \<and> startupSet s' = startupSet s \<and>
     startupAbandoned s' = startupAbandoned s \<and> stopErrors s' = stopErrors s \<and> runErrors s' = runErrors s \<and>
     serverResults s' = serverResults s"

lemma background_step:
  assumes "background i" "app_step url cfg i s = Some s'"
  shows "same_control s s'"
proof (cases i)
  case (ServerSettles k r)
  then show ?thesis
    using assms(2) by (cases r) (auto simp: same_control_def server_settles_def fail_server_def Let_def split: if_splits)
next
  case (ParentCanceled e)
  then have "s' = cancel_app e s" using assms(2) by (simp split: if_splits)
  then show ?thesis by (simp add: same_control_def cancel_app_def)
next
  case (ServerStopSettles p r)
  then show ?thesis
    using assms(2) by (auto simp: same_control_def server_stop_settles_def Let_def split: if_splits)
next
  case (SettlementRecorded k)
  then show ?thesis using assms(2) by (auto simp: same_control_def settlement_recorded_def split: if_splits)
next
  case StartDeadline
  then show ?thesis using assms(2) by (auto simp: same_control_def split: if_splits)
next
  case StopDeadline
  then show ?thesis using assms(2) by (auto simp: same_control_def split: if_splits)
qed (use assms(1) in simp_all)

lemma ordered_step:
  assumes "calls_ordered s" "app_step url cfg i s = Some s'"
  shows "calls_ordered s'"
proof (cases "background i")
  case True
  then show ?thesis using assms(1) background_step [OF True assms(2)] ordered_cong [of s' s] by (simp add: same_control_def)
next
  case False
  note steps = ordered_runApp [OF assms(1)] ordered_start_steps [OF assms(1)] ordered_stop_steps [OF assms(1)]
  from False show ?thesis
  proof (cases i)
    case Stop
    then show ?thesis using assms ordered_stopApp by (auto split: if_splits)
  next
    case (RunRaces win)
    then show ?thesis
      using assms ordered_run_fails ordered_run_stops
      by (auto simp: run_races_def run_stops_def calls_ordered_def
          split: winner.splits run_pc.splits start_pc.splits option.splits if_splits)
  next
    case RunFinishes
    then show ?thesis using assms by (auto simp: calls_ordered_def dest!: run_finishes_eq)
  next
    case (RegisterSettles r)
    then show ?thesis using assms ordered_cong [of s' s] by (auto simp: register_settles_def split: if_splits)
  qed (use assms(2) in \<open>auto dest: steps\<close>)
qed

lemma reachable_ordered: "app_reachable url cfg s \<Longrightarrow> calls_ordered s"
  by (induction rule: app_reachable.induct) (simp add: calls_ordered_def newApp_def, rule ordered_step)

end
