(* ===== verification/App_Demo.thy ===== *)
theory App_Demo
  imports App_Spec
begin

text \<open>
  A run of an application with two servers, a registrar and one hook of each kind: started, registered, stopped
  and finished without an error. The properties of the lifecycle are applied to its states.
\<close>

fun app_run :: "url \<Rightarrow> app_config \<Rightarrow> input list \<Rightarrow> app \<Rightarrow> app option" where
  "app_run url cfg [] s = Some s"
| "app_run url cfg (i # is) s = (case app_step url cfg i s of None \<Rightarrow> None | Some s' \<Rightarrow> app_run url cfg is s')"

lemma app_run_reachable: "app_run url cfg is s = Some s' \<Longrightarrow> app_reachable url cfg s \<Longrightarrow> app_reachable url cfg s'"
  by (induction "is" arbitrary: s) (auto split: option.splits intro: app_steps)

lemma app_run_append:
  "app_run url cfg (is @ is2) s = (case app_run url cfg is s of None \<Rightarrow> None | Some s' \<Rightarrow> app_run url cfg is2 s')"
  by (induction "is" arbitrary: s) (auto split: option.splits)

definition demo_cfg :: app_config where
  "demo_cfg = \<lparr>appId = [97], appName = [110], appVersion = [], appMetadata = [], appEndpoints = [], hasRegistrar = True,
     registrarTimeoutMs = 10000, startTimeoutMs = 0, stopTimeoutMs = 500,
     servers = [\<lparr>sv_ref = 0, sv_endpointer = NoEndpoint\<rparr>, \<lparr>sv_ref = 1, sv_endpointer = NoEndpoint\<rparr>],
     beforeStartHooks = [0], afterStartHooks = [1], beforeStopHooks = [2], afterStopHooks = [3], runtimeInstaller = None\<rparr>"

definition demo_instance :: service_instance where
  "demo_instance = sample_instance 97 []"

definition demo_starting :: "input list" where
  "demo_starting = [Run False, StartHookSettles None, StartLaunches [None, None], StartTicks, StartRegisters,
     RegisterSettles None, StartRegistered, StartContinues, StartHookSettles None, RunRaces StartupWins]"

definition demo_running :: app where
  "demo_running =
     \<lparr>stopRequested = False, serversLaunched = True, preparedServers = {}, currentEndpoints = [],
      registeredInstance = Some demo_instance, startupSet = True, startupAbandoned = False, serverFailure = None,
      serverPromises = [None, None], serverSettlements = [None, None], serverResults = [], runtimeCleanup = False,
      appErr = None, startErr = None, stopErr = None, registration = RegisterSettled None, lateRegister = False,
      stopOps = [], startPC = S_Done None, stopPC = T_None, runPC = R_Race2, stopErrors = [], runErrors = [],
      calls = [CallHook BeforeStart 0, CallStart 0, CallStart 1, CallRegister, CallHook AfterStart 0]\<rparr>"

lemma demo_snapshot: "snapshotServiceInstance url demo_instance = Inr demo_instance"
proof (rule instance_ok_snapshot)
  have "\<not> is_high 97 \<and> \<not> is_low 97" "\<not> is_high 110 \<and> \<not> is_low 110" by (simp_all add: is_high_def is_low_def)
  then show "instance_ok url demo_instance"
    by (auto simp: instance_ok_def demo_instance_def sample_instance_def text_ok_def fromEntries_def)
qed

lemmas start_eval =
  runApp_def start_stored_def executeStart_def record_call_def begin_wait_def start_hook_settles_def
  before_start_hooks_def start_launches_def start_ticks_def buildInstance_def resolve_endpoints_def built_instance_def
  start_registers_def register_settles_def start_registered_def start_continues_def start_after_def
  after_start_hooks_def start_done_def run_races_def

lemma demo_started: "app_run url demo_cfg demo_starting (newApp demo_cfg None) = Some demo_running"
  using demo_snapshot [of url]
  by (simp add: demo_starting_def demo_running_def demo_cfg_def newApp_def start_eval demo_instance_def
      sample_instance_def Let_def)

definition demo_stopping :: "input list" where
  "demo_stopping = [Stop, StopJoined, StopHookSettles None, StopDeregisters, DeregisterSettles None,
     ServerStopSettles 0 None, ServerStopSettles 1 None, ServersStopped, ServerSettles 0 None, SettlementRecorded 0,
     ServerSettles 1 None, SettlementRecorded 1, StartsSettled, StopHookSettles None]"

definition demo_stopped :: app where
  "demo_stopped = demo_running
     \<lparr>stopRequested := True, registeredInstance := None, serverPromises := [Some None, Some None],
      serverSettlements := [Some None, Some None], serverResults := [Some None, Some None], appErr := Some Canceled,
      startErr := Some Canceled, stopOps := [(0, Some None), (1, Some None)], stopPC := T_Done,
      calls := [CallHook BeforeStart 0, CallStart 0, CallStart 1, CallRegister, CallHook AfterStart 0, CancelApp,
        CallHook BeforeStop 0, CallDeregister, CancelServers, CallStop 0, CallStop 1, CallHook AfterStop 0]\<rparr>"

lemmas stop_eval =
  stopApp_def executeStop_def cancel_app_def stop_joined_def before_stop_hooks_def stop_hook_settles_def
  stop_deregisters_def deregister_settles_def stop_servers_def stop_targets_def server_stop_settles_def servers_stopped_def
  stop_failures_def settle_starts_def server_settles_def settlement_recorded_def starts_settled_def read_results_def
  after_stop_hooks_def record_call_def begin_wait_def List.map_filter_def

lemma demo_stopped: "app_run url demo_cfg demo_stopping demo_running = Some demo_stopped"
  by (simp add: demo_stopping_def demo_stopped_def demo_running_def demo_cfg_def stop_eval Let_def)

definition demo_ended :: app where
  "demo_ended = demo_stopped\<lparr>runPC := R_Done None\<rparr>"

lemma demo_ended: "app_run url demo_cfg [RunRaces StopWins, RunFinishes] demo_stopped = Some demo_ended"
  by (simp add: demo_ended_def demo_stopped_def demo_running_def demo_cfg_def run_races_def run_stops_def stopApp_def
      run_finishes_def stop_result_def lifecycleFailure_def result_errors_def List.map_filter_def removeRuntimeOption_def
      Let_def)

lemma demo_reachable:
  "app_reachable url demo_cfg demo_running" "app_reachable url demo_cfg demo_stopped" "app_reachable url demo_cfg demo_ended"
  using app_run_reachable [OF demo_started app_new] app_run_reachable [OF demo_stopped] app_run_reachable [OF demo_ended]
  by blast+

lemmas demo_states = demo_ended_def demo_stopped_def demo_running_def

end
