(* ===== verification/App_Servers.thy ===== *)
theory App_Servers
  imports App_Spec
begin

text \<open>
  Which servers an application stops: every server whose \<open>start\<close> or \<open>endpoint\<close> it has called, once. A stop
  request ends the launches: nothing is started, resolved or registered after \<open>cancelApp\<close>.
\<close>

fun work :: "call \<Rightarrow> bool" where
  "work (CallStart i) = True"
| "work (CallEndpoint j) = True"
| "work CallRegister = True"
| "work _ = False"

fun quiet :: "call list \<Rightarrow> bool" where
  "quiet [] = True"
| "quiet (c # cs) = (if c = CancelApp then list_all (\<lambda>d. \<not> work d) cs else quiet cs)"

lemma quiet_append:
  "quiet (cs @ ds) \<longleftrightarrow> quiet cs \<and> (if CancelApp \<in> set cs then list_all (\<lambda>d. \<not> work d) ds else quiet ds)"
  by (induction cs) auto

lemma quiet_no_cancel: "CancelApp \<notin> set cs \<Longrightarrow> quiet cs"
  by (induction cs) auto

lemma quiet_idle: "list_all (\<lambda>d. \<not> work d) cs \<Longrightarrow> quiet cs"
  by (induction cs) auto

definition stops_called :: "stop_pc \<Rightarrow> bool" where
  "stops_called pc \<longleftrightarrow> rank_le (5, 0) (stop_bound pc)"

definition servers_ok :: "app_config \<Rightarrow> app \<Rightarrow> bool" where
  "servers_ok cfg s \<longleftrightarrow>
     (stopRequested s \<longleftrightarrow> stopPC s \<noteq> T_None) \<and> (stopRequested s \<longleftrightarrow> CancelApp \<in> set (calls s)) \<and> quiet (calls s) \<and>
     (\<forall>i. CallStart i \<in> set (calls s) \<longleftrightarrow> serversLaunched s \<and> i < length (servers cfg)) \<and>
     (\<forall>j. CallEndpoint j \<in> set (calls s) \<longrightarrow> j < length (servers cfg)) \<and>
     preparedServers s = (\<lambda>j. sv_ref (servers cfg ! j)) ` {j. CallEndpoint j \<in> set (calls s)} \<and>
     (if stops_called (stopPC s) then \<forall>i. CallStop i \<in> set (calls s) \<longleftrightarrow> i \<in> set (stop_targets cfg s)
      else \<forall>i. CallStop i \<notin> set (calls s))"

text \<open>Calls that neither launch, cancel nor stop.\<close>

fun plain :: "call \<Rightarrow> bool" where
  "plain (CallStart i) = False"
| "plain (CallEndpoint j) = False"
| "plain CallRegister = False"
| "plain CancelApp = False"
| "plain (CallStop i) = False"
| "plain _ = True"

lemma plain_facts:
  assumes "list_all plain ds"
  shows "CallStart i \<notin> set ds" "CallEndpoint i \<notin> set ds" "CancelApp \<notin> set ds" "CallStop i \<notin> set ds"
    "list_all (\<lambda>d. \<not> work d) ds" "quiet ds"
proof -
  show "CallStart i \<notin> set ds" "CallEndpoint i \<notin> set ds" "CallStop i \<notin> set ds" and cancel: "CancelApp \<notin> set ds"
    using assms by (auto simp: list_all_iff)
  show "quiet ds" using quiet_no_cancel [OF cancel] .
  have "\<not> work d" if "plain d" for d using that by (cases d rule: plain.cases) auto
  then show "list_all (\<lambda>d. \<not> work d) ds" using assms by (simp add: list_all_iff)
qed

lemma stop_targets_cong:
  "serversLaunched s' = serversLaunched s \<Longrightarrow> preparedServers s' = preparedServers s \<Longrightarrow>
    stop_targets cfg s' = stop_targets cfg s"
  by (simp add: stop_targets_def)

lemma servers_keep:
  assumes "servers_ok cfg s" "calls s' = calls s @ ds" "list_all plain ds"
    and "stopRequested s' = stopRequested s" "serversLaunched s' = serversLaunched s" "preparedServers s' = preparedServers s"
    and "stopPC s' = T_None \<longleftrightarrow> stopPC s = T_None" "stops_called (stopPC s') = stops_called (stopPC s)"
  shows "servers_ok cfg s'"
  using assms(1,2,4-8) plain_facts [OF assms(3)] stop_targets_cong [OF assms(5,6)]
  by (auto simp: servers_ok_def quiet_append split: if_splits)

lemma servers_same:
  assumes "servers_ok cfg s" "calls s' = calls s" "stopRequested s' = stopRequested s"
    and "serversLaunched s' = serversLaunched s" "preparedServers s' = preparedServers s" "stopPC s' = stopPC s"
  shows "servers_ok cfg s'"
  using servers_keep [of cfg s s' "[]"] assms by simp

lemma stops_called_simps [simp]:
  "\<not> stops_called T_None" "\<not> stops_called (T_Join w)" "\<not> stops_called (T_Before k w)" "\<not> stops_called T_BeforeDone"
  "\<not> stops_called T_Deregister" "stops_called (T_Stops w)" "stops_called (T_Starts w)" "stops_called (T_After k w)"
  "stops_called T_Done"
  by (simp_all add: stops_called_def)

lemma plain_hooks [simp]: "list_all plain (hook_calls p hooks k)"
  by (simp add: hook_calls_def)

lemma servers_before_stop:
  "servers_ok cfg s \<Longrightarrow> stopPC s \<noteq> T_None \<Longrightarrow> \<not> stops_called (stopPC s) \<Longrightarrow> servers_ok cfg (before_stop_hooks cfg k s)"
  by (rule servers_keep [of cfg s _ "hook_calls BeforeStop (beforeStopHooks cfg) k"])
    (simp_all add: before_stop_eq before_stop_pc_def)

lemma servers_after_stop:
  "servers_ok cfg s \<Longrightarrow> stops_called (stopPC s) \<Longrightarrow> servers_ok cfg (after_stop_hooks cfg k s)"
  by (rule servers_keep [of cfg s _ "hook_calls AfterStop (afterStopHooks cfg) k"])
    (auto simp: after_stop_eq after_stop_pc_def)

lemma servers_settle_starts:
  "servers_ok cfg s \<Longrightarrow> stops_called (stopPC s) \<Longrightarrow> servers_ok cfg (settle_starts cfg s)"
  by (rule servers_keep [of cfg s _ "[]"]) (auto simp: settle_starts_def)

lemma servers_stopApp:
  assumes "servers_ok cfg s"
  shows "servers_ok cfg (stopApp cfg s)"
proof (cases "stopPC s = T_None")
  case True
  let ?ds = "if startupSet s then [] else hook_calls BeforeStop (beforeStopHooks cfg) 0"
  have "calls (stopApp cfg s) = calls s @ CancelApp # ?ds" "stopRequested (stopApp cfg s)"
      "stopPC (stopApp cfg s) \<noteq> T_None" "\<not> stops_called (stopPC (stopApp cfg s))"
      "serversLaunched (stopApp cfg s) = serversLaunched s" "preparedServers (stopApp cfg s) = preparedServers s"
    using True by (auto simp: stopApp_eq stop_first_def before_stop_pc_def)
  moreover have "list_all plain ?ds" by simp
  ultimately show ?thesis
    using assms True plain_facts [of ?ds] by (simp add: servers_ok_def quiet_append)
next
  case False
  then show ?thesis using assms by (auto simp: stopApp_eq stop_first_def servers_ok_def stop_targets_def)
qed

lemma servers_stop_servers:
  assumes "servers_ok cfg s" "stopPC s \<noteq> T_None" "\<not> stops_called (stopPC s)"
  shows "servers_ok cfg (stop_servers cfg s)"
proof -
  have targets: "stopping s" if "i \<in> set (stop_targets cfg s)" for i
    using that by (auto simp: stopping_def stop_targets_def)
  obtain ds where ds: "calls (stop_servers cfg s) = calls s @ ds" "list_all (\<lambda>d. \<not> work d) ds"
      "\<And>i. CallStart i \<notin> set ds" "\<And>i. CallEndpoint i \<notin> set ds"
      "\<And>i. CallStop i \<in> set ds \<longleftrightarrow> i \<in> set (stop_targets cfg s)" "CancelApp \<notin> set ds"
  proof
    let ?ds = "CancelServers # (if stopping s then map CallStop (stop_targets cfg s) else [])"
    show "calls (stop_servers cfg s) = calls s @ ?ds" by (simp add: stop_servers_eq)
  qed (use targets in \<open>auto simp: list_all_iff\<close>)
  have stop: "stopPC (stop_servers cfg s) \<noteq> T_None" "stops_called (stopPC (stop_servers cfg s))"
    and keeps: "stopRequested (stop_servers cfg s) = stopRequested s"
      "serversLaunched (stop_servers cfg s) = serversLaunched s" "preparedServers (stop_servers cfg s) = preparedServers s"
    by (simp_all add: stop_servers_eq)
  have "stopRequested s" "CancelApp \<in> set (calls s)" using assms by (auto simp: servers_ok_def)
  then show ?thesis
    using assms(1,3) ds stop keeps stop_targets_cong [OF keeps(2,3)] by (simp add: servers_ok_def quiet_append)
qed


text \<open>Before the first stop request the startup may call anything.\<close>

lemma servers_running:
  assumes "servers_ok cfg s" "\<not> stopRequested s"
  shows "stopPC s = T_None" "CancelApp \<notin> set (calls s)" "CallStop i \<notin> set (calls s)"
  using assms by (auto simp: servers_ok_def split: if_splits)

lemma servers_launch:
  assumes "servers_ok cfg s" "\<not> stopRequested s" "length rs = length (servers cfg)"
  shows "servers_ok cfg ((invoke_starts 0 rs (s\<lparr>serversLaunched := True\<rparr>))\<lparr>startPC := S_Tick\<rparr>)"
  using assms(1,2,3) servers_running [OF assms(1,2)]
  by (auto simp: servers_ok_def quiet_append intro!: quiet_no_cancel split: if_splits)

lemma servers_call:
  assumes "servers_ok cfg s" "\<not> stopRequested s" "j < length (servers cfg)"
    and "calls s' = calls s @ [CallEndpoint j]" "preparedServers s' = insert (sv_ref (servers cfg ! j)) (preparedServers s)"
    and "stopRequested s' = stopRequested s" "serversLaunched s' = serversLaunched s" "stopPC s' = stopPC s"
  shows "servers_ok cfg s'"
  using assms servers_running [OF assms(1,2)]
  by (auto simp: servers_ok_def quiet_append split: if_splits)

lemma servers_register:
  assumes "servers_ok cfg s" "\<not> stopRequested s" "calls s' = calls s @ [CallRegister]"
    and "preparedServers s' = preparedServers s" "stopRequested s' = stopRequested s"
    and "serversLaunched s' = serversLaunched s" "stopPC s' = stopPC s"
  shows "servers_ok cfg s'"
  using assms servers_running [OF assms(1,2)]
  by (auto simp: servers_ok_def quiet_append split: if_splits)

lemma servers_start_done: "servers_ok cfg s \<Longrightarrow> servers_ok cfg (start_done cfg r s)"
  by (rule servers_same) (simp_all add: start_done_def)

lemma servers_start_fails: "servers_ok cfg s \<Longrightarrow> servers_ok cfg (start_fails cfg e s)"
  by (simp add: start_fails_def servers_start_done)

lemma servers_before_start: "servers_ok cfg s \<Longrightarrow> servers_ok cfg (before_start_hooks cfg k s)"
  by (rule servers_keep [of cfg s _ "hook_calls BeforeStart (beforeStartHooks cfg) k"]) (simp_all add: before_start_eq)

lemma servers_after_start: "servers_ok cfg s \<Longrightarrow> servers_ok cfg (after_start_hooks cfg k s)"
  by (rule servers_keep [of cfg s _ "hook_calls AfterStart (afterStartHooks cfg) k"])
    (simp_all add: after_start_eq hook_calls_def)

lemma servers_start_after: "servers_ok cfg s \<Longrightarrow> servers_ok cfg (start_after cfg s)"
  by (simp add: start_after_def servers_start_done servers_after_start)

lemma servers_built: "servers_ok cfg s \<Longrightarrow> servers_ok cfg (built_instance url cfg s)"
  by (rule servers_same) simp_all

lemma servers_resolve:
  assumes "servers_ok cfg s"
  shows "servers_ok cfg (resolve_endpoints url cfg i es s)"
proof (cases rule: resolve_endpoints_cases [of url cfg i es s])
  case (call j w)
  then show ?thesis
    using next_endpointer_index [OF call(2)] by (intro servers_call [OF assms, of j]) simp_all
next
  case (failed e es')
  have "servers_ok cfg (s\<lparr>currentEndpoints := es'\<rparr>)" by (rule servers_same [OF assms]) simp_all
  then show ?thesis using failed by (simp add: servers_start_fails)
next
  case (built x)
  then show ?thesis by (intro servers_same [OF assms]) simp_all
qed

lemma servers_run:
  assumes "servers_ok cfg s"
  shows "servers_ok cfg (start_stored cfg stops s)" "servers_ok cfg (run_fails cfg v s)" "servers_ok cfg (run_stops cfg s)"
proof -
  have set: "servers_ok cfg (u\<lparr>runPC := p\<rparr>)" if "servers_ok cfg u" for u p
    by (rule servers_same [OF that]) simp_all
  have err: "servers_ok cfg (addRunError e s)" for e
    by (rule servers_same [OF assms]) (simp_all add: addRunError_def)
  show "servers_ok cfg (run_fails cfg v s)" "servers_ok cfg (run_stops cfg s)"
    using servers_stopApp [OF err] servers_stopApp [OF assms]
    by (auto simp: run_fails_def run_stops_def Let_def intro: set)
  let ?u = "record_call (CallHook BeforeStart 0) (s\<lparr>startErr := appErr s\<rparr>)"
  have u: "servers_ok cfg ?u"
    by (rule servers_keep [OF assms, of _ "[CallHook BeforeStart 0]"]) (simp_all add: record_call_def)
  have w: "servers_ok cfg (if stops then stopApp cfg ?u else ?u)" using servers_stopApp [OF u] u by simp
  show "servers_ok cfg (start_stored cfg stops s)"
  proof (cases "stopRequested s \<or> beforeStartHooks cfg = []")
    case True
    then show ?thesis
      by (intro servers_same [OF assms]) (auto simp: start_stored_def executeStart_def Let_def)
  next
    case False
    then show ?thesis
      by (intro servers_same [OF w]) (simp_all add: start_stored_def executeStart_def Let_def)
  qed
qed

lemma servers_runApp:
  assumes "servers_ok cfg s" "runApp cfg stops s = Some s'"
  shows "servers_ok cfg s'"
  using assms(2)
proof (cases rule: runApp_cases)
  case (starts u b)
  have "servers_ok cfg u" using starts(2) assms(1) servers_stopApp by blast
  then have "servers_ok cfg (u\<lparr>runtimeCleanup := b\<rparr>)" by (rule servers_same) simp_all
  then show ?thesis using starts(3) servers_run(1) by simp
next
  case (fails u v)
  then show ?thesis using assms(1) servers_stopApp servers_run(2) by blast
qed


lemma servers_start_steps:
  assumes "servers_ok cfg s"
  shows "start_hook_settles cfg r s = Some s' \<Longrightarrow> servers_ok cfg s'" "start_launches cfg rs s = Some s' \<Longrightarrow> servers_ok cfg s'"
    "start_ticks url cfg s = Some s' \<Longrightarrow> servers_ok cfg s'" "endpoint_settles url cfg q s = Some s' \<Longrightarrow> servers_ok cfg s'"
    "start_registers cfg s = Some s' \<Longrightarrow> servers_ok cfg s'" "start_registered cfg s = Some s' \<Longrightarrow> servers_ok cfg s'"
    "register_times_out cfg s = Some s' \<Longrightarrow> servers_ok cfg s'" "start_continues cfg s = Some s' \<Longrightarrow> servers_ok cfg s'"
    "start_abandoned cfg s = Some s' \<Longrightarrow> servers_ok cfg s'" "late_registration s = Some s' \<Longrightarrow> servers_ok cfg s'"
proof -
  note seg = servers_before_start [OF assms] servers_after_start [OF assms] servers_start_done [OF assms]
    servers_start_fails [OF assms] servers_start_after [OF assms] servers_resolve [OF assms] servers_built [OF assms]
  have "servers_ok cfg (s\<lparr>lateRegister := True\<rparr>)" by (rule servers_same [OF assms]) simp_all
  then have late: "servers_ok cfg (give_up_register cfg e s)" for e by (simp add: give_up_register_def servers_start_fails)
  show "servers_ok cfg s'" if "start_hook_settles cfg r s = Some s'"
    using that seg by (auto simp: start_hook_settles_def split: start_pc.splits wait.splits option.splits)
  show "servers_ok cfg s'" if "start_launches cfg rs s = Some s'"
  proof (cases "stopRequested s")
    case True
    then show ?thesis using that by (intro servers_same [OF assms]) (auto simp: start_launches_def split: if_splits)
  next
    case False
    then show ?thesis using that servers_launch [OF assms] by (auto simp: start_launches_def split: if_splits)
  qed
  show "servers_ok cfg s'" if "start_ticks url cfg s = Some s'"
    using that seg by (auto simp: start_ticks_def buildInstance_def split: if_splits option.splits)
  show "servers_ok cfg s'" if "endpoint_settles url cfg q s = Some s'"
    using that seg by (auto simp: endpoint_settles_def split: start_pc.splits wait.splits sum.splits)
  show "servers_ok cfg s'" if "start_registers cfg s = Some s'"
  proof (cases "stopRequested s")
    case True
    then show ?thesis using that seg by (auto simp: start_registers_def split: start_pc.splits)
  next
    case False
    then show ?thesis
      using that by (intro servers_register [OF assms False]) (auto simp: start_registers_def record_call_def split: start_pc.splits)
  qed
  show "servers_ok cfg s'" if "start_registered cfg s = Some s'"
    using that
  proof (cases rule: start_registered_cases)
    case (stored i)
    then show ?thesis
      by (intro servers_keep [OF assms, of _ "if startupAbandoned s then [CallCompensate] else []"])
        (simp_all add: compensateRegister_def record_call_def)
  next
    case (failed i v)
    then show ?thesis using seg by simp
  qed
  show "servers_ok cfg s'" if "register_times_out cfg s = Some s'"
    using that late by (auto simp: register_times_out_def split: start_pc.splits)
  show "servers_ok cfg s'" if "start_continues cfg s = Some s'"
    using that seg by (auto simp: start_continues_def split: if_splits)
  show "servers_ok cfg s'" if "start_abandoned cfg s = Some s'"
    using that seg late by (auto simp: start_abandoned_def split: start_pc.splits)
  show "servers_ok cfg s'" if "late_registration s = Some s'"
    using that
    by (intro servers_keep [OF assms, of _ "if registration s = RegisterSettled None then [CallCompensate] else []"])
      (auto simp: late_registration_def compensateRegister_def record_call_def
        split: registration.splits if_splits option.splits)
qed

lemma servers_stop_steps:
  assumes "servers_ok cfg s"
  shows "stop_joined cfg s = Some s' \<Longrightarrow> servers_ok cfg s'" "stop_join_abandoned cfg s = Some s' \<Longrightarrow> servers_ok cfg s'"
    "stop_hook_settles cfg r s = Some s' \<Longrightarrow> servers_ok cfg s'" "stop_hook_abandoned cfg s = Some s' \<Longrightarrow> servers_ok cfg s'"
    "stop_deregisters cfg s = Some s' \<Longrightarrow> servers_ok cfg s'" "deregister_settles cfg r s = Some s' \<Longrightarrow> servers_ok cfg s'"
    "deregister_times_out cfg s = Some s' \<Longrightarrow> servers_ok cfg s'" "servers_stopped cfg s = Some s' \<Longrightarrow> servers_ok cfg s'"
    "servers_stop_abandoned cfg s = Some s' \<Longrightarrow> servers_ok cfg s'" "starts_settled cfg s = Some s' \<Longrightarrow> servers_ok cfg s'"
    "starts_abandoned cfg s = Some s' \<Longrightarrow> servers_ok cfg s'"
proof -
  have err: "servers_ok cfg (addStopError e u)" "stopPC (addStopError e u) = stopPC u" if "servers_ok cfg u" for e u
    using servers_same [OF that, of "addStopError e u"] by (simp_all add: addStopError_def)
  have errs: "servers_ok cfg (fold addStopError es s)" "stopPC (fold addStopError es s) = stopPC s" for es
    using servers_same [OF assms, of "fold addStopError es s"] by (simp_all add: fold_addStopError)
  have rd: "servers_ok cfg (read_results u)" "stopPC (read_results u) = stopPC u" if "servers_ok cfg u" for u
    using servers_same [OF that, of "read_results u"] by (simp_all add: read_results_def)
  have ab: "servers_ok cfg (s\<lparr>startupAbandoned := True\<rparr>)" by (rule servers_same [OF assms]) simp_all
  note seg = servers_before_stop servers_after_stop servers_stop_servers servers_settle_starts
  show "servers_ok cfg s'" if "stop_joined cfg s = Some s'"
    using that assms by (auto simp: stop_joined_def intro!: seg split: stop_pc.splits wait.splits start_pc.splits)
  show "servers_ok cfg s'" if "stop_join_abandoned cfg s = Some s'"
    using that ab err [OF ab]
    by (auto simp: stop_join_abandoned_def intro!: seg split: stop_pc.splits option.splits)
  show "servers_ok cfg s'" if "stop_hook_settles cfg r s = Some s'"
    using that assms err [OF assms]
    by (auto simp: stop_hook_settles_def intro!: seg split: stop_pc.splits wait.splits option.splits)
  show "servers_ok cfg s'" if "stop_hook_abandoned cfg s = Some s'"
    using that err [OF assms]
    by (auto simp: stop_hook_abandoned_def intro!: seg split: stop_pc.splits option.splits)
  show "servers_ok cfg s'" if "stop_deregisters cfg s = Some s'"
  proof (cases "registeredInstance s")
    case None
    then show ?thesis using that assms by (auto simp: stop_deregisters_def intro!: seg split: if_splits)
  next
    case (Some i)
    then show ?thesis
      using that by (intro servers_keep [OF assms, of _ "[CallDeregister]"])
        (auto simp: stop_deregisters_def record_call_def split: if_splits)
  qed
  show "servers_ok cfg s'" if "deregister_settles cfg r s = Some s'"
    using that assms err [OF assms]
    by (auto simp: deregister_settles_def intro!: seg split: if_splits option.splits)
  show "servers_ok cfg s'" if "deregister_times_out cfg s = Some s'"
    using that err [OF assms] by (auto simp: deregister_times_out_def intro!: seg split: if_splits)
  show "servers_ok cfg s'" if "servers_stopped cfg s = Some s'"
    using that errs by (auto simp: servers_stopped_def intro!: seg split: stop_pc.splits wait.splits if_splits)
  show "servers_ok cfg s'" if "servers_stop_abandoned cfg s = Some s'"
    using that errs err [OF errs(1)]
    by (auto simp: servers_stop_abandoned_def intro!: seg split: stop_pc.splits option.splits)
  show "servers_ok cfg s'" if "starts_settled cfg s = Some s'"
    using that rd [OF assms] by (auto simp: starts_settled_def intro!: seg split: stop_pc.splits wait.splits if_splits)
  show "servers_ok cfg s'" if "starts_abandoned cfg s = Some s'"
    using that err [OF assms] rd [OF err(1) [OF assms]]
    by (auto simp: starts_abandoned_def intro!: seg split: stop_pc.splits option.splits)
qed

lemma servers_step:
  assumes "servers_ok cfg s" "app_step url cfg i s = Some s'"
  shows "servers_ok cfg s'"
proof (cases "background i")
  case True
  then show ?thesis using servers_same [OF assms(1)] background_step [OF True assms(2)] by (simp add: same_control_def)
next
  case False
  note steps = servers_runApp [OF assms(1)] servers_start_steps [OF assms(1)] servers_stop_steps [OF assms(1)]
  from False show ?thesis
  proof (cases i)
    case Stop
    then show ?thesis using assms servers_stopApp by (auto split: if_splits)
  next
    case (RunRaces win)
    have "servers_ok cfg (s\<lparr>runPC := p\<rparr>)" for p by (rule servers_same [OF assms(1)]) simp_all
    with RunRaces show ?thesis
      using assms servers_run(2,3)
      by (auto simp: run_races_def split: winner.splits run_pc.splits start_pc.splits option.splits if_splits)
  next
    case RunFinishes
    then show ?thesis using assms servers_same [OF assms(1), of s'] by (auto dest!: run_finishes_eq)
  next
    case (RegisterSettles r)
    then show ?thesis using assms servers_same [OF assms(1), of s'] by (auto simp: register_settles_def split: if_splits)
  qed (use assms(2) in \<open>auto dest: steps\<close>)
qed

lemma reachable_servers: "app_reachable url cfg s \<Longrightarrow> servers_ok cfg s"
  by (induction rule: app_reachable.induct) (simp add: servers_ok_def newApp_def, rule servers_step)

end
