(* ===== verification/App_Registration.thy ===== *)
theory App_Registration
  imports App_Spec
begin

text \<open>
  Who owns the registration of an application. A \<open>register\<close> that succeeds has one owner at any time: the startup that
  waits for it, the callback for a late success, the stored instance that the stop will deregister, or the
  deregistration or compensation that was called for it.
\<close>

fun registering :: "start_pc \<Rightarrow> bool" where
  "registering (S_Register i w) = True"
| "registering _ = False"

fun unregistered :: "start_pc \<Rightarrow> bool" where
  "unregistered (S_Register i w) = False"
| "unregistered S_Registered = False"
| "unregistered (S_After k w) = False"
| "unregistered (S_Done r) = False"
| "unregistered _ = True"

lemma unregistered_waits: "unregistered pc \<Longrightarrow> \<not> registering pc"
  by (cases pc) simp_all

fun joined :: "stop_pc \<Rightarrow> bool" where
  "joined T_None = False"
| "joined (T_Join w) = False"
| "joined _ = True"

fun withdrawn :: "stop_pc \<Rightarrow> bool" where
  "withdrawn T_None = False"
| "withdrawn (T_Join w) = False"
| "withdrawn (T_Before k w) = False"
| "withdrawn T_BeforeDone = False"
| "withdrawn _ = True"

text \<open>The calls that take a registration back.\<close>

definition undone :: "call list \<Rightarrow> nat" where
  "undone cs = count_list cs CallDeregister + count_list cs CallCompensate"

lemma undone_append [simp]: "undone (cs @ ds) = undone cs + undone ds"
  by (simp add: undone_def)

definition waits :: "app \<Rightarrow> bool" where
  "waits s \<longleftrightarrow> registering (startPC s) \<or> lateRegister s"

definition owners :: "app \<Rightarrow> nat" where
  "owners s = of_bool (waits s) + of_bool (registeredInstance s \<noteq> None) + undone (calls s)"

fun owned :: "registration \<Rightarrow> nat \<Rightarrow> bool \<Rightarrow> bool" where
  "owned Uncalled n w \<longleftrightarrow> n = 0"
| "owned Registering n w \<longleftrightarrow> n = 1 \<and> w"
| "owned (RegisterSettled None) n w \<longleftrightarrow> n = 1"
| "owned (RegisterSettled (Some v)) n w \<longleftrightarrow> n = of_bool w"

definition registration_ok :: "app \<Rightarrow> bool" where
  "registration_ok s \<longleftrightarrow>
     (startupSet s \<or> startPC s = S_None) \<and> (stopPC s = T_None \<or> stopRequested s) \<and>
     (joined (stopPC s) \<and> registering (startPC s) \<longrightarrow> startupAbandoned s) \<and>
     (withdrawn (stopPC s) \<longrightarrow> registeredInstance s = None) \<and>
     (registering (startPC s) \<longrightarrow> \<not> lateRegister s) \<and>
     (unregistered (startPC s) \<longrightarrow> registration s = Uncalled) \<and>
     owned (registration s) (owners s) (waits s)"

lemma registration_keep:
  assumes "registration_ok s" "undone (calls s') = undone (calls s)"
    and "registeredInstance s' = registeredInstance s" "registration s' = registration s" "lateRegister s' = lateRegister s"
    and "startupAbandoned s \<longrightarrow> startupAbandoned s'" "startupSet s' \<or> startPC s' = S_None"
    and "registering (startPC s') = registering (startPC s)" "unregistered (startPC s') \<longrightarrow> unregistered (startPC s)"
    and "joined (stopPC s') \<longrightarrow> joined (stopPC s) \<or> \<not> registering (startPC s) \<or> startupAbandoned s'"
    and "withdrawn (stopPC s') \<longrightarrow> withdrawn (stopPC s) \<or> registeredInstance s = None"
    and "stopPC s' = T_None \<or> stopRequested s'"
  shows "registration_ok s'"
proof -
  have "waits s' = waits s" using assms(5,8) by (simp add: waits_def)
  moreover have "owners s' = owners s" using assms(2,3) calculation by (simp add: owners_def)
  ultimately show ?thesis using assms unfolding registration_ok_def by auto
qed

lemma registration_same:
  assumes "registration_ok s" "calls s' = calls s" "registeredInstance s' = registeredInstance s"
    and "registration s' = registration s" "lateRegister s' = lateRegister s" "startupAbandoned s' = startupAbandoned s"
    and "startupSet s' = startupSet s" "startPC s' = startPC s" "stopPC s' = stopPC s" "stopRequested s' = stopRequested s"
  shows "registration_ok s'"
proof -
  have "waits s' = waits s" "owners s' = owners s" using assms(2-) by (simp_all add: owners_def waits_def)
  then show ?thesis using assms by (simp add: registration_ok_def)
qed

lemma undone_hooks [simp]: "undone (hook_calls p hooks k) = 0"
  by (simp add: hook_calls_def undone_def)

lemma undone_simps [simp]: "undone [] = 0" "undone (CallDeregister # cs) = Suc (undone cs)"
  "undone (CallCompensate # cs) = Suc (undone cs)" "undone (CallHook p k # cs) = undone cs"
  "undone (CallStart i # cs) = undone cs" "undone (CallEndpoint i # cs) = undone cs" "undone (CallStop i # cs) = undone cs"
  "undone (CancelApp # cs) = undone cs" "undone (CancelServers # cs) = undone cs" "undone (CallRegister # cs) = undone cs"
  by (simp_all add: undone_def)

lemma undone_maps [simp]: "undone (map CallStart xs) = 0" "undone (map CallStop xs) = 0"
  by (induction xs) simp_all

lemma registration_started: "registration_ok s \<Longrightarrow> startPC s \<noteq> S_None \<Longrightarrow> startupSet s"
  by (simp add: registration_ok_def)

section \<open>Stopping\<close>

lemma registration_before_stop:
  assumes "registration_ok s" "stopPC s \<noteq> T_None" "\<not> withdrawn (stopPC s)" "joined (stopPC s) \<or> \<not> registering (startPC s) \<or> startupAbandoned s"
  shows "registration_ok (before_stop_hooks cfg k s)"
  by (rule registration_keep [OF assms(1)])
    (use assms in \<open>auto simp: before_stop_eq before_stop_pc_def registration_ok_def\<close>)

lemma registration_later:
  assumes "registration_ok s" "joined (stopPC s)" "withdrawn (stopPC s)"
  shows "registration_ok (after_stop_hooks cfg k s)" "registration_ok (settle_starts cfg s)"
  by (rule registration_keep [OF assms(1)];
      use assms in \<open>auto simp: after_stop_eq settle_starts_def registration_ok_def\<close>)+

lemma registration_stop_servers:
  assumes "registration_ok s" "joined (stopPC s)" "registeredInstance s = None"
  shows "registration_ok (stop_servers cfg s)"
  by (rule registration_keep [OF assms(1)]) (use assms in \<open>auto simp: stop_servers_eq registration_ok_def\<close>)

lemma registration_stopApp:
  assumes "registration_ok s"
  shows "registration_ok (stopApp cfg s)"
proof (cases "stopPC s = T_None")
  case True
  have "\<not> registering (startPC s)" if "\<not> startupSet s" using that assms by (simp add: registration_ok_def)
  then show ?thesis
    using True assms
    by (intro registration_keep [OF assms]) (auto simp: stopApp_eq stop_first_def before_stop_pc_def registration_ok_def)
next
  case False
  then have "stopRequested s" using assms by (simp add: registration_ok_def)
  then show ?thesis using False by (intro registration_same [OF assms]) (simp_all add: stopApp_eq stop_first_def)
qed

section \<open>Starting\<close>

lemma registration_start_done:
  assumes "registration_ok s" "startPC s \<noteq> S_None" "\<not> registering (startPC s)"
  shows "registration_ok (start_done cfg r s)"
  by (rule registration_keep [OF assms(1)])
    (use assms registration_started in \<open>auto simp: start_done_def registration_ok_def\<close>)

lemma registration_start_fails:
  "registration_ok s \<Longrightarrow> startPC s \<noteq> S_None \<Longrightarrow> \<not> registering (startPC s) \<Longrightarrow> registration_ok (start_fails cfg e s)"
  by (simp add: start_fails_def registration_start_done)

lemma registration_hooks:
  assumes "registration_ok s" "startPC s \<noteq> S_None" "\<not> registering (startPC s)"
  shows "unregistered (startPC s) \<Longrightarrow> registration_ok (before_start_hooks cfg k s)" "registration_ok (after_start_hooks cfg k s)"
    "registration_ok (start_after cfg s)"
proof -
  have set: "startupSet s" using registration_started assms by blast
  have stop: "stopPC s = T_None \<or> stopRequested s" using assms(1) by (simp add: registration_ok_def)
  show "registration_ok (before_start_hooks cfg k s)" if "unregistered (startPC s)"
    by (rule registration_keep [OF assms(1)])
      (use set stop assms that in \<open>auto simp: before_start_eq before_start_pc_def\<close>)
  show after: "registration_ok (after_start_hooks cfg k s)" for k
    by (rule registration_keep [OF assms(1)]) (use set stop assms in \<open>auto simp: after_start_eq\<close>)
  show "registration_ok (start_after cfg s)"
    using after registration_start_done [OF assms] by (simp add: start_after_def)
qed

lemma registration_built:
  assumes "registration_ok s" "startPC s \<noteq> S_None" "unregistered (startPC s)"
  shows "registration_ok (built_instance url cfg s)"
proof (cases rule: built_instance_cases [of url cfg s])
  case (failed e)
  then show ?thesis using assms registration_start_fails unregistered_waits by simp
next
  case (built i)
  have "startupSet s" "stopPC s = T_None \<or> stopRequested s"
    using registration_started assms by (auto simp: registration_ok_def)
  then show ?thesis
    using built assms unregistered_waits [OF assms(3)] by (intro registration_keep [OF assms(1)]) auto
qed

lemma registration_resolve:
  assumes "registration_ok s" "startPC s \<noteq> S_None" "unregistered (startPC s)"
  shows "registration_ok (resolve_endpoints url cfg i es s)"
proof -
  have s: "startupSet s" "stopPC s = T_None \<or> stopRequested s" "\<not> registering (startPC s)"
    using registration_started assms unregistered_waits [OF assms(3)] by (auto simp: registration_ok_def)
  show ?thesis
  proof (cases rule: resolve_endpoints_cases [of url cfg i es s])
    case (call j w)
    then show ?thesis using s assms by (intro registration_keep [OF assms(1)]) auto
  next
    case (failed e es')
    have "registration_ok (s\<lparr>currentEndpoints := es'\<rparr>)" by (rule registration_same [OF assms(1)]) simp_all
    then show ?thesis using failed s assms by (simp add: registration_start_fails)
  next
    case (built x)
    then show ?thesis using s assms by (intro registration_keep [OF assms(1)]) auto
  qed
qed

lemma registration_run:
  assumes "registration_ok s"
  shows "startPC s = S_None \<Longrightarrow> registration_ok (start_stored cfg stops s)" "registration_ok (run_fails cfg v s)"
    "registration_ok (run_stops cfg s)"
proof -
  have set: "registration_ok (u\<lparr>runPC := p\<rparr>)" if "registration_ok u" for u p
    by (rule registration_same [OF that]) simp_all
  have err: "registration_ok (addRunError e s)" for e
    by (rule registration_same [OF assms]) (simp_all add: addRunError_def)
  show "registration_ok (run_fails cfg v s)" "registration_ok (run_stops cfg s)"
    using registration_stopApp [OF err] registration_stopApp [OF assms]
    by (auto simp: run_fails_def run_stops_def Let_def intro: set)
  let ?u = "record_call (CallHook BeforeStart 0) (s\<lparr>startErr := appErr s\<rparr>)"
  have u: "registration_ok ?u" if "startPC s = S_None"
    by (rule registration_keep [OF assms]) (use assms that in \<open>auto simp: record_call_def registration_ok_def\<close>)
  let ?w = "if stops then stopApp cfg ?u else ?u"
  have w: "registration_ok ?w \<and> startPC ?w = S_None" if "startPC s = S_None"
    using registration_stopApp [OF u [OF that]] u [OF that] that by (simp add: stopApp_eq record_call_def)
  show "registration_ok (start_stored cfg stops s)" if "startPC s = S_None"
  proof (cases "stopRequested s \<or> beforeStartHooks cfg = []")
    case True
    then show ?thesis using assms that
      by (intro registration_keep [OF assms]) (auto simp: start_stored_def executeStart_def Let_def registration_ok_def)
  next
    case False
    have "stopPC ?w = T_None \<or> stopRequested ?w" using w [OF that] by (simp add: registration_ok_def)
    then show ?thesis using False w [OF that]
      by (intro registration_keep [OF conjunct1 [OF w [OF that]]]) (auto simp: start_stored_def executeStart_def Let_def)
  qed
qed

lemma registration_runApp:
  assumes "registration_ok s" "startPC s = S_None" "runApp cfg stops s = Some s'"
  shows "registration_ok s'"
  using assms(3)
proof (cases rule: runApp_cases)
  case (starts u b)
  have "registration_ok u \<and> startPC u = S_None" using starts(2) assms(1,2) registration_stopApp by (auto simp: stopApp_eq)
  then have "registration_ok (u\<lparr>runtimeCleanup := b\<rparr>) \<and> startPC (u\<lparr>runtimeCleanup := b\<rparr>) = S_None"
    using registration_same [of u "u\<lparr>runtimeCleanup := b\<rparr>"] by simp
  then show ?thesis using starts(3) registration_run(1) by blast
next
  case (fails u v)
  then show ?thesis using assms(1) registration_stopApp registration_run(2) by blast
qed

section \<open>Steps\<close>

text \<open>The steps of the registration itself.\<close>

lemma registration_give_up:
  assumes "registration_ok s" "startPC s = S_Register i w"
  shows "registration_ok (give_up_register cfg e s)"
proof -
  have "waits (give_up_register cfg e s)" "waits s" "owners (give_up_register cfg e s) = owners s"
    using assms by (simp_all add: give_up_register_def start_fails_eq waits_def owners_def)
  then show ?thesis using assms by (simp add: registration_ok_def give_up_register_def start_fails_eq)
qed

lemma registration_registers:
  assumes "registration_ok s" "start_registers cfg s = Some s'"
  shows "registration_ok s'"
proof -
  obtain i where pc: "startPC s = S_Built i" using assms(2) by (auto simp: start_registers_def split: start_pc.splits)
  show ?thesis
  proof (cases "stopRequested s")
    case True
    then show ?thesis using assms pc registration_hooks(3) [OF assms(1)] by (auto simp: start_registers_def)
  next
    case False
    then have "owners s = 0" "stopPC s = T_None" "startupSet s" "\<not> lateRegister s" "registeredInstance s = None"
      using assms(1) pc by (auto simp: registration_ok_def owners_def waits_def)
    then show ?thesis
      using assms pc False
      by (auto simp: start_registers_def record_call_def registration_ok_def owners_def waits_def)
  qed
qed

lemma registration_registered:
  assumes "registration_ok s" "start_registered cfg s = Some s'"
  shows "registration_ok s'"
  using assms(2)
proof (cases rule: start_registered_cases)
  case (stored i)
  then have o: "owners s = 1" "\<not> lateRegister s" "startupSet s" "stopPC s = T_None \<or> stopRequested s"
      "joined (stopPC s) \<longrightarrow> startupAbandoned s"
    using assms(1) by (auto simp: registration_ok_def)
  then have "registeredInstance s = None" "undone (calls s) = 0" using stored(1) by (auto simp: owners_def waits_def)
  moreover have "\<not> withdrawn (stopPC s) \<or> joined (stopPC s)" by (cases "stopPC s") auto
  ultimately show ?thesis
    using stored o
    by (cases "startupAbandoned s")
      (auto simp: registration_ok_def owners_def waits_def compensateRegister_def record_call_def)
next
  case (failed i v)
  then have o: "owners s = 1" "\<not> lateRegister s" "startupSet s" using assms(1) by (auto simp: registration_ok_def waits_def)
  then have "registeredInstance s = None" "undone (calls s) = 0" using failed(1) by (auto simp: owners_def waits_def)
  then show ?thesis
    using failed o assms(1) by (auto simp: registration_ok_def owners_def waits_def start_fails_eq)
qed

lemma registration_late:
  assumes "registration_ok s" "late_registration s = Some s'"
  shows "registration_ok s'"
proof -
  obtain r where r: "registration s = RegisterSettled r" "lateRegister s"
      "s' = (case r of None \<Rightarrow> compensateRegister s | Some _ \<Rightarrow> s)\<lparr>lateRegister := False\<rparr>"
    using assms(2) by (auto simp: late_registration_def split: registration.splits if_splits)
  have n: "\<not> registering (startPC s)" using assms(1) r by (auto simp: registration_ok_def)
  have "owners s = 1" using assms(1) r by (cases r) (simp_all add: registration_ok_def waits_def)
  then have "registeredInstance s = None" "undone (calls s) = 0" using r(2) by (auto simp: owners_def waits_def)
  then show ?thesis
    using assms(1) r n
    by (cases r) (auto simp: registration_ok_def owners_def waits_def compensateRegister_def record_call_def)
qed

lemma registration_settles:
  assumes "registration_ok s" "register_settles r s = Some s'"
  shows "registration_ok s'"
proof -
  have s': "registration s = Registering" "s' = s\<lparr>registration := RegisterSettled r\<rparr>"
    using assms(2) by (simp_all add: register_settles_def split: if_splits)
  have "owners s' = owners s" "waits s' = waits s" by (simp_all add: s'(2) owners_def waits_def)
  then show ?thesis using assms(1) s' by (cases r) (auto simp: registration_ok_def)
qed

lemma registration_deregisters:
  assumes "registration_ok s" "stop_deregisters cfg s = Some s'"
  shows "registration_ok s'"
proof (cases "registeredInstance s")
  case None
  then show ?thesis
    using assms registration_stop_servers by (auto simp: stop_deregisters_def split: if_splits)
next
  case (Some i)
  have s': "s' = (record_call CallDeregister (s\<lparr>registeredInstance := None\<rparr>))\<lparr>stopPC := T_Deregister\<rparr>"
      and pc: "stopPC s = T_BeforeDone"
    using assms(2) Some by (auto simp: stop_deregisters_def split: if_splits)
  have "owners s' = owners s" "waits s' = waits s" using s' Some by (simp_all add: owners_def waits_def record_call_def)
  then show ?thesis using assms(1) s' pc by (auto simp: registration_ok_def record_call_def)
qed

lemma registration_start_steps:
  assumes "registration_ok s"
  shows "start_hook_settles cfg r s = Some s' \<Longrightarrow> registration_ok s'" "start_launches cfg rs s = Some s' \<Longrightarrow> registration_ok s'"
    "start_ticks url cfg s = Some s' \<Longrightarrow> registration_ok s'" "endpoint_settles url cfg q s = Some s' \<Longrightarrow> registration_ok s'"
    "register_times_out cfg s = Some s' \<Longrightarrow> registration_ok s'" "start_continues cfg s = Some s' \<Longrightarrow> registration_ok s'"
    "start_abandoned cfg s = Some s' \<Longrightarrow> registration_ok s'"
proof -
  note seg = registration_hooks [OF assms] registration_start_done [OF assms] registration_start_fails [OF assms]
    registration_resolve [OF assms] registration_built [OF assms]
  show "registration_ok s'" if "start_hook_settles cfg r s = Some s'"
    using that seg by (auto simp: start_hook_settles_def split: start_pc.splits wait.splits option.splits)
  show "registration_ok s'" if "start_launches cfg rs s = Some s'"
    using that assms
    by (intro registration_keep [OF assms]) (auto simp: start_launches_def registration_ok_def split: if_splits)
  show "registration_ok s'" if "start_ticks url cfg s = Some s'"
    using that seg by (auto simp: start_ticks_def buildInstance_def split: if_splits option.splits)
  show "registration_ok s'" if "endpoint_settles url cfg q s = Some s'"
    using that seg by (auto simp: endpoint_settles_def split: start_pc.splits wait.splits sum.splits)
  show "registration_ok s'" if "register_times_out cfg s = Some s'"
    using that registration_give_up [OF assms] by (auto simp: register_times_out_def split: start_pc.splits)
  show "registration_ok s'" if "start_continues cfg s = Some s'"
    using that seg by (auto simp: start_continues_def split: if_splits)
  show "registration_ok s'" if "start_abandoned cfg s = Some s'"
    using that seg registration_give_up [OF assms] by (auto simp: start_abandoned_def split: start_pc.splits)
qed

lemma registration_stop_steps:
  assumes "registration_ok s"
  shows "stop_joined cfg s = Some s' \<Longrightarrow> registration_ok s'" "stop_join_abandoned cfg s = Some s' \<Longrightarrow> registration_ok s'"
    "stop_hook_settles cfg r s = Some s' \<Longrightarrow> registration_ok s'" "stop_hook_abandoned cfg s = Some s' \<Longrightarrow> registration_ok s'"
    "deregister_settles cfg r s = Some s' \<Longrightarrow> registration_ok s'" "deregister_times_out cfg s = Some s' \<Longrightarrow> registration_ok s'"
    "servers_stopped cfg s = Some s' \<Longrightarrow> registration_ok s'" "servers_stop_abandoned cfg s = Some s' \<Longrightarrow> registration_ok s'"
    "starts_settled cfg s = Some s' \<Longrightarrow> registration_ok s'" "starts_abandoned cfg s = Some s' \<Longrightarrow> registration_ok s'"
proof -
  have err: "registration_ok (addStopError e u)" "stopPC (addStopError e u) = stopPC u"
      "startPC (addStopError e u) = startPC u" "registeredInstance (addStopError e u) = registeredInstance u"
      "startupAbandoned (addStopError e u) = startupAbandoned u" if "registration_ok u" for e u
    using registration_same [OF that, of "addStopError e u"] by (simp_all add: addStopError_def)
  have errs: "registration_ok (fold addStopError es s)" "stopPC (fold addStopError es s) = stopPC s" for es
    using registration_same [OF assms, of "fold addStopError es s"] by (simp_all add: fold_addStopError)
  have rd: "registration_ok (read_results u)" "stopPC (read_results u) = stopPC u" if "registration_ok u" for u
    using registration_same [OF that, of "read_results u"] by (simp_all add: read_results_def)
  have ab: "registration_ok (s\<lparr>startupAbandoned := True\<rparr>)"
    using assms by (auto simp: registration_ok_def owners_def waits_def)
  have gone: "registeredInstance s = None" if "withdrawn (stopPC s)" using that assms by (simp add: registration_ok_def)
  note seg = registration_before_stop registration_later registration_stop_servers
  show "registration_ok s'" if "stop_joined cfg s = Some s'"
    using that assms by (auto simp: stop_joined_def intro!: seg split: stop_pc.splits wait.splits start_pc.splits)
  show "registration_ok s'" if "stop_join_abandoned cfg s = Some s'"
    using that err [OF ab]
    by (auto simp: stop_join_abandoned_def intro!: seg split: stop_pc.splits option.splits)
  show "registration_ok s'" if "stop_hook_settles cfg r s = Some s'"
    using that assms err [OF assms]
    by (auto simp: stop_hook_settles_def intro!: seg split: stop_pc.splits wait.splits option.splits)
  show "registration_ok s'" if "stop_hook_abandoned cfg s = Some s'"
    using that err [OF assms] by (auto simp: stop_hook_abandoned_def intro!: seg split: stop_pc.splits option.splits)
  show "registration_ok s'" if "deregister_settles cfg r s = Some s'"
    using that assms err [OF assms] gone
    by (auto simp: deregister_settles_def intro!: seg split: if_splits option.splits)
  show "registration_ok s'" if "deregister_times_out cfg s = Some s'"
    using that err [OF assms] gone by (auto simp: deregister_times_out_def intro!: seg split: if_splits)
  show "registration_ok s'" if "servers_stopped cfg s = Some s'"
    using that errs by (auto simp: servers_stopped_def intro!: seg split: stop_pc.splits wait.splits if_splits)
  show "registration_ok s'" if "servers_stop_abandoned cfg s = Some s'"
    using that errs err [OF errs(1)]
    by (auto simp: servers_stop_abandoned_def intro!: seg split: stop_pc.splits option.splits)
  show "registration_ok s'" if "starts_settled cfg s = Some s'"
    using that rd [OF assms] by (auto simp: starts_settled_def intro!: seg split: stop_pc.splits wait.splits if_splits)
  show "registration_ok s'" if "starts_abandoned cfg s = Some s'"
    using that err [OF assms] rd [OF err(1) [OF assms]]
    by (auto simp: starts_abandoned_def intro!: seg split: stop_pc.splits option.splits)
qed

lemma registration_step:
  assumes "registration_ok s" "runPC s = R_None \<longrightarrow> startPC s = S_None" "app_step url cfg i s = Some s'"
  shows "registration_ok s'"
proof (cases "background i")
  case True
  then show ?thesis
    using registration_same [OF assms(1)] background_step [OF True assms(3)] by (simp add: same_control_def)
next
  case False
  note steps = registration_start_steps [OF assms(1)] registration_stop_steps [OF assms(1)]
    registration_registers [OF assms(1)] registration_registered [OF assms(1)] registration_late [OF assms(1)]
    registration_settles [OF assms(1)] registration_deregisters [OF assms(1)]
  from False show ?thesis
  proof (cases i)
    case (Run stops)
    then have r: "runApp cfg stops s = Some s'" using assms(3) by simp
    then have "startPC s = S_None" using assms(2) by (auto simp: runApp_def split: if_splits)
    then show ?thesis using registration_runApp [OF assms(1) _ r] by blast
  next
    case Stop
    then show ?thesis using assms registration_stopApp by (auto split: if_splits)
  next
    case (RunRaces win)
    have "registration_ok (s\<lparr>runPC := p\<rparr>)" for p by (rule registration_same [OF assms(1)]) simp_all
    with RunRaces show ?thesis
      using assms registration_run(2,3)
      by (auto simp: run_races_def split: winner.splits run_pc.splits start_pc.splits option.splits if_splits)
  next
    case RunFinishes
    then show ?thesis using assms registration_same [OF assms(1), of s'] by (auto dest!: run_finishes_eq)
  qed (use assms(3) in \<open>auto dest: steps\<close>)
qed

lemma reachable_registration: "app_reachable url cfg s \<Longrightarrow> registration_ok s"
proof (induction rule: app_reachable.induct)
  case (app_new parent)
  then show ?case by (simp add: registration_ok_def newApp_def owners_def waits_def)
next
  case (app_steps s i s')
  then show ?case using registration_step reachable_ordered [OF app_steps.hyps(1)] by (simp add: calls_ordered_def)
qed

end
