(* ===== verification/App_Outcome.thy ===== *)
theory App_Outcome
  imports App_Spec
begin

text \<open>
  The end of a run: what it reports of the failures recorded before, and a shutdown whose deadline has passed, which
  needs no callee to settle.
\<close>

section \<open>The reported errors\<close>

lemma set_addFailure: "set (addFailure e es) = insert e (set es)"
  by (auto simp: addFailure_def)

lemma set_fold_addFailure: "set (fold addFailure es xs) = set es \<union> set xs"
  by (induction es arbitrary: xs) (auto simp: set_addFailure)

text \<open>What a step that is not one of the run leaves as it was.\<close>

definition outcome_kept :: "app \<Rightarrow> app \<Rightarrow> bool" where
  "outcome_kept s s' \<longleftrightarrow> runPC s' = runPC s \<and> runErrors s' = runErrors s \<and>
     (stopPC s = T_Done \<longrightarrow> stopPC s' = T_Done \<and> stopErrors s' = stopErrors s \<and> serverResults s' = serverResults s)"

lemma kept_seg:
  "outcome_kept s (start_done cfg r s)" "outcome_kept s (start_fails cfg e s)" "outcome_kept s (before_start_hooks cfg k s)"
  "outcome_kept s (after_start_hooks cfg k s)" "outcome_kept s (start_after cfg s)" "outcome_kept s (built_instance url cfg s)"
  "outcome_kept s (resolve_endpoints url cfg j es s)" "outcome_kept s (give_up_register cfg e s)"
  "outcome_kept s (stopApp cfg s)"
  by (simp_all add: outcome_kept_def start_done_def start_fails_def before_start_eq after_start_eq start_after_def
      give_up_register_def stopApp_eq stop_first_def)

lemma kept_start_steps:
  "start_hook_settles cfg r s = Some s' \<Longrightarrow> outcome_kept s s'" "start_launches cfg rs s = Some s' \<Longrightarrow> outcome_kept s s'"
  "start_ticks url cfg s = Some s' \<Longrightarrow> outcome_kept s s'" "endpoint_settles url cfg q s = Some s' \<Longrightarrow> outcome_kept s s'"
  "start_registers cfg s = Some s' \<Longrightarrow> outcome_kept s s'" "start_registered cfg s = Some s' \<Longrightarrow> outcome_kept s s'"
  "register_times_out cfg s = Some s' \<Longrightarrow> outcome_kept s s'" "start_continues cfg s = Some s' \<Longrightarrow> outcome_kept s s'"
  "start_abandoned cfg s = Some s' \<Longrightarrow> outcome_kept s s'" "late_registration s = Some s' \<Longrightarrow> outcome_kept s s'"
  "register_settles r s = Some s' \<Longrightarrow> outcome_kept s s'"
proof -
  note seg = kept_seg
  show "outcome_kept s s'" if "start_hook_settles cfg r s = Some s'"
    using that seg by (auto simp: start_hook_settles_def split: start_pc.splits wait.splits option.splits)
  show "outcome_kept s s'" if "start_launches cfg rs s = Some s'"
    using that by (auto simp: start_launches_def outcome_kept_def split: if_splits)
  show "outcome_kept s s'" if "start_ticks url cfg s = Some s'"
    using that seg by (auto simp: start_ticks_def buildInstance_def split: if_splits option.splits)
  show "outcome_kept s s'" if "endpoint_settles url cfg q s = Some s'"
    using that seg by (auto simp: endpoint_settles_def split: start_pc.splits wait.splits sum.splits)
  show "outcome_kept s s'" if "start_registers cfg s = Some s'"
    using that seg(5) [of s cfg]
    by (auto simp: start_registers_def outcome_kept_def record_call_def split: start_pc.splits if_splits)
  show "outcome_kept s s'" if "start_registered cfg s = Some s'"
    using that
  proof (cases rule: start_registered_cases)
    case (stored i)
    then show ?thesis by (simp add: outcome_kept_def compensateRegister_def record_call_def)
  next
    case (failed i v)
    then show ?thesis using seg by simp
  qed
  show "outcome_kept s s'" if "register_times_out cfg s = Some s'"
    using that seg by (auto simp: register_times_out_def split: start_pc.splits)
  show "outcome_kept s s'" if "start_continues cfg s = Some s'"
    using that seg by (auto simp: start_continues_def split: if_splits)
  show "outcome_kept s s'" if "start_abandoned cfg s = Some s'"
    using that seg by (auto simp: start_abandoned_def split: start_pc.splits)
  show "outcome_kept s s'" if "late_registration s = Some s'"
    using that by (auto simp: late_registration_def outcome_kept_def compensateRegister_def record_call_def
        split: registration.splits if_splits option.splits)
  show "outcome_kept s s'" if "register_settles r s = Some s'"
    using that by (auto simp: register_settles_def outcome_kept_def split: if_splits)
qed

lemma kept_stop_steps:
  "stop_joined cfg s = Some s' \<Longrightarrow> outcome_kept s s'" "stop_join_abandoned cfg s = Some s' \<Longrightarrow> outcome_kept s s'"
  "stop_hook_settles cfg r s = Some s' \<Longrightarrow> outcome_kept s s'" "stop_hook_abandoned cfg s = Some s' \<Longrightarrow> outcome_kept s s'"
  "stop_deregisters cfg s = Some s' \<Longrightarrow> outcome_kept s s'" "deregister_settles cfg r s = Some s' \<Longrightarrow> outcome_kept s s'"
  "deregister_times_out cfg s = Some s' \<Longrightarrow> outcome_kept s s'" "servers_stopped cfg s = Some s' \<Longrightarrow> outcome_kept s s'"
  "servers_stop_abandoned cfg s = Some s' \<Longrightarrow> outcome_kept s s'" "starts_settled cfg s = Some s' \<Longrightarrow> outcome_kept s s'"
  "starts_abandoned cfg s = Some s' \<Longrightarrow> outcome_kept s s'"
  by (auto simp: outcome_kept_def stop_joined_def stop_join_abandoned_def stop_hook_settles_def stop_hook_abandoned_def
      stop_deregisters_def deregister_settles_def deregister_times_out_def servers_stopped_def servers_stop_abandoned_def
      starts_settled_def starts_abandoned_def before_stop_eq after_stop_eq stop_servers_eq settle_starts_def addStopError_def
      fold_addStopError read_results_def record_call_def
      split: stop_pc.splits start_pc.splits wait.splits option.splits if_splits)


definition outcome_ok :: "app \<Rightarrow> bool" where
  "outcome_ok s \<longleftrightarrow> (\<forall>r. runPC s = R_Done r \<longrightarrow>
     stopPC s = T_Done \<and> r = lifecycleFailure (runErrors s) ''application lifecycle failed'' \<and>
     (\<forall>e. stop_result s = Some e \<longrightarrow> e \<in> set (runErrors s)) \<and>
     set (result_errors (serverResults s)) \<subseteq> set (runErrors s))"

lemma outcome_keep: "outcome_kept s s' \<Longrightarrow> outcome_ok s \<Longrightarrow> outcome_ok s'"
  by (auto simp: outcome_kept_def outcome_ok_def stop_result_def)

lemma outcome_running: "\<forall>r. runPC s \<noteq> R_Done r \<Longrightarrow> outcome_ok s"
  by (simp add: outcome_ok_def)

lemma outcome_step:
  assumes "outcome_ok s" "app_step url cfg i s = Some s'"
  shows "outcome_ok s'"
proof (cases "background i")
  case True
  then show ?thesis
    using outcome_keep [OF _ assms(1)] background_step [OF True assms(2)] by (simp add: same_control_def outcome_kept_def)
next
  case False
  note keep = outcome_keep [OF _ assms(1)]
  from False show ?thesis
  proof (cases i)
    case (Run stops)
    then have "runApp cfg stops s = Some s'" using assms(2) by simp
    then show ?thesis
      by (cases rule: runApp_cases) (simp_all add: outcome_ok_def start_stored_def run_fails_def Let_def)
  next
    case Stop
    then show ?thesis using assms(2) keep kept_seg by (auto split: if_splits)
  next
    case (RunRaces win)
    then show ?thesis
      using assms(2) by (auto simp: run_races_def run_fails_def run_stops_def Let_def outcome_ok_def
          split: winner.splits run_pc.splits start_pc.splits option.splits if_splits)
  next
    case RunFinishes
    then have s': "stopPC s = T_Done" "s' = s\<lparr>runtimeCleanup := False, runErrors := final_errors cfg s,
        runPC := R_Done (lifecycleFailure (final_errors cfg s) ''application lifecycle failed'')\<rparr>"
      using assms(2) run_finishes_eq by simp_all
    then show ?thesis
      by (auto simp: outcome_ok_def final_errors_def set_fold_addFailure set_addFailure stop_result_def split: option.split)
  qed (use assms(2) in \<open>auto intro: keep dest: kept_start_steps kept_stop_steps\<close>)
qed

lemma reachable_outcome: "app_reachable url cfg s \<Longrightarrow> outcome_ok s"
  by (induction rule: app_reachable.induct) (simp add: outcome_ok_def newApp_def, rule outcome_step)

section \<open>A shutdown past its deadline\<close>

text \<open>The step that goes on without any answer.\<close>

fun unanswered :: "stop_pc \<Rightarrow> input" where
  "unanswered (T_Join w) = StopJoinAbandoned"
| "unanswered (T_Before k w) = StopHookAbandoned"
| "unanswered T_BeforeDone = StopDeregisters"
| "unanswered T_Deregister = DeregisterTimesOut"
| "unanswered (T_Stops w) = ServersStopAbandoned"
| "unanswered (T_Starts w) = StartsAbandoned"
| "unanswered (T_After k w) = StopHookAbandoned"
| "unanswered _ = RunFinishes"

fun hang :: "url \<Rightarrow> app_config \<Rightarrow> nat \<Rightarrow> app \<Rightarrow> app option" where
  "hang url cfg 0 s = Some s"
| "hang url cfg (Suc n) s =
     (if stopPC s = T_Done then Some s
      else case app_step url cfg (unanswered (stopPC s)) s of None \<Rightarrow> None | Some s' \<Rightarrow> hang url cfg n s')"

text \<open>The number of such steps that are left.\<close>

fun stop_work :: "app_config \<Rightarrow> stop_pc \<Rightarrow> nat" where
  "stop_work cfg T_None = 0"
| "stop_work cfg (T_Join w) = 5 + length (afterStopHooks cfg) + length (beforeStopHooks cfg)"
| "stop_work cfg (T_Before k w) = 5 + length (afterStopHooks cfg) + (length (beforeStopHooks cfg) - Suc k)"
| "stop_work cfg T_BeforeDone = 4 + length (afterStopHooks cfg)"
| "stop_work cfg T_Deregister = 3 + length (afterStopHooks cfg)"
| "stop_work cfg (T_Stops w) = 2 + length (afterStopHooks cfg)"
| "stop_work cfg (T_Starts w) = 1 + length (afterStopHooks cfg)"
| "stop_work cfg (T_After k w) = 1 + (length (afterStopHooks cfg) - Suc k)"
| "stop_work cfg T_Done = 0"

lemma unanswered_step:
  assumes "boundedStop cfg" "stopErr s = Some e" "stopPC s \<noteq> T_None" "stopPC s \<noteq> T_Done"
  shows "\<exists>s'. app_step url cfg (unanswered (stopPC s)) s = Some s' \<and> stopErr s' = Some e \<and> stopPC s' \<noteq> T_None \<and>
    stop_work cfg (stopPC s') < stop_work cfg (stopPC s) \<and> runPC s' = runPC s"
proof -
  have ab: "\<exists>f. abandons (boundedStop cfg) (stopErr s) w = Some f" for w
    using assms(1,2) by (cases w) (simp_all add: abandons_def)
  have err: "stopErr (fold addStopError es s) = stopErr s" "runPC (fold addStopError es s) = runPC s" for es
    by (simp_all add: fold_addStopError)
  show ?thesis
  proof (cases "stopPC s")
    case (T_Join w)
    then show ?thesis using ab [of w] assms(2)
      by (auto simp: stop_join_abandoned_def before_stop_eq before_stop_pc_def addStopError_def)
  next
    case (T_Before k w)
    then show ?thesis using ab [of w] assms(2)
      by (auto simp: stop_hook_abandoned_def before_stop_eq before_stop_pc_def addStopError_def)
  next
    case T_BeforeDone
    then show ?thesis using assms(2)
      by (auto simp: stop_deregisters_def stop_servers_eq record_call_def split: option.split)
  next
    case T_Deregister
    then show ?thesis using assms(2) by (auto simp: deregister_times_out_def stop_servers_eq addStopError_def)
  next
    case (T_Stops w)
    then show ?thesis using ab [of w] assms(2) err
      by (auto simp: servers_stop_abandoned_def settle_starts_def addStopError_def)
  next
    case (T_Starts w)
    then show ?thesis using ab [of w] assms(2)
      by (auto simp: starts_abandoned_def after_stop_eq after_stop_pc_def addStopError_def read_results_def)
  next
    case (T_After k w)
    then show ?thesis using ab [of w] assms(2)
      by (auto simp: stop_hook_abandoned_def after_stop_eq after_stop_pc_def addStopError_def)
  qed (use assms in simp_all)
qed

lemma hang_ends:
  assumes "boundedStop cfg" "stopErr s = Some e" "stopPC s \<noteq> T_None" "stop_work cfg (stopPC s) \<le> n"
  shows "\<exists>s'. hang url cfg n s = Some s' \<and> stopPC s' = T_Done \<and> runPC s' = runPC s"
  using assms(2-)
proof (induction n arbitrary: s)
  case 0
  then have "stopPC s = T_Done" by (cases "stopPC s") auto
  then show ?case by simp
next
  case (Suc n)
  show ?case
  proof (cases "stopPC s = T_Done")
    case False
    obtain t where t: "app_step url cfg (unanswered (stopPC s)) s = Some t" "stopErr t = Some e" "stopPC t \<noteq> T_None"
        "stop_work cfg (stopPC t) < stop_work cfg (stopPC s)" "runPC t = runPC s"
      using unanswered_step [OF assms(1) Suc.prems(1,2) False] by blast
    then show ?thesis using Suc.IH [OF t(2,3)] Suc.prems(3) False by simp
  qed simp
qed

end
