(* ===== verification/App_Properties.thy ===== *)
theory App_Properties
  imports App_Demo App_Servers App_Registration App_Outcome
begin

text \<open>
  The properties of the application lifecycle, each for every state that a sequence of steps reaches: order of the
  calls, stopped servers, registration, reported errors, and a shutdown that no callee can delay past its deadline.
\<close>

text \<open>
  C3: in every run the calls of the startup come in the order before-start hooks, server starts, endpoints, registration,
  after-start hooks, and those of the shutdown in the order cancellation of the application, before-stop hooks,
  deregistration, cancellation of the servers, server stops, after-stop hooks, each group by index; no call of either
  is made twice.
\<close>

theorem app_calls_in_order:
  assumes "app_reachable url cfg s"
  shows "sorted_wrt rank_less (List.map_filter start_rank (calls s)) \<and>
    sorted_wrt rank_less (List.map_filter stop_rank (calls s)) \<and> (c \<noteq> CallCompensate \<longrightarrow> count_list (calls s) c \<le> 1)"
proof -
  have o: "ranked start_rank (calls s) (0, 0) (start_bound (startPC s))"
      "ranked stop_rank (calls s) (0, 0) (stop_bound (stopPC s))"
    using reachable_ordered [OF assms] by (simp_all add: calls_ordered_def)
  have "start_rank c \<noteq> None \<or> stop_rank c \<noteq> None" if "c \<noteq> CallCompensate"
    using that by (cases c rule: start_rank.cases) auto
  then show ?thesis using ranked_sorted [OF o(1)] ranked_sorted [OF o(2)] ranked_once [OF o(1)] ranked_once [OF o(2)] by blast
qed

theorem app_calls_in_order_witness:
  "sorted_wrt rank_less (List.map_filter stop_rank (calls demo_ended)) \<and> count_list (calls demo_ended) (CallStop 0) \<le> 1"
  using app_calls_in_order [OF demo_reachable(3) [of sample_url], of "CallStop 0"] by simp



text \<open>
  C1: no registration is leaked. While a \<open>register\<close> has not succeeded nothing is deregistered or compensated. From
  its success on there is exactly one of: the startup or the callback that waits to see it, the stored instance, the call of
  \<open>deregister\<close>, the compensation. The callback compensates whenever it runs, and a finished
  shutdown has no stored instance.
\<close>

theorem registration_never_leaks:
  assumes "app_reachable url cfg s"
  shows "(if registration s = RegisterSettled None
      then of_bool (registering (startPC s) \<or> lateRegister s) + of_bool (registeredInstance s \<noteq> None) +
        count_list (calls s) CallDeregister + count_list (calls s) CallCompensate = (1 :: nat)
      else registeredInstance s = None \<and> CallDeregister \<notin> set (calls s) \<and> CallCompensate \<notin> set (calls s)) \<and>
    (stopPC s = T_Done \<longrightarrow> registeredInstance s = None) \<and>
    (registration s = RegisterSettled None \<and> lateRegister s \<longrightarrow>
      (\<exists>s'. app_step url cfg LateRegistration s = Some s' \<and> calls s' = calls s @ [CallCompensate]))"
proof -
  note ok = reachable_registration [OF assms]
  have o: "owners s = of_bool (registering (startPC s) \<or> lateRegister s) + of_bool (registeredInstance s \<noteq> None) +
      count_list (calls s) CallDeregister + count_list (calls s) CallCompensate"
    by (simp add: owners_def waits_def undone_def)
  have none: "registeredInstance s = None \<and> CallDeregister \<notin> set (calls s) \<and> CallCompensate \<notin> set (calls s)"
    if "owners s \<le> of_bool (waits s)"
    using that unfolding owners_def undone_def by (auto simp: count_list_0_iff)
  have w: "owned (registration s) (owners s) (waits s)" and r: "stopPC s = T_Done \<longrightarrow> registeredInstance s = None"
    using ok by (auto simp: registration_ok_def)
  have late: "app_step url cfg LateRegistration s = Some ((record_call CallCompensate s)\<lparr>lateRegister := False\<rparr>)"
    if "registration s = RegisterSettled None" "lateRegister s"
    using that by (simp add: late_registration_def compensateRegister_def)
  have "owners s = 1" if "registration s = RegisterSettled None" using w that by simp
  moreover have "owners s \<le> of_bool (waits s)" if "registration s \<noteq> RegisterSettled None"
  proof (cases "registration s")
    case (RegisterSettled v)
    then show ?thesis using w that by (cases v) auto
  qed (use w in auto)
  ultimately have "if registration s = RegisterSettled None
      then of_bool (registering (startPC s) \<or> lateRegister s) + of_bool (registeredInstance s \<noteq> None) +
        count_list (calls s) CallDeregister + count_list (calls s) CallCompensate = (1 :: nat)
      else registeredInstance s = None \<and> CallDeregister \<notin> set (calls s) \<and> CallCompensate \<notin> set (calls s)"
    using none unfolding o if_bool_eq_conj by blast
  moreover have "\<exists>s'. app_step url cfg LateRegistration s = Some s' \<and> calls s' = calls s @ [CallCompensate]"
    if "registration s = RegisterSettled None \<and> lateRegister s"
    using late that by (simp add: record_call_def)
  ultimately show ?thesis using r by blast
qed

theorem registration_never_leaks_witness:
  "count_list (calls demo_stopped) CallDeregister + count_list (calls demo_stopped) CallCompensate = 1"
  using registration_never_leaks [OF demo_reachable(2) [of sample_url]] by (simp add: demo_states)

text \<open>
  C5: a run that is over has shut the application down and reports every failure that the shutdown and the awaited
  servers left: it settles with the only error, or with one aggregate of all; it succeeds exactly when none was
  recorded, and then the shutdown had none and no server failed otherwise than by its cancellation.
\<close>

theorem run_reports_failures:
  assumes "app_reachable url cfg s" "runPC s = R_Done r"
  shows "stopPC s = T_Done \<and> r = lifecycleFailure (runErrors s) ''application lifecycle failed'' \<and>
    (r = None \<longleftrightarrow> runErrors s = []) \<and> (\<forall>e. stop_result s = Some e \<longrightarrow> e \<in> set (runErrors s)) \<and>
    (\<forall>e. Some (Some e) \<in> set (serverResults s) \<and> e \<noteq> Canceled \<longrightarrow> e \<in> set (runErrors s)) \<and>
    (r = None \<longrightarrow> stopErrors s = [] \<and> set (serverResults s) \<subseteq> {None, Some None, Some (Some Canceled)})"
proof -
  have ok: "stopPC s = T_Done" "r = lifecycleFailure (runErrors s) ''application lifecycle failed''"
      "\<And>e. stop_result s = Some e \<Longrightarrow> e \<in> set (runErrors s)" "set (result_errors (serverResults s)) \<subseteq> set (runErrors s)"
    using reachable_outcome [OF assms(1)] assms(2) by (simp_all add: outcome_ok_def)
  have none: "lifecycleFailure es m = None \<longleftrightarrow> es = []" for es m
    by (simp add: lifecycleFailure_def split: list.split)
  have res: "e \<in> set (runErrors s)" if "Some (Some e) \<in> set (serverResults s)" "e \<noteq> Canceled" for e
  proof -
    have "e \<in> set (result_errors (serverResults s))"
      using that by (force simp: result_errors_def List.map_filter_def image_iff)
    then show ?thesis using ok(4) by blast
  qed
  have "stopErrors s = [] \<and> set (serverResults s) \<subseteq> {None, Some None, Some (Some Canceled)}" if "runErrors s = []"
  proof
    show "stopErrors s = []" using ok(3) that none [of "stopErrors s"] by (cases "stop_result s") (auto simp: stop_result_def)
    show "set (serverResults s) \<subseteq> {None, Some None, Some (Some Canceled)}"
    proof
      fix p assume p: "p \<in> set (serverResults s)"
      show "p \<in> {None, Some None, Some (Some Canceled)}"
      proof (rule ccontr)
        assume "p \<notin> {None, Some None, Some (Some Canceled)}"
        then obtain e where "p = Some (Some e)" "e \<noteq> Canceled" by (cases p; cases "the p") auto
        then show False using res [of e] p that by simp
      qed
    qed
  qed
  then show ?thesis using ok none res by auto
qed

theorem run_reports_failures_witness: "stopPC demo_ended = T_Done \<and> stopErrors demo_ended = []"
  using run_reports_failures [OF demo_reachable(3) [of sample_url], of None] by (simp add: demo_states)

text \<open>
  C4: a bounded shutdown ends whatever its callees do. Once a stop is requested its deadline can pass, and then
  the steps that wait for no answer, at most five and one for each stop hook, end the shutdown; a run that was waiting for it
  can then finish.
\<close>

theorem shutdown_bounded:
  assumes "app_reachable url cfg s" "stopRequested s" "boundedStop cfg"
  shows "\<exists>t s'. (if stopErr s = None then app_step url cfg StopDeadline s = Some t else t = s) \<and>
    hang url cfg (5 + length (beforeStopHooks cfg) + length (afterStopHooks cfg)) t = Some s' \<and> stopPC s' = T_Done \<and>
    (runPC s = R_Stopping \<longrightarrow> app_step url cfg RunFinishes s' \<noteq> None)"
proof -
  have pc: "stopPC s \<noteq> T_None" using reachable_servers [OF assms(1)] assms(2) by (simp add: servers_ok_def)
  let ?t = "if stopErr s = None then s\<lparr>stopErr := Some DeadlineExceeded\<rparr> else s"
  have t: "if stopErr s = None then app_step url cfg StopDeadline s = Some ?t else ?t = s"
    using assms(3) pc by simp
  have "\<exists>e. stopErr ?t = Some e" and same: "stopPC ?t = stopPC s" "runPC ?t = runPC s" by auto
  moreover have "stop_work cfg (stopPC s) \<le> 5 + length (beforeStopHooks cfg) + length (afterStopHooks cfg)"
    by (cases "stopPC s") simp_all
  ultimately obtain s' where "hang url cfg (5 + length (beforeStopHooks cfg) + length (afterStopHooks cfg)) ?t = Some s'"
      "stopPC s' = T_Done" "runPC s' = runPC s"
    using hang_ends [OF assms(3), of ?t _ "5 + length (beforeStopHooks cfg) + length (afterStopHooks cfg)" url] pc by auto
  then show ?thesis using t by (intro exI [of _ ?t] exI [of _ s']) (auto simp: run_finishes_def Let_def)
qed

definition demo_hung :: app where
  "demo_hung = stopApp demo_cfg demo_running"

theorem shutdown_bounded_witness:
  "\<exists>t s'. app_step sample_url demo_cfg StopDeadline demo_hung = Some t \<and> hang sample_url demo_cfg 7 t = Some s' \<and>
    stopPC s' = T_Done"
proof -
  have step: "app_step sample_url demo_cfg Stop demo_running = Some demo_hung" by (simp add: demo_hung_def demo_running_def)
  have "stopRequested demo_hung" "boundedStop demo_cfg" "stopErr demo_hung = None"
    by (simp_all add: demo_hung_def stopApp_eq demo_running_def demo_cfg_def)
  moreover have n: "5 + length (beforeStopHooks demo_cfg) + length (afterStopHooks demo_cfg) = 7" by (simp add: demo_cfg_def)
  ultimately show ?thesis
    using shutdown_bounded [OF app_steps [OF demo_reachable(1) step], unfolded n] by auto
qed

end
