(* ===== verification/Spec2Isabelle.thy ===== *)
theory Spec2Isabelle
  imports Context_Runs Store_Spec Cache Health Broker Metadata_Wire Circuit Limiter Retry Dns Base32 Mdns_Cache Sse Selector_P2C App_Properties
begin

text \<open>
  Verification of go-like, a TypeScript toolkit for back-end services (\<open>src/packages\<close>): contracts with
  small in-process implementations (context, metadata, store, cache, broker, health, registry, resilience), the
  application lifecycle that runs servers over them, and adapters of external services. The development models the
  packages whose logic is in the repository itself. Each definition follows one function of the source and keeps its
  name where Isabelle allows it; the theories import each other as the packages do.

  \<^bold>\<open>The runtime.\<close> \<open>Js_Prelude\<close>: numbers (\<open>js_number\<close>, exact, with the infinities and \<open>NaN\<close>), thrown values
  (\<open>thrown\<close>, \<open>'a res\<close> is a value or what is thrown), \<open>Map\<close>s in insertion order (\<open>jsmap\<close>). \<open>Js_String\<close>: strings as lists of
  16-bit code units, decimal and hexadecimal text, \<open>sort\<close>, \<open>Object.fromEntries\<close>. \<open>Utf8\<close>: the encoder and both decoders.
  \<open>Js_Json\<close>: \<open>JSON.parse\<close> and \<open>stringify\<close>; the parser has fuel, twice the length of its input and two, and
  \<open>json_fuel\<close> shows that every call consumes input, so the fuel never runs out. \<open>Js_Uri\<close>: \<open>encodeURIComponent\<close> and its inverse.

  \<^bold>\<open>Context\<close> (\<open>packages/context/src\<close>). \<open>Context\<close>: a \<open>world\<close> has the cells of the cancel contexts, after-function
  registrations, signals, timers and the microtask queue; a cancellation is a wave over explicit frames, as in the
  code. \<open>Context_Wave\<close>, \<open>Context_Ops\<close>, \<open>Context_Deadline\<close>: the invariant and that each exported function keeps it.
  \<open>Context_Runs\<close>: properties of every reachable state (cancellation reaches exactly the subtree, what is settled stays
  so, callbacks run once). \<open>Context_Listeners\<close>: a registration fires only after its signal; used by \<open>Health\<close>.

  \<^bold>\<open>Store\<close> (\<open>packages/store/src\<close>, \<open>store/memory/src/store.ts\<close>). \<open>Store\<close>: options, snapshots, key order, and the locale
  \<open>store_contract\<close> of what clients rely on. \<open>Store_Memory\<close>: the memory store, which interprets the locale.
  \<open>Store_Spec\<close>: refinement of a map of unexpired records, no lost update, outcomes of a write, complete pages.

  \<^bold>\<open>Cache\<close> (\<open>packages/cache\<close>), \<open>Broker\<close> (\<open>packages/broker/memory\<close>), \<open>Health\<close> (\<open>packages/health\<close>): one theory
  each. Promise chains, timers and callbacks are steps of a relation, so the properties hold for every interleaving.

  \<^bold>\<open>Metadata\<close> (\<open>packages/metadata\<close>, \<open>transport/src/metadata.ts\<close>). \<open>Metadata\<close>: snapshots, their operations and
  propagation; the lower case of a string is a parameter. \<open>Metadata_Wire\<close>: the bounded header that carries a snapshot.

  \<^bold>\<open>Registry\<close> (\<open>packages/registry/src\<close>). \<open>Registry\<close>: canonical snapshots of service instances; the URL parser is a parameter.
  \<open>Selector\<close>, \<open>Selector_P2C\<close>: the endpoint selectors with their bounded memory of domains, fairness, shares and loads.
  \<open>Dns_Name\<close>, \<open>Dns_Address\<close>, \<open>Dns\<close>, \<open>Base32\<close> (\<open>registry/mdns/src\<close>): the mDNS packet codec; the locale \<open>wire_format\<close>
  states the round trip of one field, and the codec interprets it for every field and record. \<open>Mdns_Cache\<close>: the TTL cache of
  what publishers announce: collisions, goodbyes, expiry, and the instances listed for a name.

  \<^bold>\<open>Application\<close> (\<open>packages/core/src/app.ts\<close>). \<open>App\<close>: options, and the lifecycle as a machine with three program
  counters, one for each asynchronous function; a step is the code between two \<open>await\<close>s or an event of
  the environment, and \<open>calls\<close> records the calls of hooks, servers and registrar. \<open>App_Spec\<close>: the segments as updates and the order of
  calls. \<open>App_Servers\<close>, \<open>App_Registration\<close>, \<open>App_Outcome\<close>: one invariant each, kept by every step.
  \<open>App_Demo\<close>: a full run for the witnesses. \<open>App_Properties\<close>: the properties.

  \<^bold>\<open>Resilience\<close> (\<open>packages/resilience/src\<close>). \<open>Circuit\<close>, \<open>Limiter\<close>, \<open>Retry\<close> over \<open>Resilience_Base\<close>: the circuit breaker
  with its probe protocol, the token bucket, and the retry loop with backoff. \<open>Sse\<close> (\<open>transport/src/sse\<close>): the line
  splitter against a byte-by-byte reference, and the round trip of events.

  \<^bold>\<open>Bounds.\<close> Fuel occurs in the JSON parser (above) and in the page
  walk of \<open>pages_complete\<close> (the number of records); each theory shows that it is enough. \<open>hang\<close> of \<open>App_Outcome\<close> has the
  number of steps that \<open>stop_work\<close> counts. Other loops are structural or have a termination proof. Numbers are exact
  rationals: the code adds and compares times and counters below 2 to the 53, where doubles are exact.

  \<^bold>\<open>Not modelled.\<close> Adapters of external services and third-party packages (registry, store, config and cache
  providers, rabbitmq, nats, bullmq, croner, pino, winston, otel, prometheus), network transports and the
  client and server over them, the web adapters, the mDNS runtime around codec and cache (sockets and timers), and the schema compiler \<open>struct\<close>, which
  generates JavaScript. In the modelled packages: the EWMA selector (floating-point exponential and root),
  contexts that bring their own \<open>afterFunc\<close>, the rejection of values of a wrong type (the types exclude them) and of
  thenables returned by callbacks. \<open>PROJECT.json\<close> lists every part with the reason.
\<close>

end
